(* ===== verification/Prelude.thy ===== *)
theory Prelude
  imports Main "HOL-Library.Word"
begin

text \<open>
  Shared vocabulary of the development: the machine integers and byte strings of the Rust
  sources, a result type that separates the three ways a Rust call can end (a value, an
  \<open>Err\<close>, a panic), the checked arithmetic of the development profile (\<open>cargo run\<close>,
  \<open>cargo test\<close>), where an overflow is a panic, and the generic lemmas on lists and words
  that several components use.
\<close>

unbundle bit_operations_syntax

section \<open>Machine types\<close>

type_synonym u8 = "8 word"
type_synonym u16 = "16 word"
type_synonym u32 = "32 word"
type_synonym u64 = "64 word"
type_synonym i64 = "64 word"  \<comment> \<open>read with \<open>sint\<close>\<close>
type_synonym bytes = "u8 list"
type_synonym usize = nat  \<comment> \<open>bounded by \<open>usize_max\<close>; every operation that can leave the range is checked\<close>

text \<open>The collections of facts the components share.\<close>

named_theorems res_simps \<open>evaluation of results\<close>
named_theorems arith_checked \<open>checked arithmetic, unfolded\<close>
named_theorems inv_intros \<open>operations keep their component's invariant\<close>
named_theorems codec_simps \<open>what a decoder does on an encoder's output\<close>

section \<open>How a call ends\<close>

text \<open>
  \<open>Ok\<close> and \<open>Err\<close> are the constructors of Rust's \<open>Result\<close>; \<open>Panic\<close> is an unwinding
  panic (index out of range, arithmetic overflow under overflow checks, \<open>unwrap\<close> of an
  error).
\<close>

datatype ('e, 'a) res = Ok (res_val: 'a) | Err (res_err: 'e) | Panic

fun res_bind :: "('e, 'a) res \<Rightarrow> ('a \<Rightarrow> ('e, 'b) res) \<Rightarrow> ('e, 'b) res" where
  "res_bind (Ok a) f = f a"
| "res_bind (Err e) f = Err e"
| "res_bind Panic f = Panic"

definition res_map :: "('a \<Rightarrow> 'b) \<Rightarrow> ('e, 'a) res \<Rightarrow> ('e, 'b) res" where
  "res_map f r = res_bind r (\<lambda>a. Ok (f a))"

text \<open>A checked operation that has no value is a panic.\<close>

fun or_panic :: "'a option \<Rightarrow> ('e, 'a) res" where
  "or_panic (Some a) = Ok a"
| "or_panic None = Panic"

fun is_ok :: "('e, 'a) res \<Rightarrow> bool" where
  "is_ok (Ok _) = True"
| "is_ok (Err _) = False"
| "is_ok Panic = False"

text \<open>The same for a call that also returns the state it leaves behind.\<close>

fun st_bind :: "('e, 'a) res \<times> 's \<Rightarrow> ('a \<Rightarrow> 's \<Rightarrow> ('e, 'b) res \<times> 's) \<Rightarrow> ('e, 'b) res \<times> 's" where
  "st_bind (Ok a, s) k = k a s"
| "st_bind (Err e, s) k = (Err e, s)"
| "st_bind (Panic, s) k = (Panic, s)"

text \<open>\<open>flatten\<close> over an iterator of results keeps the values and drops the errors.\<close>

fun flatten_ok :: "('e, 'a) res list \<Rightarrow> 'a list" where
  "flatten_ok [] = []"
| "flatten_ok (r # rs) = (case r of Ok a \<Rightarrow> a # flatten_ok rs | _ \<Rightarrow> flatten_ok rs)"

lemma st_bind_Ok_iff: "st_bind m k = (Ok b, s') \<longleftrightarrow> (\<exists>a s. m = (Ok a, s) \<and> k a s = (Ok b, s'))"
proof -
  obtain r s where "m = (r, s)" by fastforce
  then show ?thesis by (cases r) auto
qed

lemma res_bind_Ok_iff: "res_bind r f = Ok b \<longleftrightarrow> (\<exists>a. r = Ok a \<and> f a = Ok b)"
  by (cases r) auto

lemma res_bind_Err_iff: "res_bind r f = Err e \<longleftrightarrow> r = Err e \<or> (\<exists>a. r = Ok a \<and> f a = Err e)"
  by (cases r) auto

lemma res_bind_Panic_iff: "res_bind r f = Panic \<longleftrightarrow> r = Panic \<or> (\<exists>a. r = Ok a \<and> f a = Panic)"
  by (cases r) auto

lemma res_map_simps [simp, res_simps]:
  "res_map f (Ok a) = Ok (f a)" "res_map f (Err e) = Err e" "res_map f Panic = Panic"
  by (simp_all add: res_map_def)

lemma or_panic_iff [simp]:
  "or_panic x = Ok a \<longleftrightarrow> x = Some a" "or_panic x \<noteq> Err e" "or_panic x = Panic \<longleftrightarrow> x = None"
  by (cases x; auto)+

section \<open>Checked arithmetic\<close>

text \<open>A 64-bit target: \<open>usize\<close> is as wide as \<open>u64\<close>.\<close>

definition usize_max :: nat where
  "usize_max = 2 ^ 64 - 1"

definition u32_add :: "u32 \<Rightarrow> u32 \<Rightarrow> u32 option" where
  "u32_add a b = (if unat a + unat b < 2 ^ 32 then Some (a + b) else None)"

definition u32_sub :: "u32 \<Rightarrow> u32 \<Rightarrow> u32 option" where
  "u32_sub a b = (if unat b \<le> unat a then Some (a - b) else None)"

definition usize_add :: "usize \<Rightarrow> usize \<Rightarrow> usize option" where
  "usize_add a b = (if a + b \<le> usize_max then Some (a + b) else None)"

definition usize_sub :: "usize \<Rightarrow> usize \<Rightarrow> usize option" where
  "usize_sub a b = (if b \<le> a then Some (a - b) else None)"

definition usize_mul :: "usize \<Rightarrow> usize \<Rightarrow> usize option" where
  "usize_mul a b = (if a * b \<le> usize_max then Some (a * b) else None)"

text \<open>The \<open>as\<close> casts between widths: truncation, never a failure.\<close>

definition as_u32 :: "usize \<Rightarrow> u32" where
  "as_u32 n = word_of_nat n"

definition i64_as_usize :: "i64 \<Rightarrow> usize" where
  "i64_as_usize i = unat i"

lemma u32_add_Some: "u32_add a b = Some c \<longleftrightarrow> unat a + unat b < 2 ^ 32 \<and> c = a + b"
  by (auto simp: u32_add_def)

lemma u32_add_unat: "u32_add a b = Some c \<Longrightarrow> unat c = unat a + unat b"
  by (auto simp: u32_add_Some unat_word_ariths)

lemma unat_as_u32 [simp]: "unat (as_u32 n) = n mod 2 ^ 32"
  by (simp add: as_u32_def unat_of_nat)

lemma unat_as_u32_small: "n < 2 ^ 32 \<Longrightarrow> unat (as_u32 n) = n"
  by simp

lemma as_u32_eq_iff: "m < 2 ^ 32 \<Longrightarrow> n < 2 ^ 32 \<Longrightarrow> as_u32 m = as_u32 n \<longleftrightarrow> m = n"
  by (metis unat_as_u32_small)

lemma as_u32_unat [simp]: "as_u32 (unat w) = w"
  by (simp add: as_u32_def)

lemma as_u32_simps [simp]:
  "as_u32 0 = 0" "as_u32 1 = 1" "as_u32 (Suc 0) = 1" "as_u32 (numeral k) = numeral k"
  by (simp_all add: as_u32_def)

lemma as_u32_Suc: "as_u32 (Suc n) = 1 + as_u32 n"
  by (simp add: as_u32_def)

lemma as_u32_add: "as_u32 (m + n) = as_u32 m + as_u32 n"
  by (simp add: as_u32_def)

lemma usize_add_Some: "usize_add a b = Some c \<longleftrightarrow> c = a + b \<and> a + b \<le> usize_max"
  by (auto simp: usize_add_def)

lemma usize_sub_Some: "usize_sub a b = Some c \<longleftrightarrow> c = a - b \<and> b \<le> a"
  by (auto simp: usize_sub_def)

lemma usize_mul_Some: "usize_mul a b = Some c \<longleftrightarrow> c = a * b \<and> a * b \<le> usize_max"
  by (auto simp: usize_mul_def)

lemmas checked_Some = u32_add_Some usize_add_Some usize_sub_Some usize_mul_Some
declare checked_Some [arith_checked]

lemma unat_u32_lt: "unat (w :: u32) < 4294967296"
  by (rule order_less_le_trans [OF unsigned_less]) simp

lemma unat_u8_lt: "unat (w :: u8) < 256"
  by (rule order_less_le_trans [OF unsigned_less]) simp

section \<open>Big-endian byte strings\<close>

text \<open>The network byte order of an unsigned 32-bit and 64-bit integer.\<close>

definition be32 :: "u32 \<Rightarrow> bytes" where
  "be32 w = [ucast (drop_bit 24 w), ucast (drop_bit 16 w), ucast (drop_bit 8 w), ucast w]"

definition be64 :: "u64 \<Rightarrow> bytes" where
  "be64 w = be32 (ucast (drop_bit 32 w)) @ be32 (ucast w)"

fun of_be32 :: "bytes \<Rightarrow> u32" where
  "of_be32 [a, b, c, d] =
     push_bit 24 (ucast a) OR push_bit 16 (ucast b) OR push_bit 8 (ucast c) OR ucast d"
| "of_be32 _ = 0"

lemma length_be32 [simp]: "length (be32 w) = 4"
  by (simp add: be32_def)

lemma length_be64 [simp]: "length (be64 w) = 8"
  by (simp add: be64_def)

lemma of_be32_be32 [simp]: "of_be32 (be32 w) = w"
proof -
  have "bit (of_be32 (be32 w)) n = bit w n" if "n < 32" for n
    using that
    by (cases "n < 8"; cases "n < 16"; cases "n < 24") (auto simp: be32_def bit_simps)
  then show ?thesis
    by (intro bit_word_eqI) simp
qed

lemma be32_of_be32 [simp]:
  assumes "length b = 4"
  shows "be32 (of_be32 b) = b"
proof -
  obtain x y z w where b: "b = [x, y, z, w]"
    using assms by (auto simp: length_Suc_conv numeral_eq_Suc)
  have "ucast (drop_bit 24 (of_be32 b)) = x" "ucast (drop_bit 16 (of_be32 b)) = y"
    "ucast (drop_bit 8 (of_be32 b)) = z" "ucast (of_be32 b) = w"
    by (rule bit_word_eqI; auto simp: b bit_simps dest: bit_imp_le_length)+
  then show ?thesis by (simp add: be32_def b)
qed

lemma be32_inject [simp]: "be32 v = be32 w \<longleftrightarrow> v = w"
  by (metis of_be32_be32)

section \<open>Lists\<close>

lemma take_append_length [simp]: "n = length xs \<Longrightarrow> take n (xs @ ys) = xs"
  by simp

lemma drop_append_length [simp]: "n = length xs \<Longrightarrow> drop n (xs @ ys) = ys"
  by simp

text \<open>A slice assignment \<open>v[at .. at + len].copy_from(b)\<close> on a buffer that is long enough.\<close>

definition overwrite :: "'a list \<Rightarrow> nat \<Rightarrow> 'a list \<Rightarrow> 'a list" where
  "overwrite xs i b = take i xs @ b @ drop (i + length b) xs"

lemma length_overwrite [simp]: "i + length b \<le> length xs \<Longrightarrow> length (overwrite xs i b) = length xs"
  by (simp add: overwrite_def)

lemma nth_overwrite:
  assumes "i + length b \<le> length xs" and "j < length xs"
  shows "overwrite xs i b ! j = (if i \<le> j \<and> j < i + length b then b ! (j - i) else xs ! j)"
  using assms by (auto simp: overwrite_def nth_append min_def)

lemma overwrite_Nil [simp]: "overwrite xs i [] = xs"
  by (simp add: overwrite_def)

text \<open>A window of a buffer, and a store inside it.\<close>

lemma overwrite_window:
  assumes "a + n \<le> length xs" "i + length b \<le> n"
  shows "take n (drop a (overwrite xs (a + i) b)) = overwrite (take n (drop a xs)) i b"
  using assms by (intro nth_equalityI) (auto simp: nth_overwrite)

lemma slice_overwrite_same:
  assumes "i + length b \<le> length xs"
  shows "take (length b) (drop i (overwrite xs i b)) = b"
  using assms by (simp add: overwrite_def)

lemma slice_overwrite_other:
  assumes fit: "i + length b \<le> length xs"
    and sep: "j + n \<le> i \<or> i + length b \<le> j"
  shows "take n (drop j (overwrite xs i b)) = take n (drop j xs)"
  using sep
proof
  assume "j + n \<le> i"
  then show ?thesis
    using fit by (simp add: overwrite_def drop_take)
next
  assume "i + length b \<le> j"
  then show ?thesis
    using fit by (simp add: overwrite_def)
qed

end
