(* ===== verification/Bytes_Api.thy ===== *)
theory Bytes_Api
  imports Prelude
begin

text \<open>
  The parts of the crate \<open>bytes\<close> (version 1, not under \<open>src/\<close>) that the sources call: the
  reading half is \<open>Buf\<close> on a byte slice, the writing half \<open>BufMut\<close> on a growing buffer. The
  crate is a parameter of the model: a record of operations that every definition using the
  crate takes as its first argument. What the sources rely on is the locale \<open>bytes_laws\<close>,
  which states the documented behaviour of those calls; a reading call that succeeds also
  returns what is left of the buffer.
\<close>

text \<open>The crate's public error, built and matched by \<open>protocol.rs\<close> and \<open>net.rs\<close>.\<close>

datatype try_get_error = TryGetError (requested: usize) (available: usize)

record bytes_api =
  put_u8 :: "bytes \<Rightarrow> u8 \<Rightarrow> bytes"
  put_u32 :: "bytes \<Rightarrow> u32 \<Rightarrow> bytes"
  put_u64 :: "bytes \<Rightarrow> u64 \<Rightarrow> bytes"
  put_slice :: "bytes \<Rightarrow> bytes \<Rightarrow> bytes"
  remaining :: "bytes \<Rightarrow> usize"
  try_get_u8 :: "bytes \<Rightarrow> (try_get_error, u8 \<times> bytes) res"
  try_get_u32 :: "bytes \<Rightarrow> (try_get_error, u32 \<times> bytes) res"
  try_copy_to_slice :: "bytes \<Rightarrow> usize \<Rightarrow> (try_get_error, bytes \<times> bytes) res"
  advance :: "bytes \<Rightarrow> usize \<Rightarrow> bytes option"  \<comment> \<open>\<open>None\<close>: the call panics\<close>

locale bytes_laws =
  fixes A :: bytes_api
  assumes put_u8 [codec_simps]: "put_u8 A b x = b @ [x]"
    and put_u32 [codec_simps]: "put_u32 A b w = b @ be32 w"
    and put_u64 [codec_simps]: "put_u64 A b d = b @ be64 d"
    and put_slice [codec_simps]: "put_slice A b s = b @ s"
    and remaining [codec_simps]: "remaining A b = length b"
    and try_get_u8 [codec_simps]:
      "try_get_u8 A b = (case b of [] \<Rightarrow> Err (TryGetError 1 0) | x # r \<Rightarrow> Ok (x, r))"
    and try_get_u32 [codec_simps]:
      "try_get_u32 A b =
         (if length b < 4 then Err (TryGetError 4 (length b)) else Ok (of_be32 (take 4 b), drop 4 b))"
    and try_copy_to_slice [codec_simps]:
      "try_copy_to_slice A b n =
         (if length b < n then Err (TryGetError n (length b)) else Ok (take n b, drop n b))"
    and advance [codec_simps]: "advance A b n = (if n \<le> length b then Some (drop n b) else None)"
begin

text \<open>Reading back what was written, with anything behind it.\<close>

lemma try_get_u32_be32 [codec_simps]: "try_get_u32 A (be32 w @ r) = Ok (w, r)"
  by (simp add: try_get_u32)

lemma try_get_u8_Cons [codec_simps]: "try_get_u8 A (x # r) = Ok (x, r)"
  by (simp add: try_get_u8)

lemma try_copy_to_slice_append [codec_simps]:
  "n = length s \<Longrightarrow> try_copy_to_slice A (s @ r) n = Ok (s, r)"
  by (simp add: try_copy_to_slice)

lemma try_get_u32_short [codec_simps]: "length b < 4 \<Longrightarrow> try_get_u32 A b = Err (TryGetError 4 (length b))"
  by (simp add: try_get_u32)

text \<open>Exactly when a reading call succeeds, and that none of them panics.\<close>

lemma try_get_u8_Ok_iff: "try_get_u8 A b = Ok (x, r) \<longleftrightarrow> b = x # r"
  by (auto simp: try_get_u8 split: list.splits)

lemma try_get_u32_Ok_iff: "try_get_u32 A b = Ok (w, r) \<longleftrightarrow> b = be32 w @ r"
proof
  assume "try_get_u32 A b = Ok (w, r)"
  then have "4 \<le> length b" "w = of_be32 (take 4 b)" "r = drop 4 b"
    by (auto simp: try_get_u32 split: if_splits)
  then show "b = be32 w @ r" by simp
qed (simp add: try_get_u32_be32)

lemma try_copy_to_slice_Ok_iff: "try_copy_to_slice A b n = Ok (s, r) \<longleftrightarrow> b = s @ r \<and> length s = n"
  by (auto simp: try_copy_to_slice split: if_splits)

lemma advance_Some_iff: "advance A b n = Some r \<longleftrightarrow> n \<le> length b \<and> r = drop n b"
  by (auto simp: advance)

lemma advance_None_iff: "advance A b n = None \<longleftrightarrow> length b < n"
  by (auto simp: advance)

lemma try_get_no_panic [simp]:
  "try_get_u8 A b \<noteq> Panic" "try_get_u32 A b \<noteq> Panic" "try_copy_to_slice A b n \<noteq> Panic"
  by (auto simp: try_get_u8 try_get_u32 try_copy_to_slice split: list.splits)

lemmas try_get_Ok_iffs = try_get_u8_Ok_iff try_get_u32_Ok_iff try_copy_to_slice_Ok_iff

end

text \<open>
  The byte-list implementation of the interface, on which witnesses evaluate: \<open>BufMut\<close> for
  \<open>Vec<u8>\<close> and \<open>Buf\<close> for \<open>&[u8]\<close>.
\<close>

definition list_bytes :: bytes_api where
  "list_bytes = \<lparr>
     put_u8 = (\<lambda>b x. b @ [x]),
     put_u32 = (\<lambda>b w. b @ be32 w),
     put_u64 = (\<lambda>b d. b @ be64 d),
     put_slice = (\<lambda>b s. b @ s),
     remaining = length,
     try_get_u8 = (\<lambda>b. case b of [] \<Rightarrow> Err (TryGetError 1 0) | x # r \<Rightarrow> Ok (x, r)),
     try_get_u32 = (\<lambda>b. if length b < 4 then Err (TryGetError 4 (length b))
                        else Ok (of_be32 (take 4 b), drop 4 b)),
     try_copy_to_slice = (\<lambda>b n. if length b < n then Err (TryGetError n (length b))
                                else Ok (take n b, drop n b)),
     advance = (\<lambda>b n. if n \<le> length b then Some (drop n b) else None) \<rparr>"

interpretation list_bytes: bytes_laws list_bytes
  by unfold_locales (simp_all add: list_bytes_def)

text \<open>Evaluation of the crate's operations on concrete buffers.\<close>

lemmas list_bytes_eval =
  list_bytes.put_u8 list_bytes.put_u32 list_bytes.put_u64 list_bytes.put_slice list_bytes.remaining
  list_bytes.try_get_u8 list_bytes.try_get_u32 list_bytes.try_copy_to_slice list_bytes.advance

end
