(* ===== verification/Bitfield.thy ===== *)
theory Bitfield
  imports Bytes_Api
begin

text \<open>
  \<open>src/peer/bitfield.rs\<close>: the packed bit set of the \<open>BitField\<close> message, most significant bit
  first. The writer appends a zero byte whenever it starts a new one, and sets bits in the
  last byte; the reader and its iterator yield bits until the bytes run out. The
  specification is \<open>bf_bit\<close>, the value of bit \<open>n\<close> of a byte string.
\<close>

section \<open>Definitions\<close>

definition MASK :: u8 where
  "MASK = 128"

definition checked_shr :: "u8 \<Rightarrow> nat \<Rightarrow> u8 option" where
  "checked_shr b n = (if n < 8 then Some (drop_bit n b) else None)"

definition get_bit :: "bytes \<Rightarrow> usize \<Rightarrow> bool option" where
  "get_bit bs bit_num =
     (let byte_pos = bit_num div 8 in
      if byte_pos < length bs then
        (let byte = bs ! byte_pos; bit_pos = unat (as_u32 bit_num) mod 8 in
         case checked_shr MASK bit_pos of
           Some msk \<Rightarrow> (let v = msk AND byte in if v \<noteq> 0 then Some True else Some False)
         | None \<Rightarrow> None)
      else None)"

text \<open>The iterator: the bytes and a position; each \<open>next\<close> moves on, also after the end.\<close>

record bitfield_iter =
  bi_reader :: bytes
  bi_pos :: usize

definition iter_from :: "bytes \<Rightarrow> bitfield_iter" where
  "iter_from bs = \<lparr>bi_reader = bs, bi_pos = 0\<rparr>"

definition iter_next :: "bitfield_iter \<Rightarrow> bool option \<times> bitfield_iter" where
  "iter_next it = (get_bit (bi_reader it) (bi_pos it), it\<lparr>bi_pos := bi_pos it + 1\<rparr>)"

text \<open>Draining the iterator up to its first \<open>None\<close>, as \<open>collect\<close> and \<open>enumerate\<close> do.\<close>

function iter_drain :: "bitfield_iter \<Rightarrow> bool list" where
  "iter_drain it = (case iter_next it of (None, _) \<Rightarrow> [] | (Some b, it') \<Rightarrow> b # iter_drain it')"
  by pat_completeness auto

text \<open>The writer. \<open>None\<close> is a panic: an empty buffer where a byte is expected, or too many bits.\<close>

record bitfield_writer =
  bw_bytes :: bytes
  bw_bits_written :: u32

definition writer_new :: "bytes \<Rightarrow> bitfield_writer" where
  "writer_new bs = \<lparr>bw_bytes = bs, bw_bits_written = 0\<rparr>"

definition put_bit :: "bytes_api \<Rightarrow> bitfield_writer \<Rightarrow> bool \<Rightarrow> bitfield_writer option" where
  "put_bit A w b =
     (let bit_pos = unat (bw_bits_written w) mod 8;
          bs = (if bit_pos = 0 then put_u8 A (bw_bytes w) 0 else bw_bytes w) in
      Option.bind (usize_sub (length bs) 1) (\<lambda>last_byte_pos.
      let bs = (if b then bs[last_byte_pos := (bs ! last_byte_pos) OR drop_bit bit_pos MASK] else bs) in
      map_option (\<lambda>n. w\<lparr>bw_bytes := bs, bw_bits_written := n\<rparr>) (u32_add (bw_bits_written w) 1)))"

fun put_bits :: "bytes_api \<Rightarrow> bitfield_writer \<Rightarrow> bool list \<Rightarrow> bitfield_writer option" where
  "put_bits A w [] = Some w"
| "put_bits A w (b # bits) = Option.bind (put_bit A w b) (\<lambda>w'. put_bits A w' bits)"

definition put_bit_set :: "bytes_api \<Rightarrow> bitfield_writer \<Rightarrow> u32 set \<Rightarrow> usize \<Rightarrow> bitfield_writer option" where
  "put_bit_set A w bits len =
     put_bits A w (map (\<lambda>i. as_u32 i \<in> bits) [0..<unat (as_u32 len)])"

section \<open>The reader\<close>

definition bf_bit :: "bytes \<Rightarrow> nat \<Rightarrow> bool" where
  "bf_bit bs n \<longleftrightarrow> n < 8 * length bs \<and> bit (bs ! (n div 8)) (7 - n mod 8)"

lemma bit_MASK_shift: "n < 8 \<Longrightarrow> bit (drop_bit n MASK) k \<longleftrightarrow> k = 7 - n"
proof -
  assume n: "n < 8"
  have "bit MASK j \<longleftrightarrow> j = 7" for j
  proof -
    have "MASK = push_bit 7 1" by (simp add: MASK_def)
    then have "bit MASK j = bit (push_bit 7 (1 :: u8)) j" by (rule arg_cong)
    then show ?thesis unfolding bit_push_bit_iff bit_1_iff by auto
  qed
  then have "bit (drop_bit n MASK) k \<longleftrightarrow> n + k = 7"
    by (simp only: bit_drop_bit_eq o_apply)
  with n show ?thesis by arith
qed

lemma mask_and: "n < 8 \<Longrightarrow> drop_bit n MASK AND (b :: u8) \<noteq> 0 \<longleftrightarrow> bit b (7 - n)"
  by (subst bit_eq_iff) (auto simp: bit_and_iff bit_MASK_shift)

lemma get_bit_eq: "get_bit bs n = (if n < 8 * length bs then Some (bf_bit bs n) else None)"
proof -
  have "n mod 2 ^ 32 mod 8 = n mod 8"
    by (simp add: mod_mod_cancel)
  then have "unat (as_u32 n) mod 8 = n mod 8"
    by simp
  then show ?thesis
    by (auto simp: get_bit_def checked_shr_def mask_and bf_bit_def div_less_iff_less_mult Let_def less_mult_imp_div_less)
qed

termination iter_drain
  by (relation "measure (\<lambda>it. 8 * length (bi_reader it) - bi_pos it)")
    (auto simp: iter_next_def get_bit_eq split: if_splits)

declare iter_drain.simps [simp del]

lemma iter_drain_eq: "iter_drain \<lparr>bi_reader = bs, bi_pos = n\<rparr> = map (bf_bit bs) [n..<8 * length bs]"
proof (induction "8 * length bs - n" arbitrary: n)
  case 0
  then show ?case
    by (subst iter_drain.simps) (simp add: iter_next_def get_bit_eq)
next
  case (Suc k)
  then have "iter_drain \<lparr>bi_reader = bs, bi_pos = Suc n\<rparr> = map (bf_bit bs) [Suc n..<8 * length bs]"
    by simp
  with Suc(2) show ?case
    by (subst iter_drain.simps) (simp add: iter_next_def get_bit_eq upt_conv_Cons)
qed

section \<open>The writer\<close>

text \<open>The state after writing \<open>bits\<close> to an empty buffer.\<close>

definition writer_rel :: "bitfield_writer \<Rightarrow> bool list \<Rightarrow> bool" where
  "writer_rel w bits \<longleftrightarrow>
     unat (bw_bits_written w) = length bits \<and>
     length (bw_bytes w) = (length bits + 7) div 8 \<and>
     (\<forall>n. bf_bit (bw_bytes w) n \<longleftrightarrow> n < length bits \<and> bits ! n)"

lemma writer_rel_new [inv_intros]: "writer_rel (writer_new []) []"
  by (simp add: writer_rel_def writer_new_def bf_bit_def)

lemma bf_bit_snoc0: "bf_bit (bs @ [0]) = bf_bit bs"
  by (rule ext) (auto simp: bf_bit_def nth_append div_less_iff_less_mult)

lemma bf_bit_set:
  assumes "length bs = Suc p" and "k < 8"
  shows "bf_bit (bs[p := (bs ! p) OR drop_bit k MASK]) n \<longleftrightarrow> bf_bit bs n \<or> n = 8 * p + k"
proof (cases "n div 8 = p")
  case True
  then obtain r where "n = 8 * p + r" "r < 8"
    by (metis mod_less_divisor mult_div_mod_eq zero_less_numeral)
  then show ?thesis
    using assms by (auto simp: bf_bit_def bit_or_iff bit_MASK_shift)
next
  case False
  then show ?thesis
    using assms by (auto simp: bf_bit_def)
qed

lemma bytes_of_bits: "(n + 7) div 8 = (if n mod 8 = 0 then n div 8 else Suc (n div 8))" for n :: nat
  by presburger

lemma put_bit_rel [inv_intros]:
  assumes laws: "bytes_laws A" and rel: "writer_rel w bits" and room: "length bits < 2 ^ 32 - 1"
  shows "\<exists>w'. put_bit A w b = Some w' \<and> writer_rel w' (bits @ [b])"
proof -
  let ?k = "length bits mod 8"
  define bs where "bs = (if ?k = 0 then bw_bytes w @ [0] else bw_bytes w)"
  let ?p = "length bits div 8"
  have len: "length bs = Suc ?p"
    using rel by (simp add: bs_def writer_rel_def bytes_of_bits)
  have old: "bf_bit bs n \<longleftrightarrow> n < length bits \<and> bits ! n" for n
    using rel by (simp add: bs_def bf_bit_snoc0 writer_rel_def)
  define bs' where "bs' = (if b then bs[?p := (bs ! ?p) OR drop_bit ?k MASK] else bs)"
  have cnt: "unat (bw_bits_written w) = length bits"
    using rel by (simp add: writer_rel_def)
  have "(if ?k = 0 then put_u8 A (bw_bytes w) 0 else bw_bytes w) = bs"
    by (simp add: bs_def bytes_laws.put_u8 [OF laws])
  then have "put_bit A w b = Some (w\<lparr>bw_bytes := bs', bw_bits_written := bw_bits_written w + 1\<rparr>)"
    using room by (simp add: put_bit_def Let_def cnt len bs'_def usize_sub_def u32_add_def)
  moreover have "unat (bw_bits_written w + 1) = Suc (length bits)"
    using room by (simp add: cnt unat_word_ariths)
  moreover have new: "bf_bit bs' n \<longleftrightarrow> bf_bit bs n \<or> b \<and> n = length bits" for n
    using bf_bit_set [OF len, of ?k n] by (simp add: bs'_def)
  have "bf_bit bs' n \<longleftrightarrow> n < Suc (length bits) \<and> (bits @ [b]) ! n" for n
    unfolding new old by (auto simp: nth_append)
  moreover have "length bs' = (length (bits @ [b]) + 7) div 8"
    by (simp add: bs'_def len)
  ultimately show ?thesis
    by (simp add: writer_rel_def)
qed

lemma put_bits_rel:
  "bytes_laws A \<Longrightarrow> writer_rel w pre \<Longrightarrow> length pre + length bits < 2 ^ 32 \<Longrightarrow>
    \<exists>w'. put_bits A w bits = Some w' \<and> writer_rel w' (pre @ bits)"
proof (induction bits arbitrary: w pre)
  case Nil
  then show ?case by simp
next
  case (Cons b bits)
  then obtain w' where "put_bit A w b = Some w'" "writer_rel w' (pre @ [b])"
    using put_bit_rel [of A w pre b] by auto
  with Cons.IH [of w' "pre @ [b]"] Cons.prems show ?case by simp
qed

lemma put_bit_set_rel:
  assumes "bytes_laws A" and "len < 2 ^ 32"
  shows "\<exists>w. put_bit_set A (writer_new []) S len = Some w \<and>
    writer_rel w (map (\<lambda>i. as_u32 i \<in> S) [0..<len])"
  using put_bits_rel [OF assms(1) writer_rel_new, of "map (\<lambda>i. as_u32 i \<in> S) [0..<len]"] assms(2)
  by (simp add: put_bit_set_def)

section \<open>Properties\<close>

text \<open>
  C40. A set of piece numbers written as a bitfield and read back by the iterator is the same
  set, bit by bit, followed by fewer than eight zero bits of padding.
\<close>

theorem bitfield_roundtrip:
  assumes "bytes_laws A" and "len < 2 ^ 32"
  shows "\<exists>w pad. put_bit_set A (writer_new []) S len = Some w \<and> pad < 8 \<and>
    iter_drain (iter_from (bw_bytes w)) = map (\<lambda>i. as_u32 i \<in> S) [0..<len] @ replicate pad False"
proof -
  let ?bits = "map (\<lambda>i. as_u32 i \<in> S) [0..<len]"
  obtain w where w: "put_bit_set A (writer_new []) S len = Some w" "writer_rel w ?bits"
    using put_bit_set_rel [OF assms] by blast
  define pad where "pad = 8 * ((len + 7) div 8) - len"
  have "8 * length (bw_bytes w) = len + pad" "pad < 8"
    using w(2) by (auto simp: writer_rel_def pad_def)
  moreover have "map (bf_bit (bw_bytes w)) [0..<len + pad] = ?bits @ replicate pad False"
    using w(2) by (intro nth_equalityI) (auto simp: writer_rel_def nth_append)
  ultimately show ?thesis
    using w(1) by (auto simp: iter_from_def iter_drain_eq)
qed

lemma bitfield_roundtrip_witness:
  "\<exists>w pad. put_bit_set list_bytes (writer_new []) {1, 9} 10 = Some w \<and> pad < 8 \<and>
    iter_drain (iter_from (bw_bytes w)) = map (\<lambda>i. as_u32 i \<in> {1, 9}) [0..<10] @ replicate pad False"
  by (rule bitfield_roundtrip [OF list_bytes.bytes_laws_axioms]) simp

end
