(* ===== verification/Ordered_Map.thy ===== *)
theory Ordered_Map
  imports Prelude
begin

text \<open>
  The standard library's \<open>BTreeMap\<close>: an association list with strictly ascending keys,
  which is also the order its iterators yield. A \<open>HashMap\<close> is represented the same way
  where the code counts or collects its entries, because everything the code computes from
  such an iteration is independent of the order.

  The locale \<open>ordered_map\<close> is the interface the components use (lookup after insert and
  remove, and the key order); the interpretation at the end discharges it for the list
  representation.
\<close>

type_synonym ('k, 'v) btree = "('k \<times> 'v) list"

definition bt_empty :: "('k, 'v) btree" where
  "bt_empty = []"

fun bt_insert :: "'k::linorder \<Rightarrow> 'v \<Rightarrow> ('k, 'v) btree \<Rightarrow> ('k, 'v) btree" where
  "bt_insert k v [] = [(k, v)]"
| "bt_insert k v ((k', v') # m) =
     (if k < k' then (k, v) # (k', v') # m
      else if k = k' then (k, v) # m
      else (k', v') # bt_insert k v m)"

fun bt_get :: "('k, 'v) btree \<Rightarrow> 'k \<Rightarrow> 'v option" where
  "bt_get [] k = None"
| "bt_get ((k', v') # m) k = (if k = k' then Some v' else bt_get m k)"

fun bt_remove :: "'k \<Rightarrow> ('k, 'v) btree \<Rightarrow> ('k, 'v) btree" where
  "bt_remove k [] = []"
| "bt_remove k ((k', v') # m) = (if k = k' then m else (k', v') # bt_remove k m)"

definition bt_keys :: "('k, 'v) btree \<Rightarrow> 'k list" where
  "bt_keys m = map fst m"

definition bt_wf :: "('k::linorder, 'v) btree \<Rightarrow> bool" where
  "bt_wf m \<longleftrightarrow> sorted_wrt (<) (bt_keys m)"

text \<open>\<open>collect::<BTreeMap<_, _>>()\<close>: insert the pairs from left to right.\<close>

definition bt_collect :: "('k::linorder \<times> 'v) list \<Rightarrow> ('k, 'v) btree" where
  "bt_collect kvs = fold (\<lambda>(k, v) m. bt_insert k v m) kvs bt_empty"

section \<open>The interface\<close>

locale ordered_map =
  fixes emp :: "'m"
    and ins :: "'k::linorder \<Rightarrow> 'v \<Rightarrow> 'm \<Rightarrow> 'm"
    and del :: "'k \<Rightarrow> 'm \<Rightarrow> 'm"
    and get :: "'m \<Rightarrow> 'k \<Rightarrow> 'v option"
    and keys :: "'m \<Rightarrow> 'k list"
    and wf :: "'m \<Rightarrow> bool"
  assumes get_emp: "get emp k = None"
    and wf_emp: "wf emp"
    and get_ins: "wf m \<Longrightarrow> get (ins k v m) k' = (if k' = k then Some v else get m k')"
    and wf_ins: "wf m \<Longrightarrow> wf (ins k v m)"
    and get_del: "wf m \<Longrightarrow> get (del k m) k' = (if k' = k then None else get m k')"
    and wf_del: "wf m \<Longrightarrow> wf (del k m)"
    and keys_sorted: "wf m \<Longrightarrow> sorted_wrt (<) (keys m)"
    and keys_get: "wf m \<Longrightarrow> set (keys m) = {k. get m k \<noteq> None}"
begin

definition collect :: "('k \<times> 'v) list \<Rightarrow> 'm" where
  "collect kvs = fold (\<lambda>(k, v) m. ins k v m) kvs emp"

lemma fold_ins:
  "wf m \<Longrightarrow> wf (fold (\<lambda>(k, v) m. ins k v m) kvs m) \<and>
     get (fold (\<lambda>(k, v) m. ins k v m) kvs m) = get m ++ map_of (rev kvs)"
proof (induction kvs arbitrary: m)
  case Nil
  then show ?case by simp
next
  case (Cons kv kvs)
  obtain k v where kv: "kv = (k, v)" by fastforce
  have "get (ins k v m) = get m ++ [k \<mapsto> v]"
    using Cons.prems by (auto simp: get_ins)
  then show ?case
    using Cons.IH [of "ins k v m"] Cons.prems kv by (simp add: wf_ins del: map_add_upd)
qed

lemma wf_collect: "wf (collect kvs)"
  using fold_ins [OF wf_emp] by (simp add: collect_def)

text \<open>Of several entries with one key, the last one stays.\<close>

lemma get_collect: "get (collect kvs) k = map_of (rev kvs) k"
  using fold_ins [OF wf_emp, of kvs] by (simp add: collect_def get_emp map_add_def split: option.splits)

lemma distinct_keys: "wf m \<Longrightarrow> distinct (keys m)"
  using keys_sorted by (simp add: strict_sorted_iff)

lemma length_keys: "wf m \<Longrightarrow> length (keys m) = card {k. get m k \<noteq> None}"
  by (metis distinct_card distinct_keys keys_get)

end

section \<open>The list representation provides it\<close>

lemma bt_keys_simps [simp]: "bt_keys [] = []" "bt_keys ((k, v) # m) = k # bt_keys m"
  by (simp_all add: bt_keys_def)

lemma bt_wf_simps [simp]:
  "bt_wf []" "bt_wf ((k, v) # m) \<longleftrightarrow> (\<forall>k' \<in> set (bt_keys m). k < k') \<and> bt_wf m"
  by (simp_all add: bt_wf_def)

lemma bt_get_map_of: "bt_get m = map_of m"
proof
  show "bt_get m k = map_of m k" for k
    by (induction m) auto
qed

lemma bt_get_None_iff: "bt_get m k = None \<longleftrightarrow> k \<notin> set (bt_keys m)"
  by (simp add: bt_get_map_of bt_keys_def map_of_eq_None_iff)

lemma bt_get_Some_key: "bt_get m k = Some v \<Longrightarrow> k \<in> set (bt_keys m)"
  using bt_get_None_iff [of m k] by simp

lemma bt_get_in_set: "bt_get m k = Some v \<Longrightarrow> (k, v) \<in> set m"
  by (simp add: bt_get_map_of map_of_SomeD)

lemma bt_wf_distinct: "bt_wf m \<Longrightarrow> distinct (bt_keys m)"
  by (simp add: bt_wf_def strict_sorted_iff)

lemma bt_get_eq_iff: "bt_wf m \<Longrightarrow> bt_get m k = Some v \<longleftrightarrow> (k, v) \<in> set m"
  using bt_wf_distinct [of m] by (simp add: bt_get_map_of bt_keys_def)

lemma bt_get_insert [simp]: "bt_get (bt_insert k v m) k' = (if k' = k then Some v else bt_get m k')"
  by (induction m rule: bt_insert.induct [of _ k v]) auto

lemma set_bt_keys_insert [simp]: "set (bt_keys (bt_insert k v m)) = insert k (set (bt_keys m))"
  by (induction m rule: bt_insert.induct [of _ k v]) auto

lemma bt_wf_insert [simp, inv_intros]: "bt_wf m \<Longrightarrow> bt_wf (bt_insert k v m)"
  by (induction k v m rule: bt_insert.induct) auto

lemma set_bt_keys_remove_sub: "set (bt_keys (bt_remove k m)) \<subseteq> set (bt_keys m)"
  by (induction m rule: bt_remove.induct [of _ k]) auto

lemma bt_wf_remove [simp, inv_intros]: "bt_wf m \<Longrightarrow> bt_wf (bt_remove k m)"
  by (induction k m rule: bt_remove.induct) (use set_bt_keys_remove_sub in fastforce)+

lemma bt_get_remove [simp]:
  "bt_wf m \<Longrightarrow> bt_get (bt_remove k m) k' = (if k' = k then None else bt_get m k')"
  by (induction k m rule: bt_remove.induct) (auto simp: bt_get_None_iff)

interpretation bt: ordered_map bt_empty bt_insert bt_remove bt_get bt_keys bt_wf
proof unfold_locales
  show "bt_wf m \<Longrightarrow> sorted_wrt (<) (bt_keys m)" for m :: "('a, 'b) btree"
    by (simp add: bt_wf_def)
  show "bt_wf m \<Longrightarrow> set (bt_keys m) = {k. bt_get m k \<noteq> None}" for m :: "('a, 'b) btree"
    by (auto simp: bt_get_None_iff)
qed (simp_all add: bt_empty_def)

lemma bt_collect_eq: "bt_collect = bt.collect"
  by (simp add: fun_eq_iff bt_collect_def bt.collect_def)

lemma bt_wf_collect [simp]: "bt_wf (bt_collect kvs)"
  by (simp add: bt_collect_eq bt.wf_collect)

lemma bt_get_collect: "bt_get (bt_collect kvs) k = map_of (rev kvs) k"
  by (simp add: bt_collect_eq bt.get_collect)

section \<open>Sizes and normal forms\<close>

lemma bt_remove_not_in: "k \<notin> set (bt_keys m) \<Longrightarrow> bt_remove k m = m"
  by (induction k m rule: bt_remove.induct) auto

lemma length_bt_insert:
  "bt_wf m \<Longrightarrow> length (bt_insert k v m) = (if bt_get m k = None then Suc (length m) else length m)"
proof (induction k v m rule: bt_insert.induct)
  case (2 k v k' v' m)
  then show ?case
    by (auto simp: bt_get_None_iff split: option.splits)
qed simp

lemma length_bt_remove:
  "length (bt_remove k m) = (if bt_get m k = None then length m else length m - 1)"
proof (induction k m rule: bt_remove.induct)
  case (2 k k' v' m)
  then show ?case
    by (cases m) (auto)
qed simp

text \<open>A strictly ascending list is its own \<open>collect\<close>: inserting in order only appends.\<close>

lemma bt_insert_last: "\<forall>k' \<in> set (bt_keys m). k' < k \<Longrightarrow> bt_insert k v m = m @ [(k, v)]"
  by (induction k v m rule: bt_insert.induct) auto

lemma fold_bt_insert_sorted:
  "bt_wf (m @ kvs) \<Longrightarrow> fold (\<lambda>(k, v) m. bt_insert k v m) kvs m = m @ kvs"
proof (induction kvs arbitrary: m)
  case Nil
  then show ?case by simp
next
  case (Cons kv kvs)
  obtain k v where kv: "kv = (k, v)" by fastforce
  have "\<forall>k' \<in> set (bt_keys m). k' < k"
    using Cons.prems kv by (auto simp: bt_wf_def bt_keys_def sorted_wrt_append)
  then have "bt_insert k v m = m @ [(k, v)]" by (rule bt_insert_last)
  then show ?case
    using Cons.IH [of "m @ [(k, v)]"] Cons.prems kv by simp
qed

lemma bt_collect_id: "bt_wf m \<Longrightarrow> bt_collect m = m"
  using fold_bt_insert_sorted [of "[]" m] by (simp add: bt_collect_def bt_empty_def)

text \<open>Summing a measure over the values, as \<open>values().map(len).sum()\<close> does.\<close>

definition bt_sum :: "('v \<Rightarrow> nat) \<Rightarrow> ('k, 'v) btree \<Rightarrow> nat" where
  "bt_sum f m = sum_list (map (f \<circ> snd) m)"

lemma bt_sum_simps [simp]: "bt_sum f [] = 0" "bt_sum f ((k, v) # m) = f v + bt_sum f m"
  by (simp_all add: bt_sum_def)

lemma bt_sum_insert:
  "bt_wf m \<Longrightarrow> bt_sum f (bt_insert k v m) + (case bt_get m k of None \<Rightarrow> 0 | Some v' \<Rightarrow> f v') = bt_sum f m + f v"
proof (induction k v m rule: bt_insert.induct)
  case (2 k v k' v' m)
  then show ?case
    by (auto simp: bt_get_None_iff split: option.splits)
       (metis bt_get_None_iff option.simps(3) order_less_asym)
qed simp

lemma bt_sum_remove:
  "bt_wf m \<Longrightarrow> bt_sum f (bt_remove k m) + (case bt_get m k of None \<Rightarrow> 0 | Some v' \<Rightarrow> f v') = bt_sum f m"
  by (induction k m rule: bt_remove.induct) (auto split: option.splits)

lemma bt_sum_0_iff: "bt_sum f m = 0 \<longleftrightarrow> (\<forall>(k, v) \<in> set m. f v = 0)"
  by (induction m) auto

end
