(* ===== verification/Model_Types.thy ===== *)
theory Model_Types
  imports Prelude
begin

text \<open>
  The plain data of \<open>src/model/\<close>, \<open>src/config.rs\<close> and the errors of \<open>src/peer/error.rs\<close>.
  A \<open>String\<close> is the list of its UTF-8 bytes; an \<open>Arc<Vec<u8>>\<close> compares by its content, so a
  peer id is the byte string itself. Field names carry the struct's initials where two
  structs of the sources share a field name.
\<close>

definition ascii :: "string \<Rightarrow> bytes" where
  "ascii s = map of_char s"

type_synonym peer_id = bytes
type_synonym internal_peer_id = peer_id

record peer_context =
  pc_info_hash :: bytes
  pc_peer_id :: bytes

record peer_requested_piece =
  req_peer_id :: internal_peer_id
  req_index :: u32
  req_begin :: u32
  req_length :: u32

record v1_piece =
  piece_hash :: bytes

record v1_torrent_info =
  ti_length :: i64
  ti_piece_length :: i64
  ti_pieces :: "v1_piece list"
  ti_name :: bytes
  ti_info_hash :: bytes

record v1_torrent =
  t_info :: v1_torrent_info
  t_announce :: bytes
  t_announce_list :: "bytes list"

record config =
  use_file_writer :: bool
  max_conns :: usize
  peer_tx_size :: usize
  peer_rx_size :: usize
  file_handler_channel_size :: usize
  max_outstanding_requests :: usize

definition default_config :: config where
  "default_config = \<lparr>use_file_writer = True, max_conns = 4, peer_tx_size = 128, peer_rx_size = 128,
     file_handler_channel_size = 2, max_outstanding_requests = 128\<rparr>"

text \<open>\<open>src/peer/error.rs\<close>; \<open>IoError\<close> stands for an error of the file system calls.\<close>

datatype peer_error =
    BadBounds usize usize
  | BadPieceIdx usize
  | FileAlreadyComplete u32
  | FilePieceNotFinished u32
  | PieceHashMismatch u32 bytes bytes
  | NetworkTimeout
  | Other bytes
  | IoError nat

definition PIECE_BLOCK_SIZE :: usize where
  "PIECE_BLOCK_SIZE = 16384"

end
