(* ===== verification/Allocation.thy ===== *)
theory Allocation
  imports Model_Types
begin

text \<open>
  \<open>TorrentAllocation\<close> of \<open>src/peer/mod.rs\<close>: how a torrent's length divides into pieces. All
  arithmetic is on \<open>usize\<close>, so a piece count of zero, a product beyond 64 bits or a length
  smaller than the full pieces before the last one panics (\<open>None\<close>). A negative \<open>i64\<close> casts to
  a huge \<open>usize\<close>.
\<close>

record torrent_allocation =
  total_pieces :: usize
  max_piece_size :: usize
  last_piece_size :: usize

definition allocate_torrent :: "v1_torrent \<Rightarrow> torrent_allocation option" where
  "allocate_torrent torrent =
     (let total = length (ti_pieces (t_info torrent));
          max_size = i64_as_usize (ti_piece_length (t_info torrent)) in
      Option.bind (usize_sub total 1) (\<lambda>k.
      Option.bind (usize_mul k max_size) (\<lambda>before.
      Option.bind (usize_sub (i64_as_usize (ti_length (t_info torrent))) before) (\<lambda>last_size.
      Some \<lparr>total_pieces = total, max_piece_size = max_size, last_piece_size = last_size\<rparr>))))"

definition piece_len :: "torrent_allocation \<Rightarrow> usize \<Rightarrow> usize option" where
  "piece_len a piece_idx =
     map_option (\<lambda>k. if piece_idx = k then last_piece_size a else max_piece_size a)
       (usize_sub (total_pieces a) 1)"

text \<open>
  The torrents the arithmetic is meant for: at least one piece, and a length that needs
  exactly that many pieces.
\<close>

definition torrent_wf :: "v1_torrent \<Rightarrow> bool" where
  "torrent_wf torrent \<longleftrightarrow>
     (let n = length (ti_pieces (t_info torrent));
          s = i64_as_usize (ti_piece_length (t_info torrent));
          len = i64_as_usize (ti_length (t_info torrent)) in
      0 < n \<and> (n - 1) * s < len \<and> len \<le> n * s)"

lemma i64_as_usize_less: "i64_as_usize i < 2 ^ 64"
  unfolding i64_as_usize_def by (rule order_less_le_trans [OF unsigned_less]) simp

lemma allocate_torrent_Some_iff:
  "allocate_torrent torrent = Some a \<longleftrightarrow>
     (let n = length (ti_pieces (t_info torrent));
          s = i64_as_usize (ti_piece_length (t_info torrent));
          len = i64_as_usize (ti_length (t_info torrent)) in
      0 < n \<and> (n - 1) * s \<le> len \<and>
      a = \<lparr>total_pieces = n, max_piece_size = s, last_piece_size = len - (n - 1) * s\<rparr>)"
  using i64_as_usize_less [of "ti_length (t_info torrent)"]
  by (auto simp: allocate_torrent_def Let_def bind_eq_Some_conv usize_sub_Some usize_mul_Some usize_max_def Suc_le_eq)

lemma allocate_torrent_None_iff:
  "allocate_torrent torrent = None \<longleftrightarrow>
     ti_pieces (t_info torrent) = [] \<or>
     i64_as_usize (ti_length (t_info torrent)) <
       (length (ti_pieces (t_info torrent)) - 1) * i64_as_usize (ti_piece_length (t_info torrent))"
proof -
  have "allocate_torrent torrent = None \<longleftrightarrow> \<not> (\<exists>a. allocate_torrent torrent = Some a)"
    by simp
  then show ?thesis
    by (auto simp: allocate_torrent_Some_iff Let_def not_le)
qed

text \<open>What every allocation satisfies: there is a piece, and the pieces add up to the length.\<close>

definition allocation_ok :: "torrent_allocation \<Rightarrow> bool" where
  "allocation_ok a \<longleftrightarrow> 0 < total_pieces a"

lemma allocate_ok [inv_intros]: "allocate_torrent torrent = Some a \<Longrightarrow> allocation_ok a"
  by (auto simp: allocate_torrent_Some_iff Let_def allocation_ok_def)

lemma piece_len_eq:
  "allocation_ok a \<Longrightarrow>
     piece_len a i = Some (if i = total_pieces a - 1 then last_piece_size a else max_piece_size a)"
  by (simp add: piece_len_def allocation_ok_def usize_sub_def)

lemma sum_piece_len:
  assumes "allocation_ok a"
  shows "(\<Sum>i<total_pieces a. the (piece_len a i)) = (total_pieces a - 1) * max_piece_size a + last_piece_size a"
proof -
  obtain n where n: "total_pieces a = Suc n"
    using assms by (cases "total_pieces a") (auto simp: allocation_ok_def)
  then show ?thesis
    by (simp add: piece_len_eq [OF assms])
qed

lemma torrent_wf_allocate:
  assumes "torrent_wf torrent"
  obtains a where "allocate_torrent torrent = Some a" "0 < last_piece_size a"
    "last_piece_size a \<le> max_piece_size a" "0 < max_piece_size a"
proof -
  have "k * s < len \<Longrightarrow> len \<le> Suc k * s \<Longrightarrow> 0 < len - k * s \<and> len - k * s \<le> s \<and> 0 < s" for k s len :: nat
    by (auto intro: gr0I)
  then show ?thesis
    using assms that by (auto simp: torrent_wf_def Let_def allocate_torrent_Some_iff gr0_conv_Suc)
qed

section \<open>Properties\<close>

text \<open>
  The allocation of a torrent's length to its pieces: it exists unless the torrent has no
  piece or is shorter than its full pieces (then the code panics), and the lengths it gives
  the pieces add up to the torrent's length.
\<close>

theorem allocation_sums_up:
  "case allocate_torrent torrent of
     None \<Rightarrow> ti_pieces (t_info torrent) = [] \<or>
       i64_as_usize (ti_length (t_info torrent)) <
         (length (ti_pieces (t_info torrent)) - 1) * i64_as_usize (ti_piece_length (t_info torrent))
   | Some a \<Rightarrow> total_pieces a = length (ti_pieces (t_info torrent)) \<and>
       (\<Sum>i<total_pieces a. the (piece_len a i)) = i64_as_usize (ti_length (t_info torrent))"
proof (cases "allocate_torrent torrent")
  case None
  then show ?thesis using allocate_torrent_None_iff [of torrent] by simp
next
  case (Some a)
  then have "total_pieces a = length (ti_pieces (t_info torrent)) \<and>
      (total_pieces a - 1) * max_piece_size a + last_piece_size a = i64_as_usize (ti_length (t_info torrent))"
    by (auto simp: allocate_torrent_Some_iff Let_def)
  then show ?thesis
    using Some sum_piece_len [OF allocate_ok [OF Some]] by auto
qed

text \<open>A torrent of two pieces, of eight and of three bytes, for the witnesses.\<close>

definition small_torrent :: v1_torrent where
  "small_torrent = \<lparr>t_info = \<lparr>ti_length = 11, ti_piece_length = 8,
     ti_pieces = [\<lparr>piece_hash = [1]\<rparr>, \<lparr>piece_hash = [2]\<rparr>], ti_name = [], ti_info_hash = []\<rparr>,
     t_announce = [], t_announce_list = []\<rparr>"

lemma small_torrent_info:
  "t_info small_torrent = \<lparr>ti_length = 11, ti_piece_length = 8,
     ti_pieces = [\<lparr>piece_hash = [1]\<rparr>, \<lparr>piece_hash = [2]\<rparr>], ti_name = [], ti_info_hash = []\<rparr>"
  by (simp add: small_torrent_def)

lemma small_torrent_allocation:
  "allocate_torrent small_torrent = Some \<lparr>total_pieces = 2, max_piece_size = 8, last_piece_size = 3\<rparr>"
  by (simp add: small_torrent_def allocate_torrent_def i64_as_usize_def usize_sub_def usize_mul_def usize_max_def)

end
