(* ===== verification/Slices.thy ===== *)
theory Slices
  imports Model_Types
begin

text \<open>
  \<open>Slices\<close> of \<open>src/peer/io/mod.rs\<close>: which byte ranges of a piece have arrived, as a list of
  half-open intervals sorted by start. \<open>insert\<close> finds the place by binary search and merges
  with the neighbours; it returns whether one interval now covers the whole piece. The
  addition \<open>begin + len\<close> is on \<open>u32\<close>, so it can panic (\<open>None\<close>).

  The lemmas show: the code computes the two-sided reference \<open>ins_spec\<close>; the starts stay
  strictly sorted; no byte is ever recorded that was not inserted (so a complete piece is
  really complete); and when blocks do not overlap, exactly the inserted bytes are recorded.
\<close>

section \<open>Definitions\<close>

type_synonym slice = "u32 \<times> u32"

record slices =
  sl_slices :: "slice list"
  sl_expected_size :: usize

definition slices_new :: "usize \<Rightarrow> slices" where
  "slices_new expected_size = \<lparr>sl_slices = [], sl_expected_size = expected_size\<rparr>"

text \<open>
  \<open>binary_search_by_key\<close> on a list sorted by its first components: the index of the entry
  with that key, or where it would go. The list is kept strictly sorted (below), which makes
  the result the documented one.
\<close>

definition search_start :: "slice list \<Rightarrow> u32 \<Rightarrow> usize + usize" where
  "search_start xs key =
     (let n = length (takeWhile (\<lambda>s. fst s < key) xs) in
      if n < length xs \<and> fst (xs ! n) = key then Inl n else Inr n)"

definition insert_at :: "nat \<Rightarrow> 'a \<Rightarrow> 'a list \<Rightarrow> 'a list" where
  "insert_at i x xs = take i xs @ x # drop i xs"

definition remove_at :: "nat \<Rightarrow> 'a list \<Rightarrow> 'a list" where
  "remove_at i xs = take i xs @ drop (Suc i) xs"

text \<open>The two arms of the \<open>match\<close> on the search result.\<close>

definition grow_existing :: "slice list \<Rightarrow> usize \<Rightarrow> u32 \<Rightarrow> slice list" where
  "grow_existing xs existing_pos end_pos =
     (let curr = xs ! existing_pos; new_end = max (snd curr) end_pos in
      xs[existing_pos := (fst curr, new_end)])"

definition merge_missing :: "slice list \<Rightarrow> usize \<Rightarrow> u32 \<Rightarrow> u32 \<Rightarrow> slice list" where
  "merge_missing xs missing begin end_pos =
     (let (xs, start, end, was_combined_right) =
            (if missing < length xs \<and> fst (xs ! missing) = end_pos
             then (xs[missing := (begin, snd (xs ! missing))], begin, snd (xs ! missing), True)
             else (xs, begin, end_pos, False));
          (xs, was_combined_left) =
            (if missing > 0 \<and> missing - 1 < length xs \<and> snd (xs ! (missing - 1)) \<ge> start
             then (xs[missing - 1 := (fst (xs ! (missing - 1)), end)], True)
             else (xs, False)) in
      if \<not> was_combined_left \<and> \<not> was_combined_right then insert_at missing (start, end) xs
      else if was_combined_left \<and> was_combined_right then remove_at missing xs
      else xs)"

definition is_complete :: "slices \<Rightarrow> bool" where
  "is_complete s \<longleftrightarrow>
     length (sl_slices s) = 1 \<and> fst (sl_slices s ! 0) = 0 \<and>
     snd (sl_slices s ! 0) = as_u32 (sl_expected_size s)"

definition slices_insert :: "slices \<Rightarrow> u32 \<Rightarrow> u32 \<Rightarrow> (bool \<times> slices) option" where
  "slices_insert s begin len =
     map_option (\<lambda>end_pos.
       let s' = s\<lparr>sl_slices :=
         (case search_start (sl_slices s) begin of
            Inl existing_pos \<Rightarrow> grow_existing (sl_slices s) existing_pos end_pos
          | Inr missing \<Rightarrow> merge_missing (sl_slices s) missing begin end_pos)\<rparr>
       in (is_complete s', s'))
     (u32_add begin len)"

text \<open>A sequence of inserts; the flag is the last result.\<close>

fun slices_run :: "slices \<Rightarrow> (u32 \<times> u32) list \<Rightarrow> (bool \<times> slices) option" where
  "slices_run s [] = Some (is_complete s, s)"
| "slices_run s ((b, l) # blocks) = Option.bind (slices_insert s b l) (\<lambda>(_, s'). slices_run s' blocks)"

section \<open>The reference: insert between a left and a right part\<close>

definition ins_right :: "u32 \<Rightarrow> slice list \<Rightarrow> u32 \<times> slice list" where
  "ins_right e rs = (case rs of [] \<Rightarrow> (e, []) | (c, d) # rs' \<Rightarrow> if c = e then (d, rs') else (e, rs))"

definition ins_left :: "slice list \<Rightarrow> u32 \<Rightarrow> u32 \<Rightarrow> slice list" where
  "ins_left ls b e =
     (if ls \<noteq> [] \<and> snd (last ls) \<ge> b then butlast ls @ [(fst (last ls), e)] else ls @ [(b, e)])"

definition ins_at :: "slice list \<Rightarrow> slice list \<Rightarrow> u32 \<Rightarrow> u32 \<Rightarrow> slice list" where
  "ins_at ls rs b e =
     (case rs of
        (c, d) # rs' \<Rightarrow>
          if c = b then ls @ (b, max d e) # rs'
          else (case ins_right e rs of (e', rs'') \<Rightarrow> ins_left ls b e' @ rs'')
      | [] \<Rightarrow> ins_left ls b e)"

definition ins_spec :: "slice list \<Rightarrow> u32 \<Rightarrow> u32 \<Rightarrow> slice list" where
  "ins_spec xs b e = ins_at (takeWhile (\<lambda>s. fst s < b) xs) (dropWhile (\<lambda>s. fst s < b) xs) b e"

text \<open>The three outcomes on the right, the two on the left.\<close>

lemma ins_at_cases:
  obtains (same) d rs' where "rs = (b, d) # rs'" "ins_at ls rs b e = ls @ (b, max d e) # rs'"
  | (plain) "\<And>r rs'. rs = r # rs' \<Longrightarrow> fst r \<noteq> b \<and> fst r \<noteq> e" "ins_at ls rs b e = ins_left ls b e @ rs"
  | (right) d rs' where "rs = (e, d) # rs'" "e \<noteq> b" "ins_at ls rs b e = ins_left ls b d @ rs'"
proof (cases rs)
  case Nil
  then show ?thesis by (intro plain) (simp_all add: ins_at_def)
next
  case (Cons r rs')
  obtain c d where "r = (c, d)" by fastforce
  with Cons show ?thesis
    using same [of d rs'] right [of d rs'] plain
    by (cases "c = b"; cases "c = e") (auto simp: ins_at_def ins_right_def)
qed

lemma ins_left_cases:
  obtains (apart) "ins_left ls b e = ls @ [(b, e)]" "\<And>l ls'. ls = ls' @ [l] \<Longrightarrow> snd l < b"
  | (left) a a' ls' where "ls = ls' @ [(a, a')]" "b \<le> a'" "ins_left ls b e = ls' @ [(a, e)]"
proof (cases "ls \<noteq> [] \<and> b \<le> snd (last ls)")
  case True
  then obtain ls' a a' where "ls = ls' @ [(a, a')]"
    by (metis append_butlast_last_id surj_pair)
  with True show ?thesis by (intro left) (simp_all add: ins_left_def)
next
  case False
  then show ?thesis by (intro apart) (auto simp: ins_left_def)
qed

lemma insert_at_length [simp]: "insert_at (length xs) x (xs @ ys) = xs @ x # ys"
  by (simp add: insert_at_def)

lemma remove_at_length [simp]: "remove_at (length xs) (xs @ y # ys) = xs @ ys"
  by (simp add: remove_at_def)

lemma grow_existing_app:
  "grow_existing (ls @ (c, d) # rs) (length ls) e = ls @ (c, max d e) # rs"
  by (simp add: grow_existing_def)

lemma merge_missing_app:
  "merge_missing (ls @ rs) (length ls) b e = (case ins_right e rs of (e', rs') \<Rightarrow> ins_left ls b e' @ rs')"
proof (cases ls rule: rev_cases)
  case Nil
  then show ?thesis
    by (auto simp: merge_missing_def ins_right_def ins_left_def insert_at_def split: list.splits)
next
  case (snoc ls' l)
  then show ?thesis
    by (auto simp: merge_missing_def ins_right_def ins_left_def insert_at_def remove_at_def
        nth_append list_update_append split: list.splits)
qed

lemma search_start_app:
  assumes "takeWhile (\<lambda>s. fst s < b) (ls @ rs) = ls"
  shows "search_start (ls @ rs) b =
    (case rs of [] \<Rightarrow> Inr (length ls) | r # _ \<Rightarrow> if fst r = b then Inl (length ls) else Inr (length ls))"
  using assms by (auto simp: search_start_def nth_append split: list.splits)

text \<open>The code computes the reference.\<close>

lemma slices_insert_eq:
  "slices_insert s b l =
     map_option (\<lambda>e. let s' = s\<lparr>sl_slices := ins_spec (sl_slices s) b e\<rparr> in (is_complete s', s')) (u32_add b l)"
proof -
  let ?xs = "sl_slices s"
  define ls rs where ls: "ls = takeWhile (\<lambda>s. fst s < b) ?xs" and rs: "rs = dropWhile (\<lambda>s. fst s < b) ?xs"
  have xs: "?xs = ls @ rs" by (simp add: ls rs)
  have "(case search_start ?xs b of Inl p \<Rightarrow> grow_existing ?xs p e | Inr p \<Rightarrow> merge_missing ?xs p b e)
      = ins_spec ?xs b e" for e
  proof -
    have "takeWhile (\<lambda>s. fst s < b) (ls @ rs) = ls" by (simp add: ls rs)
    note search = search_start_app [OF this]
    have "ins_spec ?xs b e = ins_at ls rs b e" by (simp add: ins_spec_def ls rs)
    then show ?thesis
    proof (cases rs)
      case Nil
      then show ?thesis
        using search merge_missing_app [of ls "[]" b e] \<open>ins_spec ?xs b e = _\<close>
        by (simp add: xs ins_at_def ins_right_def)
    next
      case (Cons r rs')
      obtain c d where "r = (c, d)" by fastforce
      then show ?thesis
        using search Cons merge_missing_app [of ls rs b e] grow_existing_app [of ls c d rs' e]
          \<open>ins_spec ?xs b e = _\<close>
        by (auto simp: xs ins_at_def)
    qed
  qed
  then show ?thesis
    by (cases "u32_add b l") (simp_all add: slices_insert_def Let_def)
qed

section \<open>What is recorded\<close>

definition covered :: "slice list \<Rightarrow> u32 set" where
  "covered xs = (\<Union>(a, b) \<in> set xs. {a..<b})"

definition starts_sorted :: "slice list \<Rightarrow> bool" where
  "starts_sorted xs \<longleftrightarrow> sorted_wrt (<) (map fst xs)"

text \<open>Intervals that are nonempty, disjoint and do not touch.\<close>

definition separated :: "slice list \<Rightarrow> bool" where
  "separated xs \<longleftrightarrow> sorted_wrt (\<lambda>x y. snd x < fst y) xs \<and> (\<forall>(a, b) \<in> set xs. a < b)"

lemma covered_simps [simp]:
  "covered [] = {}" "covered ((a, b) # xs) = {a..<b} \<union> covered xs" "covered (xs @ ys) = covered xs \<union> covered ys"
  by (auto simp: covered_def)

lemma starts_sorted_app:
  "starts_sorted (xs @ ys) \<longleftrightarrow> starts_sorted xs \<and> starts_sorted ys \<and> (\<forall>x \<in> set xs. \<forall>y \<in> set ys. fst x < fst y)"
  by (auto simp: starts_sorted_def sorted_wrt_append)

lemma starts_sorted_simps [simp]:
  "starts_sorted []" "starts_sorted (x # xs) \<longleftrightarrow> (\<forall>y \<in> set xs. fst x < fst y) \<and> starts_sorted xs"
  by (simp_all add: starts_sorted_def)

lemma separated_app:
  "separated (xs @ ys) \<longleftrightarrow> separated xs \<and> separated ys \<and> (\<forall>x \<in> set xs. \<forall>y \<in> set ys. snd x < fst y)"
  by (auto simp: separated_def sorted_wrt_append)

lemma separated_simps [simp]:
  "separated []"
  "separated ((a, b) # xs) \<longleftrightarrow> a < b \<and> (\<forall>y \<in> set xs. b < fst y) \<and> separated xs"
  by (auto simp: separated_def)

text \<open>The split that \<open>ins_spec\<close> works on.\<close>

lemma split_at_start:
  assumes "starts_sorted xs"
  obtains ls rs where "xs = ls @ rs" "ins_spec xs b = ins_at ls rs b"
    "\<forall>x \<in> set ls. fst x < b" "\<forall>x \<in> set rs. b \<le> fst x" "starts_sorted ls" "starts_sorted rs"
proof -
  let ?ls = "takeWhile (\<lambda>s. fst s < b) xs" and ?rs = "dropWhile (\<lambda>s. fst s < b) xs"
  have "starts_sorted (?ls @ ?rs)" using assms by simp
  then have sorted: "starts_sorted ?ls" "starts_sorted ?rs"
    unfolding starts_sorted_app by blast+
  have "b \<le> fst x" if "x \<in> set ?rs" for x
  proof (cases ?rs)
    case Nil
    with that show ?thesis by simp
  next
    case (Cons r rs')
    then have "b \<le> fst r" by (metis dropWhile_eq_Cons_conv not_le)
    with that Cons sorted(2) show ?thesis by (auto intro: order_less_imp_le)
  qed
  moreover have "fst x < b" if "x \<in> set ?ls" for x
    using set_takeWhileD [OF that] by blast
  moreover have "ins_spec xs b = ins_at ?ls ?rs b"
    by (simp add: fun_eq_iff ins_spec_def)
  ultimately show ?thesis
    using that [of ?ls ?rs] sorted by auto
qed

lemma ins_left_sorted:
  assumes "starts_sorted ls" "\<forall>x \<in> set ls. fst x < b"
  shows "starts_sorted (ins_left ls b e) \<and> (\<forall>x \<in> set (ins_left ls b e). fst x \<le> b)"
  by (cases rule: ins_left_cases [of ls b e]) (use assms in \<open>auto simp: starts_sorted_app\<close>)

lemma ins_spec_sorted [inv_intros]:
  assumes "starts_sorted xs"
  shows "starts_sorted (ins_spec xs b e)"
proof -
  from assms obtain ls rs where s: "ins_spec xs b = ins_at ls rs b"
    "\<forall>x \<in> set ls. fst x < b" "\<forall>x \<in> set rs. b \<le> fst x" "starts_sorted ls" "starts_sorted rs"
    by (rule split_at_start)
  have left: "starts_sorted (ins_left ls b e' @ rs')"
    if "starts_sorted rs'" "\<forall>x \<in> set rs'. b < fst x" for e' rs'
    using ins_left_sorted [OF s(4,2), of e'] that
    by (fastforce simp: starts_sorted_app intro: order_le_less_trans)
  show ?thesis
  proof (cases rule: ins_at_cases [of rs b ls e])
    case (same d rs')
    then show ?thesis using s by (fastforce simp: starts_sorted_app intro: order_less_trans)
  next
    case plain
    have "\<forall>x \<in> set rs. b < fst x"
      using plain(1) s(3,5) by (cases rs) (auto simp: order_le_less)
    then show ?thesis using left s(5) by (simp add: s(1) plain(2))
  next
    case (right d rs')
    then have "b < e" "\<forall>x \<in> set rs'. e < fst x" "starts_sorted rs'"
      using s(3,5) by (auto simp: order_le_less)
    then have "starts_sorted (ins_left ls b d @ rs')"
      by (intro left) (auto intro: order_less_trans)
    then show ?thesis by (simp add: s(1) right(3))
  qed
qed

text \<open>Nothing is recorded that was neither there before nor inserted.\<close>

lemma ins_left_covered: "covered (ins_left ls b e) \<subseteq> covered ls \<union> {b..<e}"
  by (cases rule: ins_left_cases [of ls b e]) auto

lemma ins_spec_covered: "covered (ins_spec xs b e) \<subseteq> covered xs \<union> {b..<e}"
proof -
  define ls rs where "ls = takeWhile (\<lambda>s. fst s < b) xs" and "rs = dropWhile (\<lambda>s. fst s < b) xs"
  then have "covered xs = covered ls \<union> covered rs" "ins_spec xs b e = ins_at ls rs b e"
    by (simp_all add: ins_spec_def flip: covered_simps(3))
  moreover have "covered (ins_at ls rs b e) \<subseteq> covered ls \<union> covered rs \<union> {b..<e}"
  proof (cases rule: ins_at_cases [of rs b ls e])
    case (same d rs')
    then show ?thesis by (auto simp: max_def split: if_splits)
  next
    case plain
    then show ?thesis using ins_left_covered by fastforce
  next
    case (right d rs')
    then show ?thesis using ins_left_covered [of ls b d] by (auto simp: not_less)
  qed
  ultimately show ?thesis by simp
qed

text \<open>When the new block meets nothing recorded, exactly it is added, and intervals stay apart.\<close>

lemma separated_imp_starts: "separated xs \<Longrightarrow> starts_sorted xs"
  by (induction xs) (fastforce intro: order_less_trans)+

lemma ins_spec_exact:
  assumes sep: "separated xs" and ne: "b < e" and new: "covered xs \<inter> {b..<e} = {}"
  shows "covered (ins_spec xs b e) = covered xs \<union> {b..<e} \<and> separated (ins_spec xs b e)"
proof -
  obtain ls rs where s: "xs = ls @ rs" "ins_spec xs b = ins_at ls rs b"
    "\<forall>x \<in> set ls. fst x < b" "\<forall>x \<in> set rs. b \<le> fst x"
    using split_at_start [OF separated_imp_starts [OF sep], of b] by metis
  have seps: "separated ls" "separated rs" "\<forall>x \<in> set ls. \<forall>y \<in> set rs. snd x < fst y"
    using sep unfolding s(1) separated_app by blast+
  have l: "a' \<le> b" if "(a, a') \<in> set ls" for a a'
  proof (rule ccontr)
    assume "\<not> a' \<le> b"
    then have "b \<in> covered xs"
      using s(1,3) that by (fastforce simp: covered_def)
    then show False using new ne by auto
  qed
  have r: "e \<le> c" if "(c, d) \<in> set rs" for c d
  proof (rule ccontr)
    assume "\<not> e \<le> c"
    moreover have "c < d" using seps(2) that by (auto simp: separated_def)
    ultimately have "c \<in> covered xs \<inter> {b..<e}"
      using s(1,4) that by (fastforce simp: covered_def)
    then show False using new by simp
  qed
  have left: "covered (ins_left ls b e' @ rs') = covered ls \<union> {b..<e'} \<union> covered rs' \<and>
      separated (ins_left ls b e' @ rs')"
    if "b < e'" "separated rs'" "\<forall>y \<in> set rs'. e' < fst y" "set rs' \<subseteq> set rs" for e' rs'
  proof (cases rule: ins_left_cases [of ls b e'])
    case apart
    have "\<forall>x \<in> set ls. snd x < b"
    proof (cases ls rule: rev_cases)
      case (snoc ls' x)
      then have "snd x < b" using apart(2) by simp
      moreover have "\<forall>z \<in> set ls'. snd z < fst x" "fst x < snd x"
        using seps(1) snoc by (auto simp: separated_def sorted_wrt_append)
      ultimately show ?thesis using snoc by (auto dest: order_less_trans)
    qed simp
    moreover have "\<forall>x \<in> set ls. \<forall>y \<in> set rs'. snd x < fst y"
      using seps(3) that(4) by blast
    ultimately show ?thesis
      using that(1-3) seps(1) apart(1) by (auto simp: separated_app)
  next
    case (left a a' ls')
    then have "a' = b" using l [of a a'] by simp
    moreover have "a < a'" "separated ls'" "\<forall>x \<in> set ls'. snd x < a"
      using seps(1) left(1) by (auto simp: separated_app)
    moreover have "\<forall>x \<in> set ls'. \<forall>y \<in> set rs'. snd x < fst y"
      using seps(3) that(4) left(1) by auto
    ultimately show ?thesis
      using that(1-3) left(1,3) by (auto simp: separated_app)
  qed
  show ?thesis
  proof (cases rule: ins_at_cases [of rs b ls e])
    case (same d rs')
    then show ?thesis using r [of b d] ne by simp
  next
    case plain
    have "\<forall>y \<in> set rs. e < fst y"
    proof (cases rs)
      case (Cons y rs')
      then have "e < fst y" using plain(1) r [of "fst y" "snd y"] by (auto simp: order_le_less)
      moreover have "\<forall>z \<in> set rs'. fst y < fst z"
        using separated_imp_starts [OF seps(2)] Cons by simp
      ultimately show ?thesis using Cons by (auto intro: order_less_trans)
    qed simp
    then show ?thesis using left [of e rs] ne seps(2) s(1,2) plain(2) by auto
  next
    case (right d rs')
    then have "e < d" "\<forall>y \<in> set rs'. d < fst y" "separated rs'" using seps(2) by auto
    moreover from this ne have "b < d" "{b..<d} = {b..<e} \<union> {e..<d}"
      by (auto intro: order_less_trans)
    ultimately show ?thesis
      using left [of d rs'] right s(1,2) by (auto simp: Un_ac)
  qed
qed

text \<open>An interval list that covers a whole nonempty range without gaps is one interval.\<close>

lemma separated_full:
  assumes "separated xs" and "0 < N" and "covered xs = {0..<N}"
  shows "xs = [(0, N)]"
proof (cases xs)
  case Nil
  with assms show ?thesis by auto
next
  case (Cons x xs')
  obtain a b where x: "x = (a, b)" by fastforce
  with assms Cons have ab: "a < b" "\<forall>y \<in> set xs'. b < fst y" by auto
  have above: "\<forall>p \<in> covered xs'. b < p"
    using ab(2) by (auto simp: covered_def) (metis fst_conv order_less_le_trans)
  have "xs' = []"
  proof (rule ccontr)
    assume "xs' \<noteq> []"
    then obtain c d ys where ys: "xs' = (c, d) # ys" by (cases xs') auto
    then have "c \<in> covered xs" "b < c" using assms(1) ab Cons x by auto
    then have "b \<in> covered xs" using assms(3) by auto
    then show False using above Cons x by auto
  qed
  then have "{a..<b} = {0..<N}" using assms(3) Cons x by simp
  then have "a = 0 \<and> b = N"
    using assms(2) ab(1) by (metis atLeastLessThan_eq_iff)
  then show ?thesis using Cons x \<open>xs' = []\<close> by simp
qed

section \<open>Sequences of inserts\<close>

text \<open>The bytes of a block, as offsets in the piece.\<close>

fun block_range :: "u32 \<times> u32 \<Rightarrow> nat set" where
  "block_range (b, l) = {unat b..<unat b + unat l}"

definition recorded :: "slices \<Rightarrow> nat set" where
  "recorded s = unat ` covered (sl_slices s)"

definition slices_inv :: "slices \<Rightarrow> bool" where
  "slices_inv s \<longleftrightarrow> starts_sorted (sl_slices s)"

lemma unat_ivl: "unat ` {a..<b} = {unat a..<unat (b :: u32)}"
proof (intro set_eqI iffI)
  fix x assume "x \<in> {unat a..<unat b}"
  moreover from this have "x < 2 ^ 32" using unat_u32_lt [of b] by simp
  then have "x = unat (as_u32 x)" by simp
  ultimately show "x \<in> unat ` {a..<b}"
    by (intro image_eqI [of _ _ "as_u32 x"]) (auto simp: word_le_nat_alt word_less_nat_alt)
qed (auto simp: word_le_nat_alt word_less_nat_alt)

lemma recorded_new [simp]: "recorded (slices_new n) = {}" "slices_inv (slices_new n)"
  by (simp_all add: recorded_def slices_new_def slices_inv_def)

lemma sl_expected_new [simp]: "sl_expected_size (slices_new n) = n"
  by (simp add: slices_new_def)

lemma recorded_complete: "is_complete s \<Longrightarrow> recorded s = {..<unat (as_u32 (sl_expected_size s))}"
proof -
  assume "is_complete s"
  then have "sl_slices s = [(0, as_u32 (sl_expected_size s))]"
    by (cases "sl_slices s") (auto simp: is_complete_def)
  then have "recorded s = unat ` {0..<as_u32 (sl_expected_size s)}"
    by (simp add: recorded_def)
  then show ?thesis
    unfolding unat_ivl by (simp add: lessThan_atLeast0)
qed

lemma slices_insert_Some:
  assumes "slices_insert s b l = Some (f, s')"
  shows "sl_slices s' = ins_spec (sl_slices s) b (b + l)" "f = is_complete s'"
    "sl_expected_size s' = sl_expected_size s" "unat (b + l) = unat b + unat l" "unat b + unat l < 2 ^ 32"
  using assms by (auto simp: slices_insert_eq Let_def u32_add_Some unat_word_ariths)

lemma slices_insert_None_iff: "slices_insert s b l = None \<longleftrightarrow> 2 ^ 32 \<le> unat b + unat l"
  by (auto simp: slices_insert_eq u32_add_def)

lemma slices_insert_inv [inv_intros]: "slices_insert s b l = Some (f, s') \<Longrightarrow> slices_inv s \<Longrightarrow> slices_inv s'"
  by (auto dest: slices_insert_Some(1) simp: slices_inv_def ins_spec_sorted)

lemma slices_insert_recorded:
  assumes "slices_insert s b l = Some (f, s')"
  shows "recorded s' \<subseteq> recorded s \<union> block_range (b, l)"
proof -
  have "unat ` covered (sl_slices s') \<subseteq> unat ` (covered (sl_slices s) \<union> {b..<b + l})"
    unfolding slices_insert_Some(1) [OF assms] by (intro image_mono ins_spec_covered)
  then show ?thesis
    by (simp add: recorded_def image_Un unat_ivl slices_insert_Some(4) [OF assms])
qed

lemma slices_insert_exact:
  assumes "separated (sl_slices s)" "0 < l" "unat b + unat l < 2 ^ 32"
    "recorded s \<inter> block_range (b, l) = {}"
  shows "\<exists>s'. slices_insert s b l = Some (is_complete s', s') \<and> separated (sl_slices s') \<and>
    recorded s' = recorded s \<union> block_range (b, l) \<and> sl_expected_size s' = sl_expected_size s"
proof -
  obtain f s' where ins: "slices_insert s b l = Some (f, s')"
    using assms(3) slices_insert_None_iff [of s b l] by (cases "slices_insert s b l") auto
  note facts = slices_insert_Some [OF ins]
  have "0 < unat l" using assms(2) by (simp add: word_less_nat_alt)
  then have "b < b + l" using facts(4) by (simp add: word_less_nat_alt)
  moreover have "covered (sl_slices s) \<inter> {b..<b + l} = {}"
    using assms(4) facts(4)
    by (auto simp: recorded_def disjoint_iff word_le_nat_alt word_less_nat_alt)
  ultimately have "covered (sl_slices s') = covered (sl_slices s) \<union> {b..<b + l} \<and> separated (sl_slices s')"
    using ins_spec_exact assms(1) facts(1) by metis
  then show ?thesis
    using ins facts by (auto simp: recorded_def image_Un unat_ivl)
qed

lemma is_complete_iff:
  assumes "separated (sl_slices s)" "0 < sl_expected_size s" "sl_expected_size s < 2 ^ 32"
  shows "is_complete s \<longleftrightarrow> recorded s = {..<sl_expected_size s}"
proof
  assume "recorded s = {..<sl_expected_size s}"
  then have "unat ` covered (sl_slices s) = unat ` {0..<as_u32 (sl_expected_size s)}"
    using assms(3) by (simp add: recorded_def unat_ivl) (metis lessThan_atLeast0 mod_less)
  then have "covered (sl_slices s) = {0..<as_u32 (sl_expected_size s)}"
    by (metis inj_image_eq_iff inj_unsigned)
  then have "sl_slices s = [(0, as_u32 (sl_expected_size s))]"
    using assms by (intro separated_full) (simp_all add: word_less_nat_alt)
  then show "is_complete s" by (simp add: is_complete_def)
next
  assume "is_complete s"
  then show "recorded s = {..<sl_expected_size s}"
    using recorded_complete [of s] assms(3) by simp
qed

lemma slices_run_recorded:
  "slices_run s blocks = Some (f, s') \<Longrightarrow>
     recorded s' \<subseteq> recorded s \<union> \<Union> (block_range ` set blocks) \<and> f = is_complete s' \<and>
     sl_expected_size s' = sl_expected_size s"
proof (induction s blocks rule: slices_run.induct)
  case (1 s)
  then show ?case by auto
next
  case (2 s b l blocks)
  then obtain g s1 where s1: "slices_insert s b l = Some (g, s1)" "slices_run s1 blocks = Some (f, s')"
    by (auto simp: bind_eq_Some_conv)
  show ?case
    using "2.IH" [OF s1(1)] s1(2) slices_insert_recorded [OF s1(1)] slices_insert_Some(3) [OF s1(1)]
    by fastforce
qed

definition disjoint_blocks :: "(u32 \<times> u32) list \<Rightarrow> bool" where
  "disjoint_blocks blocks \<longleftrightarrow> sorted_wrt (\<lambda>x y. block_range x \<inter> block_range y = {}) blocks"

lemma slices_run_exact:
  assumes "separated (sl_slices s)" "disjoint_blocks blocks"
    "\<forall>(b, l) \<in> set blocks. 0 < l \<and> unat b + unat l < 2 ^ 32"
    "recorded s \<inter> \<Union> (block_range ` set blocks) = {}"
  shows "\<exists>s'. slices_run s blocks = Some (is_complete s', s') \<and> separated (sl_slices s') \<and>
    recorded s' = recorded s \<union> \<Union> (block_range ` set blocks) \<and> sl_expected_size s' = sl_expected_size s"
  using assms
proof (induction blocks arbitrary: s)
  case Nil
  then show ?case by simp
next
  case (Cons x blocks)
  obtain b l where x: "x = (b, l)" by fastforce
  obtain s1 where s1: "slices_insert s b l = Some (is_complete s1, s1)" "separated (sl_slices s1)"
    "recorded s1 = recorded s \<union> block_range (b, l)" "sl_expected_size s1 = sl_expected_size s"
    using slices_insert_exact [of s l b] Cons.prems x by auto
  have "\<exists>s'. slices_run s1 blocks = Some (is_complete s', s') \<and> separated (sl_slices s') \<and>
    recorded s' = recorded s1 \<union> \<Union> (block_range ` set blocks) \<and> sl_expected_size s' = sl_expected_size s1"
    using Cons.prems x s1 by (intro Cons.IH) (auto simp: disjoint_blocks_def)
  then show ?case using x s1 by auto
qed

section \<open>Properties\<close>

text \<open>
  C25. No false completion: whatever blocks are inserted, in any order and overlapping in any
  way, the tracker reports the piece complete only if the inserted blocks together cover every
  byte of it.
\<close>

theorem complete_means_covered:
  assumes "slices_run (slices_new n) blocks = Some (True, s)" and "n < 2 ^ 32"
  shows "{..<n} \<subseteq> \<Union> (block_range ` set blocks)"
  using slices_run_recorded [OF assms(1)] recorded_complete [of s] assms(2) by auto

lemma complete_means_covered_witness:
  "{..<4} \<subseteq> \<Union> (block_range ` set [(2, 2), (0, 2)])"
  by (rule complete_means_covered [of 4 _ "\<lparr>sl_slices = [(0, 4)], sl_expected_size = 4\<rparr>"])
    (simp_all add: slices_new_def slices_insert_def search_start_def merge_missing_def insert_at_def
      remove_at_def is_complete_def u32_add_def)

text \<open>
  C24. Completion is reached: blocks that do not overlap and cover the piece make the tracker
  report it complete with the last of them, in whatever order they come.
\<close>

theorem disjoint_blocks_complete:
  assumes "0 < n" "n < 2 ^ 32" and "disjoint_blocks blocks"
    and "\<forall>(b, l) \<in> set blocks. 0 < l \<and> unat b + unat l \<le> n"
  shows "\<exists>s. slices_run (slices_new n) blocks = Some (\<Union> (block_range ` set blocks) = {..<n}, s)"
proof -
  have "\<forall>(b, l) \<in> set blocks. 0 < l \<and> unat b + unat l < 2 ^ 32"
    using assms(2,4) by fastforce
  then obtain s where s: "slices_run (slices_new n) blocks = Some (is_complete s, s)" "separated (sl_slices s)"
    "recorded s = \<Union> (block_range ` set blocks)" "sl_expected_size s = n"
    using slices_run_exact [of "slices_new n" blocks] assms(3) by (auto simp: slices_new_def recorded_def)
  then show ?thesis
    using is_complete_iff [OF s(2)] assms(1,2) by (intro exI [of _ s]) auto
qed

lemma disjoint_blocks_complete_witness:
  "\<exists>s. slices_run (slices_new 5) [(3, 2), (0, 3)] =
     Some (\<Union> (block_range ` set [(3, 2), (0, 3)]) = {..<5}, s)"
  by (rule disjoint_blocks_complete) (auto simp: disjoint_blocks_def)

text \<open>
  One insert in one piece: \<open>ins_spec\<close> on the list split at the block's start. It panics exactly
  when \<open>begin + len\<close> leaves 32 bits.
\<close>

theorem insert_refines_merge:
  "slices_insert s b l =
     (if unat b + unat l < 2 ^ 32
      then (let s' = s\<lparr>sl_slices := ins_spec (sl_slices s) b (b + l)\<rparr> in Some (is_complete s', s'))
      else None)"
  by (simp add: slices_insert_eq u32_add_def Let_def)

text \<open>
  An insert can forget bytes: when one interval \<open>lo..<hi\<close> is recorded and a block inside
  it arrives again (not at its very start), the interval's end moves back to the block's end.
\<close>

theorem repeated_block_shrinks:
  assumes "sl_slices s = [(lo, hi)]" and "lo < b" "unat b + unat l < unat hi"
  shows "\<exists>f s'. slices_insert s b l = Some (f, s') \<and> sl_slices s' = [(lo, b + l)] \<and> b + l < hi"
proof -
  have fits: "unat b + unat l < 2 ^ 32" using assms(3) unat_u32_lt [of hi] by simp
  then have "b + l < hi" "b \<le> hi"
    using assms(3) by (simp_all add: word_less_nat_alt word_le_nat_alt unat_word_ariths)
  then show ?thesis
    using assms(1,2) fits
    by (simp add: slices_insert_eq u32_add_def ins_spec_def ins_at_def ins_left_def Let_def)
qed

lemma repeated_block_shrinks_witness:
  "\<exists>f s'. slices_insert \<lparr>sl_slices = [(0, 8)], sl_expected_size = 9\<rparr> 2 3 = Some (f, s') \<and>
     sl_slices s' = [(0, 2 + 3)] \<and> 2 + 3 < (8 :: u32)"
  by (rule repeated_block_shrinks) simp_all

end
