(* ===== verification/Piece_Tracker.thy ===== *)
theory Piece_Tracker
  imports Ordered_Map Allocation Slices "HOL-Library.Multiset" "HOL-Library.List_Lexorder"
begin

text \<open>
  \<open>src/peer/state/piece.rs\<close>: which pieces are not started, which blocks of the started ones
  are being downloaded or done, when each request was made, and how the next requests are
  chosen. An \<open>Instant\<close> and a \<open>Duration\<close> are nanoseconds; the time a call reads from the clock
  is an argument. The iteration order of a \<open>HashSet\<close> is not determined by the program: where
  the code takes the first element of one, the order is a parameter (\<open>hash_iteration\<close>).
\<close>

section \<open>The maps\<close>

type_synonym instant = nat
type_synonym duration = nat

record block_download =
  bd_piece_request :: peer_requested_piece

type_synonym outstanding_block_requests = "(u32, block_download) btree"

record piece_to_block_key =
  key_piece_id :: u32
  key_block_begin :: u32

record piece_to_block_map =
  downloading :: "(u32, outstanding_block_requests) btree"
  blocks_done :: "(u32, outstanding_block_requests) btree"

definition empty_block_map :: piece_to_block_map where
  "empty_block_map = \<lparr>downloading = bt_empty, blocks_done = bt_empty\<rparr>"

definition ptb_set_request_finished :: "u32 \<Rightarrow> u32 \<Rightarrow> piece_to_block_map \<Rightarrow> unit option \<times> piece_to_block_map" where
  "ptb_set_request_finished piece_id begin m =
     (case bt_get (downloading m) piece_id of
        None \<Rightarrow> (None, m)
      | Some requests \<Rightarrow>
          (case bt_get requests begin of
             None \<Rightarrow> (None, m)
           | Some download \<Rightarrow>
               (let block_map = (case bt_get (blocks_done m) piece_id of None \<Rightarrow> bt_empty | Some bm \<Rightarrow> bm) in
                (Some (),
                 m\<lparr>downloading := bt_insert piece_id (bt_remove begin requests) (downloading m),
                   blocks_done := bt_insert piece_id (bt_insert begin download block_map) (blocks_done m)\<rparr>))))"

definition ptb_remove_downloading_request :: "u32 \<Rightarrow> u32 \<Rightarrow> piece_to_block_map \<Rightarrow> bool \<times> piece_to_block_map" where
  "ptb_remove_downloading_request piece_id begin m =
     (case bt_get (downloading m) piece_id of
        None \<Rightarrow> (False, m)
      | Some reqs \<Rightarrow> (True, m\<lparr>downloading := bt_insert piece_id (bt_remove begin reqs) (downloading m)\<rparr>))"

definition ptb_remove_piece :: "u32 \<Rightarrow> piece_to_block_map \<Rightarrow> piece_to_block_map" where
  "ptb_remove_piece piece_id m =
     m\<lparr>downloading := bt_remove piece_id (downloading m), blocks_done := bt_remove piece_id (blocks_done m)\<rparr>"

definition ptb_downloading_requests_len :: "piece_to_block_map \<Rightarrow> usize" where
  "ptb_downloading_requests_len m = bt_sum length (downloading m)"

definition ptb_pieces :: "piece_to_block_map \<Rightarrow> u32 set" where
  "ptb_pieces m = set (bt_keys (downloading m) @ bt_keys (blocks_done m))"

definition ptb_insert_request :: "peer_requested_piece \<Rightarrow> piece_to_block_map \<Rightarrow> piece_to_block_map" where
  "ptb_insert_request piece_request m =
     (let idx = req_index piece_request;
          download = \<lparr>bd_piece_request = piece_request\<rparr>;
          block_map = (case bt_get (downloading m) idx of None \<Rightarrow> bt_empty | Some bm \<Rightarrow> bm) in
      m\<lparr>downloading := bt_insert idx (bt_insert (req_begin piece_request) download block_map) (downloading m)\<rparr>)"

definition visit_req_map :: "(u32, outstanding_block_requests) btree \<Rightarrow> u32 \<Rightarrow> u32 \<Rightarrow> block_download option" where
  "visit_req_map m piece_id begin =
     (case bt_get m piece_id of None \<Rightarrow> None | Some requests \<Rightarrow> bt_get requests begin)"

definition contains_inprogress :: "piece_to_block_map \<Rightarrow> u32 \<Rightarrow> u32 \<Rightarrow> block_download option" where
  "contains_inprogress m piece_id begin =
     (case visit_req_map (downloading m) piece_id begin of
        Some d \<Rightarrow> Some d
      | None \<Rightarrow> visit_req_map (blocks_done m) piece_id begin)"

record inprogress_map =
  piece_to_blocks_started :: piece_to_block_map
  expirations :: "(instant \<times> piece_to_block_key) list"

definition inprogress_insert :: "instant \<Rightarrow> peer_requested_piece \<Rightarrow> inprogress_map \<Rightarrow> inprogress_map" where
  "inprogress_insert started piece_request m =
     (let k = \<lparr>key_piece_id = req_index piece_request, key_block_begin = req_begin piece_request\<rparr> in
      m\<lparr>expirations := expirations m @ [(started, k)],
        piece_to_blocks_started := ptb_insert_request piece_request (piece_to_blocks_started m)\<rparr>)"

definition checked_duration_since :: "instant \<Rightarrow> instant \<Rightarrow> duration option" where
  "checked_duration_since later earlier = (if earlier \<le> later then Some (later - earlier) else None)"

text \<open>
  The expiry loop: pop entries from the front while they are old enough; an entry whose
  request is still downloading is removed and reported, one that finished is dropped.
\<close>

fun expire_loop ::
  "instant \<Rightarrow> duration \<Rightarrow> (instant \<times> piece_to_block_key) list \<Rightarrow> piece_to_block_map \<Rightarrow>
     peer_requested_piece list \<times> (instant \<times> piece_to_block_key) list \<times> piece_to_block_map"
where
  "expire_loop time ttl [] m = ([], [], m)"
| "expire_loop time ttl ((entry_time, k) # q) m =
     (let lived_time = (case checked_duration_since time entry_time of Some d \<Rightarrow> d | None \<Rightarrow> 0) in
      if lived_time \<ge> ttl then
        (case bt_get (downloading m) (key_piece_id k) of
           None \<Rightarrow> expire_loop time ttl q m
         | Some begin_map \<Rightarrow>
             (case bt_get begin_map (key_block_begin k) of
                None \<Rightarrow> expire_loop time ttl q m
              | Some d \<Rightarrow>
                  (case expire_loop time ttl q
                     (m\<lparr>downloading := bt_insert (key_piece_id k) (bt_remove (key_block_begin k) begin_map) (downloading m)\<rparr>) of
                     (acc, q', m') \<Rightarrow> (bd_piece_request d # acc, q', m'))))
      else ([], (entry_time, k) # q, m))"

definition inprogress_remove_expired ::
  "instant \<Rightarrow> duration \<Rightarrow> inprogress_map \<Rightarrow> peer_requested_piece list \<times> inprogress_map"
where
  "inprogress_remove_expired time ttl m =
     (case expire_loop time ttl (expirations m) (piece_to_blocks_started m) of
        (acc, q, ptb) \<Rightarrow> (acc, m\<lparr>piece_to_blocks_started := ptb, expirations := q\<rparr>))"

section \<open>Choosing the blocks of a piece\<close>

text \<open>\<open>(0..piece_size).step_by(PIECE_BLOCK_SIZE)\<close>.\<close>

definition block_begins :: "usize \<Rightarrow> usize list" where
  "block_begins piece_size =
     map (\<lambda>k. k * PIECE_BLOCK_SIZE) [0..<(piece_size + PIECE_BLOCK_SIZE - 1) div PIECE_BLOCK_SIZE]"

definition block_length :: "usize \<Rightarrow> usize \<Rightarrow> usize option" where
  "block_length piece_size begin =
     map_option (\<lambda>end_pos. if end_pos > piece_size then piece_size - begin else PIECE_BLOCK_SIZE)
       (usize_add begin PIECE_BLOCK_SIZE)"

fun allocation_loop ::
  "internal_peer_id \<Rightarrow> u32 \<Rightarrow> usize \<Rightarrow> piece_to_block_map \<Rightarrow> usize list \<Rightarrow> usize \<Rightarrow>
     (peer_requested_piece list \<times> usize) option"
where
  "allocation_loop peer_id piece_id piece_size requested [] capacity = Some ([], capacity)"
| "allocation_loop peer_id piece_id piece_size requested (begin # begins) capacity =
     (if capacity = 0 then Some ([], capacity)
      else if contains_inprogress requested piece_id (as_u32 begin) \<noteq> None
      then allocation_loop peer_id piece_id piece_size requested begins capacity
      else
        Option.bind (block_length piece_size begin) (\<lambda>len.
        map_option (\<lambda>(reqs, capacity').
            (\<lparr>req_peer_id = peer_id, req_index = piece_id, req_begin = as_u32 begin, req_length = as_u32 len\<rparr> # reqs,
             capacity'))
          (allocation_loop peer_id piece_id piece_size requested begins (capacity - 1))))"

text \<open>
  \<open>PieceBlockAllocation::new\<close>: the outer \<open>None\<close> is a panic, the inner one "no peer has it".
  The set of peers comes as the list of its elements in iteration order.
\<close>

definition piece_block_allocation_new ::
  "u32 \<Rightarrow> v1_torrent \<Rightarrow> internal_peer_id list \<Rightarrow> piece_to_block_map \<Rightarrow> usize \<Rightarrow>
     (peer_requested_piece list option \<times> usize) option"
where
  "piece_block_allocation_new piece_id torrent peer_ids requested capacity =
     (case peer_ids of
        [] \<Rightarrow> Some (None, capacity)
      | peer_id # _ \<Rightarrow>
          Option.bind (allocate_torrent torrent) (\<lambda>a.
          Option.bind (u32_sub (as_u32 (length (ti_pieces (t_info torrent)))) 1) (\<lambda>last_piece_id.
          let piece_size = (if piece_id = last_piece_id then last_piece_size a else max_piece_size a) in
          map_option (\<lambda>(reqs, capacity'). (Some reqs, capacity'))
            (allocation_loop peer_id piece_id piece_size requested (block_begins piece_size) capacity))))"

section \<open>The tracker\<close>

record piece_block_tracker =
  pbt_max_outstanding_requests :: usize
  pbt_request_timeout :: duration
  pieces_not_started :: "u32 set"
  piece_to_blocks_outstanding :: inprogress_map
  pieces_completed :: "u32 set"

definition tracker_new :: "usize \<Rightarrow> v1_piece list \<Rightarrow> piece_block_tracker" where
  "tracker_new max_outstanding pieces =
     \<lparr>pbt_max_outstanding_requests = max_outstanding,
      pbt_request_timeout = 10 * 10 ^ 9,
      pieces_not_started = set (map as_u32 [0..<length pieces]),
      piece_to_blocks_outstanding = \<lparr>piece_to_blocks_started = empty_block_map, expirations = []\<rparr>,
      pieces_completed = {}\<rparr>"

abbreviation started :: "piece_block_tracker \<Rightarrow> piece_to_block_map" where
  "started t \<equiv> piece_to_blocks_started (piece_to_blocks_outstanding t)"

definition set_started :: "piece_to_block_map \<Rightarrow> piece_block_tracker \<Rightarrow> piece_block_tracker" where
  "set_started m t =
     t\<lparr>piece_to_blocks_outstanding := (piece_to_blocks_outstanding t)\<lparr>piece_to_blocks_started := m\<rparr>\<rparr>"

definition get_incomplete_pieces :: "piece_block_tracker \<Rightarrow> u32 set" where
  "get_incomplete_pieces t = ptb_pieces (started t) \<union> pieces_not_started t"

definition downloading_requests_len :: "piece_block_tracker \<Rightarrow> usize" where
  "downloading_requests_len t = ptb_downloading_requests_len (started t)"

definition outstanding_pieces_len :: "piece_block_tracker \<Rightarrow> usize" where
  "outstanding_pieces_len t = card (ptb_pieces (started t))"

definition pieces_completed_len :: "piece_block_tracker \<Rightarrow> usize" where
  "pieces_completed_len t = card (pieces_completed t)"

definition remove_request :: "peer_requested_piece \<Rightarrow> piece_block_tracker \<Rightarrow> bool \<times> piece_block_tracker" where
  "remove_request req t =
     (case ptb_remove_downloading_request (req_index req) (req_begin req) (started t) of
        (found, m) \<Rightarrow> (found, set_started m t))"

definition set_request_finished :: "u32 \<Rightarrow> u32 \<Rightarrow> piece_block_tracker \<Rightarrow> unit option \<times> piece_block_tracker" where
  "set_request_finished piece_id begin t =
     (case ptb_set_request_finished piece_id begin (started t) of (r, m) \<Rightarrow> (r, set_started m t))"

definition set_piece_finished :: "u32 \<Rightarrow> piece_block_tracker \<Rightarrow> piece_block_tracker" where
  "set_piece_finished piece_id t =
     (set_started (ptb_remove_piece piece_id (started t)) t)
       \<lparr>pieces_completed := insert piece_id (pieces_completed t)\<rparr>"

definition remove_expired :: "instant \<Rightarrow> piece_block_tracker \<Rightarrow> peer_requested_piece list \<times> piece_block_tracker" where
  "remove_expired now t =
     (case inprogress_remove_expired now (pbt_request_timeout t) (piece_to_blocks_outstanding t) of
        (expired, m) \<Rightarrow> (expired, t\<lparr>piece_to_blocks_outstanding := m\<rparr>))"

definition assign_piece ::
  "instant \<Rightarrow> v1_torrent \<Rightarrow> u32 \<Rightarrow> internal_peer_id list \<Rightarrow> piece_block_tracker \<Rightarrow>
     (peer_requested_piece list \<times> piece_block_tracker) option"
where
  "assign_piece now torrent piece_id peer_ids t =
     Option.bind (usize_sub (pbt_max_outstanding_requests t) (downloading_requests_len t)) (\<lambda>capacity.
     Option.bind (piece_block_allocation_new piece_id torrent peer_ids (started t) capacity) (\<lambda>(alloc, _).
     case alloc of
       None \<Rightarrow> Some ([], t)
     | Some reqs \<Rightarrow>
         (let t = (if reqs \<noteq> [] then t\<lparr>pieces_not_started := pieces_not_started t - {piece_id}\<rparr> else t) in
          Some (reqs,
            t\<lparr>piece_to_blocks_outstanding :=
                fold (inprogress_insert now) reqs (piece_to_blocks_outstanding t)\<rparr>))))"

text \<open>
  The pieces in ascending order, each with the peers it can be had from; \<open>iter\<close> is the
  iteration order of the sets and \<open>now\<close> the time read while a piece is assigned.
\<close>

fun generate_assignments ::
  "(internal_peer_id set \<Rightarrow> internal_peer_id list) \<Rightarrow> (u32 \<Rightarrow> instant) \<Rightarrow> v1_torrent \<Rightarrow>
     (u32, internal_peer_id set) btree \<Rightarrow> piece_block_tracker \<Rightarrow>
     (peer_requested_piece list \<times> piece_block_tracker) option"
where
  "generate_assignments iter now torrent [] t = Some ([], t)"
| "generate_assignments iter now torrent ((piece_id, peers) # available) t =
     Option.bind (assign_piece (now piece_id) torrent piece_id (iter peers) t) (\<lambda>(reqs, t').
     map_option (\<lambda>(reqs', t''). (reqs @ reqs', t'')) (generate_assignments iter now torrent available t'))"

section \<open>Nested maps\<close>

text \<open>
  The three ways the operations change a map of block maps: store a request, delete one, drop
  a piece. The facts below are what the proofs use; the code's formulas are unfolded only here.
\<close>

type_synonym block_maps = "(u32, outstanding_block_requests) btree"

definition nested_put :: "u32 \<Rightarrow> u32 \<Rightarrow> block_download \<Rightarrow> block_maps \<Rightarrow> block_maps" where
  "nested_put p b d m = bt_insert p (bt_insert b d (case bt_get m p of None \<Rightarrow> bt_empty | Some bm \<Rightarrow> bm)) m"

definition nested_del :: "u32 \<Rightarrow> u32 \<Rightarrow> block_maps \<Rightarrow> block_maps" where
  "nested_del p b m = (case bt_get m p of None \<Rightarrow> m | Some bm \<Rightarrow> bt_insert p (bt_remove b bm) m)"

definition nested_wf :: "block_maps \<Rightarrow> bool" where
  "nested_wf m \<longleftrightarrow> bt_wf m \<and> (\<forall>p bm. bt_get m p = Some bm \<longrightarrow> bt_wf bm)"

lemma nested_wf_empty [simp, inv_intros]: "nested_wf bt_empty" "visit_req_map bt_empty p b = None"
  by (simp_all add: nested_wf_def bt_empty_def visit_req_map_def)

lemma nested_wf_put [simp, inv_intros]: "nested_wf m \<Longrightarrow> nested_wf (nested_put p b d m)"
  by (auto simp: nested_wf_def nested_put_def bt_empty_def split: option.splits)

lemma nested_wf_del [simp, inv_intros]: "nested_wf m \<Longrightarrow> nested_wf (nested_del p b m)"
  by (auto simp: nested_wf_def nested_del_def split: option.splits)

lemma nested_wf_remove [simp, inv_intros]: "nested_wf m \<Longrightarrow> nested_wf (bt_remove p m)"
  by (auto simp: nested_wf_def)

lemma visit_put [simp]:
  "visit_req_map (nested_put p b d m) p' b' = (if p' = p \<and> b' = b then Some d else visit_req_map m p' b')"
  by (auto simp: visit_req_map_def nested_put_def bt_empty_def split: option.splits)

lemma visit_del [simp]:
  "nested_wf m \<Longrightarrow> visit_req_map (nested_del p b m) p' b' = (if p' = p \<and> b' = b then None else visit_req_map m p' b')"
  by (auto simp: visit_req_map_def nested_del_def nested_wf_def split: option.splits)

lemma visit_remove [simp]:
  "nested_wf m \<Longrightarrow> visit_req_map (bt_remove p m) p' b' = (if p' = p then None else visit_req_map m p' b')"
  by (auto simp: visit_req_map_def nested_wf_def split: option.splits)

lemma keys_put [simp]: "set (bt_keys (nested_put p b d m)) = insert p (set (bt_keys m))"
  by (simp add: nested_put_def)

lemma keys_del [simp]: "set (bt_keys (nested_del p b m)) = set (bt_keys m)"
  by (auto simp: nested_del_def split: option.splits) (rule bt_get_Some_key)

lemma keys_remove [simp]: "nested_wf m \<Longrightarrow> set (bt_keys (bt_remove p m)) = set (bt_keys m) - {p}"
  using bt.keys_get [of m] bt.keys_get [of "bt_remove p m"] by (auto simp: nested_wf_def)

lemma visit_Some_key: "visit_req_map m p b = Some d \<Longrightarrow> p \<in> set (bt_keys m)"
  by (auto simp: visit_req_map_def split: option.splits) (rule bt_get_Some_key)

lemma nested_sum_put:
  "nested_wf m \<Longrightarrow> bt_sum length (nested_put p b d m) =
     bt_sum length m + (if visit_req_map m p b = None then 1 else 0)"
  using bt_sum_insert [of m length p "bt_insert b d (case bt_get m p of None \<Rightarrow> bt_empty | Some bm \<Rightarrow> bm)"]
  by (auto simp: nested_put_def nested_wf_def visit_req_map_def length_bt_insert bt_empty_def split: option.splits)

lemma nested_sum_del:
  assumes "nested_wf m"
  shows "bt_sum length (nested_del p b m) + (if visit_req_map m p b = None then 0 else 1) = bt_sum length m"
proof (cases "bt_get m p")
  case (Some bm)
  have "bt_sum length (bt_insert p (bt_remove b bm) m) + length bm = bt_sum length m + length (bt_remove b bm)"
    using bt_sum_insert [of m length p "bt_remove b bm"] assms Some by (simp add: nested_wf_def)
  moreover have "length (bt_remove b bm) + (if bt_get bm b = None then 0 else 1) = length bm"
    by (cases bm) (auto simp: length_bt_remove)
  ultimately show ?thesis
    using Some by (simp add: nested_del_def visit_req_map_def)
qed (simp add: nested_del_def visit_req_map_def)

lemma nested_sum_remove: "nested_wf m \<Longrightarrow> bt_sum length (bt_remove p m) \<le> bt_sum length m"
  using bt_sum_remove [of m length p] by (auto simp: nested_wf_def split: option.splits)

text \<open>The operations of \<open>PieceToBlockMap\<close> in these terms.\<close>

lemma ptb_set_request_finished_eq:
  "ptb_set_request_finished p b m =
     (case visit_req_map (downloading m) p b of
        None \<Rightarrow> (None, m)
      | Some d \<Rightarrow> (Some (), m\<lparr>downloading := nested_del p b (downloading m),
                           blocks_done := nested_put p b d (blocks_done m)\<rparr>))"
proof (cases "bt_get (downloading m) p")
  case (Some bm)
  then show ?thesis
    by (cases "bt_get bm b")
      (simp_all add: ptb_set_request_finished_def visit_req_map_def nested_del_def nested_put_def Let_def)
qed (simp add: ptb_set_request_finished_def visit_req_map_def)

lemma ptb_remove_downloading_request_eq:
  "ptb_remove_downloading_request p b m =
     (p \<in> set (bt_keys (downloading m)), m\<lparr>downloading := nested_del p b (downloading m)\<rparr>)"
proof (cases "bt_get (downloading m) p")
  case None
  moreover from this have "p \<notin> set (bt_keys (downloading m))" by (simp only: bt_get_None_iff not_False_eq_True)
  ultimately show ?thesis by (simp add: ptb_remove_downloading_request_def nested_del_def)
next
  case (Some bm)
  moreover from this have "p \<in> set (bt_keys (downloading m))" by (rule bt_get_Some_key)
  ultimately show ?thesis by (simp add: ptb_remove_downloading_request_def nested_del_def)
qed

lemma ptb_insert_request_eq:
  "ptb_insert_request r m =
     m\<lparr>downloading := nested_put (req_index r) (req_begin r) \<lparr>bd_piece_request = r\<rparr> (downloading m)\<rparr>"
  by (simp add: ptb_insert_request_def nested_put_def Let_def)

lemma contains_inprogress_None_iff:
  "contains_inprogress m p b = None \<longleftrightarrow>
     visit_req_map (downloading m) p b = None \<and> visit_req_map (blocks_done m) p b = None"
  by (auto simp: contains_inprogress_def split: option.splits)

lemma ptb_pieces_eq: "ptb_pieces m = set (bt_keys (downloading m)) \<union> set (bt_keys (blocks_done m))"
  by (simp add: ptb_pieces_def)

section \<open>The blocks of a piece\<close>

text \<open>
  Offsets and lengths of the blocks a piece of \<open>n\<close> bytes is requested in. They tile the piece,
  which is what makes the slice tracker of the store report it complete.
\<close>

definition piece_blocks :: "usize \<Rightarrow> (u32 \<times> u32) list" where
  "piece_blocks n = map (\<lambda>b. (as_u32 b, as_u32 (min PIECE_BLOCK_SIZE (n - b)))) (block_begins n)"

lemma in_block_begins: "b \<in> set (block_begins n) \<longleftrightarrow> b < n \<and> PIECE_BLOCK_SIZE dvd b"
proof
  assume "b \<in> set (block_begins n)"
  then obtain k where k: "b = k * PIECE_BLOCK_SIZE" "k < (n + PIECE_BLOCK_SIZE - 1) div PIECE_BLOCK_SIZE"
    unfolding block_begins_def by force
  then have "b < n" by (simp add: PIECE_BLOCK_SIZE_def)
  then show "b < n \<and> PIECE_BLOCK_SIZE dvd b" using k by simp
next
  assume "b < n \<and> PIECE_BLOCK_SIZE dvd b"
  then obtain k where k: "b = k * PIECE_BLOCK_SIZE" "b < n" by (auto simp: dvd_def mult.commute)
  then have "k < (n + PIECE_BLOCK_SIZE - 1) div PIECE_BLOCK_SIZE" by (simp add: PIECE_BLOCK_SIZE_def)
  then show "b \<in> set (block_begins n)" using k by (auto simp: block_begins_def)
qed

lemma sorted_block_begins: "sorted_wrt (\<lambda>b c. b + PIECE_BLOCK_SIZE \<le> c) (block_begins n)"
  by (auto simp: block_begins_def sorted_wrt_iff_nth_less PIECE_BLOCK_SIZE_def)

lemma distinct_block_begins [simp]: "distinct (block_begins n)"
  by (simp add: block_begins_def distinct_map inj_on_def PIECE_BLOCK_SIZE_def)

lemma block_length_eq:
  assumes "b \<in> set (block_begins n)" "n \<le> usize_max - PIECE_BLOCK_SIZE"
  shows "block_length n b = Some (min PIECE_BLOCK_SIZE (n - b))"
  using assms by (auto simp: block_length_def usize_add_def in_block_begins usize_max_def PIECE_BLOCK_SIZE_def)

lemma block_bounds:
  assumes "b \<in> set (block_begins n)" "n < 2 ^ 32"
  shows "unat (as_u32 b) = b" "unat (as_u32 (min PIECE_BLOCK_SIZE (n - b))) = min PIECE_BLOCK_SIZE (n - b)"
    "0 < min PIECE_BLOCK_SIZE (n - b)" "b + min PIECE_BLOCK_SIZE (n - b) \<le> n"
  using assms by (auto simp: in_block_begins PIECE_BLOCK_SIZE_def min_def)

lemma block_range_eq:
  assumes "b \<in> set (block_begins n)" "n < 2 ^ 32"
  shows "block_range (as_u32 b, as_u32 (min PIECE_BLOCK_SIZE (n - b))) = {b..<min (b + PIECE_BLOCK_SIZE) n}"
proof -
  have "b < n" using assms(1) by (simp add: in_block_begins)
  then have "b + min PIECE_BLOCK_SIZE (n - b) = min (b + PIECE_BLOCK_SIZE) n" by linarith
  then show ?thesis unfolding block_range.simps block_bounds(1,2) [OF assms] by simp
qed

lemma piece_blocks_cover:
  assumes "n < 2 ^ 32"
  shows "\<Union> (block_range ` set (piece_blocks n)) = {..<n}"
proof -
  have "x \<in> (\<Union>b \<in> set (block_begins n). {b..<min (b + PIECE_BLOCK_SIZE) n}) \<longleftrightarrow> x < n" for x
  proof
    assume "x < n"
    let ?b = "x div PIECE_BLOCK_SIZE * PIECE_BLOCK_SIZE"
    have "?b \<le> x" "x < ?b + PIECE_BLOCK_SIZE" by (simp_all add: PIECE_BLOCK_SIZE_def)
    then show "x \<in> (\<Union>b \<in> set (block_begins n). {b..<min (b + PIECE_BLOCK_SIZE) n})"
      using order_le_less_trans [OF \<open>?b \<le> x\<close> \<open>x < n\<close>] \<open>x < n\<close>
      by (intro UN_I [of ?b]) (auto simp: in_block_begins)
  qed auto
  then show ?thesis
    using block_range_eq [OF _ assms] by (auto simp: piece_blocks_def set_eq_iff)
qed

lemma piece_blocks_disjoint:
  assumes "n < 2 ^ 32"
  shows "disjoint_blocks (piece_blocks n)"
  unfolding disjoint_blocks_def piece_blocks_def sorted_wrt_map
proof (rule sorted_wrt_mono_rel [OF _ sorted_block_begins])
  fix b c assume bc: "b \<in> set (block_begins n)" "c \<in> set (block_begins n)" "b + PIECE_BLOCK_SIZE \<le> c"
  then show "block_range (as_u32 b, as_u32 (min PIECE_BLOCK_SIZE (n - b))) \<inter>
      block_range (as_u32 c, as_u32 (min PIECE_BLOCK_SIZE (n - c))) = {}"
    unfolding block_range_eq [OF bc(1) assms] block_range_eq [OF bc(2) assms] by auto
qed

lemma disjoint_blocks_perm:
  assumes "disjoint_blocks xs" "mset ys = mset xs" "\<forall>x \<in> set xs. block_range x \<noteq> {}"
  shows "disjoint_blocks ys"
proof -
  have sym: "\<And>x y. block_range x \<inter> block_range y = {} \<Longrightarrow> block_range y \<inter> block_range x = {}" by auto
  have d: "distinct xs"
    using assms(1,3) unfolding disjoint_blocks_def
    by (induction xs) auto
  then have dy: "distinct ys" "set ys = set xs"
    using assms(2) mset_eq_imp_distinct_iff mset_eq_setD by metis+
  have "\<forall>x \<in> set xs. \<forall>y \<in> set xs. x \<noteq> y \<longrightarrow> block_range x \<inter> block_range y = {}"
    using assms(1) unfolding disjoint_blocks_def by (induction xs) auto
  moreover have "ys ! i \<in> set xs \<and> ys ! j \<in> set xs \<and> ys ! i \<noteq> ys ! j" if "i < j" "j < length ys" for i j
    using dy that nth_mem [of i ys] nth_mem [of j ys] by (simp add: nth_eq_iff_index_eq)
  ultimately show ?thesis
    unfolding disjoint_blocks_def sorted_wrt_iff_nth_less by blast
qed

text \<open>Whatever order the blocks of a piece are answered in, the last one completes it.\<close>

lemma piece_blocks_complete:
  assumes "0 < n" "n < 2 ^ 32" "mset blocks = mset (piece_blocks n)"
  shows "\<exists>s. slices_run (slices_new n) blocks = Some (True, s) \<and> is_complete s"
proof -
  have set_eq: "set blocks = set (piece_blocks n)" using assms(3) by (rule mset_eq_setD)
  have ok: "\<forall>(b, l) \<in> set (piece_blocks n). 0 < l \<and> unat b + unat l \<le> n"
    using block_bounds [OF _ assms(2)] by (auto simp: piece_blocks_def word_less_nat_alt)
  then have "disjoint_blocks blocks"
    by (intro disjoint_blocks_perm [OF piece_blocks_disjoint [OF assms(2)] assms(3)])
      (auto simp: word_less_nat_alt)
  moreover have "\<forall>(b, l) \<in> set blocks. 0 < l \<and> unat b + unat l < 2 ^ 32"
    using ok assms(2) by (fastforce simp: set_eq)
  ultimately obtain s where s: "slices_run (slices_new n) blocks = Some (is_complete s, s)"
    "separated (sl_slices s)" "recorded s = {..<n}" "sl_expected_size s = n"
    using slices_run_exact [of "slices_new n" blocks] piece_blocks_cover [OF assms(2)]
    by (auto simp: slices_new_def recorded_def set_eq)
  then show ?thesis using is_complete_iff [OF s(2)] assms(1,2) by auto
qed

section \<open>The order of a set's iteration\<close>

locale hash_iteration =
  fixes iter :: "internal_peer_id set \<Rightarrow> internal_peer_id list"
  assumes set_iter: "finite S \<Longrightarrow> set (iter S) = S"
    and distinct_iter: "finite S \<Longrightarrow> distinct (iter S)"
begin

lemma iter_empty [simp]: "iter {} = []"
  using set_iter [of "{}"] by simp

lemma iter_Cons_in: "finite S \<Longrightarrow> iter S = p # ps \<Longrightarrow> p \<in> S"
  using set_iter [of S] by auto

lemma iter_Nil_iff: "finite S \<Longrightarrow> iter S = [] \<longleftrightarrow> S = {}"
  using set_iter [of S] by auto

end

text \<open>One such order: peer ids sorted as byte strings.\<close>

definition sorted_iter :: "internal_peer_id set \<Rightarrow> internal_peer_id list" where
  "sorted_iter S = sorted_list_of_set S"

interpretation sorted_iter: hash_iteration sorted_iter
  by unfold_locales (simp_all add: sorted_iter_def)

end
