(* ===== verification/Transition.thy ===== *)
theory Transition
  imports Prelude
begin

text \<open>
  State machines: the states reachable from the initial ones by labelled steps, and the
  locale of an invariant. A component gives its initial states, its step relation (a label is
  the operation with its arguments) and an invariant; the interpretation discharges that the
  invariant holds at first and that every step keeps it, and the facts below then hold of every
  reachable state. The locale of a simulation carries such facts from one machine to another.
\<close>

inductive reachable :: "('s \<Rightarrow> bool) \<Rightarrow> ('s \<Rightarrow> 'l \<Rightarrow> 's \<Rightarrow> bool) \<Rightarrow> 's \<Rightarrow> bool"
  for init :: "'s \<Rightarrow> bool" and step :: "'s \<Rightarrow> 'l \<Rightarrow> 's \<Rightarrow> bool"
where
  start: "init s \<Longrightarrow> reachable init step s"
| next_state: "reachable init step s \<Longrightarrow> step s l s' \<Longrightarrow> reachable init step s'"

text \<open>A run: the steps of a list of labels, one after the other.\<close>

inductive run :: "('s \<Rightarrow> 'l \<Rightarrow> 's \<Rightarrow> bool) \<Rightarrow> 's \<Rightarrow> 'l list \<Rightarrow> 's \<Rightarrow> bool"
  for step :: "'s \<Rightarrow> 'l \<Rightarrow> 's \<Rightarrow> bool"
where
  run_Nil: "run step s [] s"
| run_Cons: "step s l s' \<Longrightarrow> run step s' ls s'' \<Longrightarrow> run step s (l # ls) s''"

inductive_cases run_NilE: "run step s [] s'"
inductive_cases run_ConsE: "run step s (l # ls) s'"

lemma run_append: "run step s ls s' \<Longrightarrow> run step s' ls' s'' \<Longrightarrow> run step s (ls @ ls') s''"
  by (induction rule: run.induct) (auto intro: run_Cons)

lemma run_reachable: "run step s ls s' \<Longrightarrow> reachable init step s \<Longrightarrow> reachable init step s'"
  by (induction rule: run.induct) (auto intro: next_state)

lemma reachable_mono: "reachable init step s \<Longrightarrow> (\<And>s. init s \<Longrightarrow> init' s) \<Longrightarrow> reachable init' step s"
  by (induction rule: reachable.induct) (auto intro: start next_state)

locale invariant_system =
  fixes init :: "'s \<Rightarrow> bool"
    and step :: "'s \<Rightarrow> 'l \<Rightarrow> 's \<Rightarrow> bool"
    and inv :: "'s \<Rightarrow> bool"
  assumes init_inv: "init s \<Longrightarrow> inv s"
    and step_inv: "inv s \<Longrightarrow> step s l s' \<Longrightarrow> inv s'"
begin

lemma reachable_inv: "reachable init step s \<Longrightarrow> inv s"
  by (induction rule: reachable.induct) (auto intro: init_inv step_inv)

lemma run_inv: "run step s ls s' \<Longrightarrow> inv s \<Longrightarrow> inv s'"
  by (induction rule: run.induct) (auto intro: step_inv)

text \<open>A fact about single steps from states that satisfy the invariant, along a whole run.\<close>

lemma run_induct_inv:
  assumes "run step s ls s'" "inv s"
    and "\<And>s. Q s s" "\<And>s l s' s''. inv s \<Longrightarrow> step s l s' \<Longrightarrow> Q s' s'' \<Longrightarrow> Q s s''"
  shows "Q s s'"
  using assms(1,2)
  by (induction rule: run.induct) (auto intro: assms(3,4) step_inv)

end

text \<open>
  Refinement: seen through \<open>view\<close>, every step of the detailed machine is a step of the other
  one or changes nothing. What holds of the reachable states of the second holds of the views
  of the first.
\<close>

locale simulation =
  fixes init :: "'s \<Rightarrow> bool"
    and step :: "'s \<Rightarrow> 'l \<Rightarrow> 's \<Rightarrow> bool"
    and init' :: "'t \<Rightarrow> bool"
    and step' :: "'t \<Rightarrow> 'k \<Rightarrow> 't \<Rightarrow> bool"
    and view :: "'s \<Rightarrow> 't"
  assumes init_view: "init s \<Longrightarrow> init' (view s)"
    and step_view: "step s l s' \<Longrightarrow> view s' = view s \<or> (\<exists>k. step' (view s) k (view s'))"
begin

lemma reachable_view: "reachable init step s \<Longrightarrow> reachable init' step' (view s)"
  by (induction rule: reachable.induct) (metis init_view reachable.start, metis step_view reachable.next_state)

end

end
