(* ===== verification/Tracker_Invariant.thy ===== *)
theory Tracker_Invariant
  imports Piece_Tracker Transition
begin

text \<open>
  What the piece tracker of \<open>Piece_Tracker\<close> keeps true, over every sequence of its operations:
  requests in flight never exceed the configured maximum (so the subtraction in
  \<open>assign_piece\<close> cannot panic), a block is downloading or done but not both, a piece that is
  started is not in the "not started" set, every request in flight has an entry in the expiry
  queue, and every piece of the torrent is not started, started or completed.
\<close>

section \<open>What the assignment computes\<close>

text \<open>The torrents whose offsets fit the protocol's 32-bit fields.\<close>

definition torrent_ok :: "v1_torrent \<Rightarrow> bool" where
  "torrent_ok torrent \<longleftrightarrow>
     torrent_wf torrent \<and> length (ti_pieces (t_info torrent)) < 2 ^ 32 \<and>
     i64_as_usize (ti_piece_length (t_info torrent)) < 2 ^ 32"

definition assigned_size :: "v1_torrent \<Rightarrow> u32 \<Rightarrow> usize" where
  "assigned_size torrent piece_id =
     (let a = the (allocate_torrent torrent) in
      if Suc (unat piece_id) = length (ti_pieces (t_info torrent)) then last_piece_size a else max_piece_size a)"

definition mk_request :: "internal_peer_id \<Rightarrow> u32 \<Rightarrow> usize \<Rightarrow> usize \<Rightarrow> peer_requested_piece" where
  "mk_request peer_id piece_id psize b =
     \<lparr>req_peer_id = peer_id, req_index = piece_id, req_begin = as_u32 b,
      req_length = as_u32 (min PIECE_BLOCK_SIZE (psize - b))\<rparr>"

definition fresh_blocks :: "piece_to_block_map \<Rightarrow> u32 \<Rightarrow> usize \<Rightarrow> usize list" where
  "fresh_blocks m piece_id psize = filter (\<lambda>b. contains_inprogress m piece_id (as_u32 b) = None) (block_begins psize)"

lemma allocation_loop_eq:
  assumes "\<forall>b \<in> set begins. block_length psize b = Some (min PIECE_BLOCK_SIZE (psize - b))"
  shows "allocation_loop peer_id piece_id psize m begins capacity =
    (let bs = take capacity (filter (\<lambda>b. contains_inprogress m piece_id (as_u32 b) = None) begins) in
     Some (map (mk_request peer_id piece_id psize) bs, capacity - length bs))"
  using assms
proof (induction begins arbitrary: capacity)
  case (Cons b begins)
  show ?case
  proof (cases capacity)
    case (Suc k)
    then show ?thesis
      using Cons by (auto simp: Let_def mk_request_def)
  qed simp
qed simp

lemma torrent_ok_allocate:
  assumes "torrent_ok torrent"
  obtains a where "allocate_torrent torrent = Some a" "0 < length (ti_pieces (t_info torrent))"
    "0 < last_piece_size a" "last_piece_size a \<le> max_piece_size a" "max_piece_size a < 2 ^ 32"
    "length (ti_pieces (t_info torrent)) < 2 ^ 32" "total_pieces a = length (ti_pieces (t_info torrent))"
proof -
  obtain a where a: "allocate_torrent torrent = Some a" "0 < last_piece_size a"
    "last_piece_size a \<le> max_piece_size a"
    using torrent_wf_allocate assms by (auto simp: torrent_ok_def)
  then show ?thesis
    using assms that [of a] by (auto simp: torrent_ok_def allocate_torrent_Some_iff Let_def)
qed

lemma assigned_size_bounds:
  assumes "torrent_ok torrent"
  shows "0 < assigned_size torrent piece_id" "assigned_size torrent piece_id < 2 ^ 32"
  using assms by (auto elim!: torrent_ok_allocate simp: assigned_size_def)

lemma last_id_eq:
  assumes "0 < n" "n < 2 ^ 32"
  shows "u32_sub (as_u32 n) 1 = Some (as_u32 (n - 1))" "piece_id = as_u32 (n - 1) \<longleftrightarrow> Suc (unat piece_id) = n"
proof -
  have "as_u32 n = as_u32 (n - 1) + 1"
    using assms(1) by (metis Suc_diff_1 add.commute as_u32_Suc)
  then have "as_u32 n - 1 = as_u32 (n - 1)" by simp
  moreover have "unat (1 :: u32) \<le> unat (as_u32 n)" using assms by simp
  ultimately show "u32_sub (as_u32 n) 1 = Some (as_u32 (n - 1))"
    by (simp only: u32_sub_def if_True)
  show "piece_id = as_u32 (n - 1) \<longleftrightarrow> Suc (unat piece_id) = n"
    using assms by (auto simp: word_unat_eq_iff)
qed

lemma piece_block_allocation_eq:
  assumes "torrent_ok torrent"
  shows "piece_block_allocation_new piece_id torrent (p # ps) m capacity =
    (let bs = take capacity (fresh_blocks m piece_id (assigned_size torrent piece_id)) in
     Some (Some (map (mk_request p piece_id (assigned_size torrent piece_id)) bs), capacity - length bs))"
proof -
  obtain a where a: "allocate_torrent torrent = Some a" "0 < length (ti_pieces (t_info torrent))"
    "length (ti_pieces (t_info torrent)) < 2 ^ 32"
    using assms by (rule torrent_ok_allocate)
  have "assigned_size torrent piece_id \<le> usize_max - PIECE_BLOCK_SIZE"
    using assigned_size_bounds(2) [OF assms, of piece_id] by (simp add: usize_max_def PIECE_BLOCK_SIZE_def)
  then have blocks: "\<forall>b \<in> set (block_begins (assigned_size torrent piece_id)).
      block_length (assigned_size torrent piece_id) b = Some (min PIECE_BLOCK_SIZE (assigned_size torrent piece_id - b))"
    using block_length_eq by blast
  have psize: "(if piece_id = as_u32 (length (ti_pieces (t_info torrent)) - 1) then last_piece_size a else max_piece_size a) =
      assigned_size torrent piece_id"
    unfolding last_id_eq(2) [OF a(2,3)] by (simp add: assigned_size_def a(1))
  show ?thesis
    by (simp add: piece_block_allocation_new_def a(1) last_id_eq(1) [OF a(2,3)] psize Let_def
        allocation_loop_eq [OF blocks] fresh_blocks_def del: One_nat_def)
qed

text \<open>\<open>assign_piece\<close> on a tracker within its limit.\<close>

definition assigned :: "v1_torrent \<Rightarrow> u32 \<Rightarrow> internal_peer_id list \<Rightarrow> piece_block_tracker \<Rightarrow> peer_requested_piece list" where
  "assigned torrent piece_id peers t =
     (case peers of
        [] \<Rightarrow> []
      | p # _ \<Rightarrow>
          map (mk_request p piece_id (assigned_size torrent piece_id))
            (take (pbt_max_outstanding_requests t - downloading_requests_len t)
              (fresh_blocks (started t) piece_id (assigned_size torrent piece_id))))"

lemma assign_piece_eq:
  assumes "torrent_ok torrent" "downloading_requests_len t \<le> pbt_max_outstanding_requests t"
  shows "assign_piece now torrent piece_id peers t =
    (let reqs = assigned torrent piece_id peers t in
     Some (reqs, t\<lparr>pieces_not_started := (if reqs = [] then pieces_not_started t else pieces_not_started t - {piece_id}),
       piece_to_blocks_outstanding := fold (inprogress_insert now) reqs (piece_to_blocks_outstanding t)\<rparr>))"
proof (cases peers)
  case Nil
  then show ?thesis
    using assms(2) by (simp add: assign_piece_def usize_sub_def piece_block_allocation_new_def assigned_def)
next
  case (Cons p ps)
  then show ?thesis
    using assms(2)
    by (simp add: assign_piece_def usize_sub_def piece_block_allocation_eq [OF assms(1)] assigned_def Let_def)
qed

section \<open>Keys of requests\<close>

definition req_key :: "peer_requested_piece \<Rightarrow> u32 \<times> u32" where
  "req_key r = (req_index r, req_begin r)"

definition key_pair :: "piece_to_block_key \<Rightarrow> u32 \<times> u32" where
  "key_pair k = (key_piece_id k, key_block_begin k)"

text \<open>The blocks in flight and the blocks that are done, by piece and offset.\<close>

definition in_flight :: "piece_to_block_map \<Rightarrow> (u32 \<times> u32) set" where
  "in_flight m = {(p, b). visit_req_map (downloading m) p b \<noteq> None}"

definition finished_blocks :: "piece_to_block_map \<Rightarrow> (u32 \<times> u32) set" where
  "finished_blocks m = {(p, b). visit_req_map (blocks_done m) p b \<noteq> None}"

lemma in_flight_simps [simp]:
  "in_flight empty_block_map = {}"
  "in_flight (m\<lparr>downloading := nested_put p b d (downloading m)\<rparr>) = insert (p, b) (in_flight m)"
  "in_flight (m\<lparr>blocks_done := x\<rparr>) = in_flight m"
  by (auto simp: in_flight_def empty_block_map_def)

lemma finished_blocks_simps [simp]:
  "finished_blocks empty_block_map = {}"
  "x = blocks_done m \<Longrightarrow> finished_blocks (m\<lparr>blocks_done := nested_put p b d x\<rparr>) = insert (p, b) (finished_blocks m)"
  "finished_blocks (m\<lparr>downloading := y\<rparr>) = finished_blocks m"
  by (auto simp: finished_blocks_def empty_block_map_def)

lemma in_flight_del [simp]:
  "nested_wf (downloading m) \<Longrightarrow> in_flight (m\<lparr>downloading := nested_del p b (downloading m)\<rparr>) = in_flight m - {(p, b)}"
  by (auto simp: in_flight_def)

lemma in_flight_pieces: "(p, b) \<in> in_flight m \<Longrightarrow> p \<in> ptb_pieces m"
  by (auto simp: in_flight_def ptb_pieces_eq intro: visit_Some_key)

lemma finished_pieces: "(p, b) \<in> finished_blocks m \<Longrightarrow> p \<in> ptb_pieces m"
  by (auto simp: finished_blocks_def ptb_pieces_eq intro: visit_Some_key)

lemma contains_inprogress_iff:
  "contains_inprogress m p b = None \<longleftrightarrow> (p, b) \<notin> in_flight m \<and> (p, b) \<notin> finished_blocks m"
  by (simp add: contains_inprogress_None_iff in_flight_def finished_blocks_def)

lemma assigned_keys:
  assumes "torrent_ok torrent"
  shows "distinct (map req_key (assigned torrent piece_id peers t))"
    and "r \<in> set (assigned torrent piece_id peers t) \<Longrightarrow> req_index r = piece_id \<and>
      req_key r \<notin> in_flight (started t) \<and> req_key r \<notin> finished_blocks (started t) \<and>
      (req_begin r, req_length r) \<in> set (piece_blocks (assigned_size torrent piece_id)) \<and>
      peers \<noteq> [] \<and> req_peer_id r = hd peers"
proof -
  let ?n = "assigned_size torrent piece_id"
  have inj: "inj_on as_u32 (set (block_begins ?n))"
    using block_bounds(1) [OF _ assigned_size_bounds(2) [OF assms]] by (metis inj_onI)
  have sub: "set (take k (fresh_blocks m piece_id ?n)) \<subseteq> set (block_begins ?n)" for k m
    using set_take_subset by (fastforce simp: fresh_blocks_def)
  have "distinct (map as_u32 (take k (fresh_blocks m piece_id ?n)))" for k m
    unfolding distinct_map using inj_on_subset [OF inj sub]
    by (simp add: fresh_blocks_def distinct_take)
  then have "distinct (map (Pair piece_id) (map as_u32 (take k (fresh_blocks m piece_id ?n))))" for k m
    by (subst distinct_map) (simp add: inj_on_def)
  then show "distinct (map req_key (assigned torrent piece_id peers t))"
    by (cases peers) (simp_all add: assigned_def req_key_def mk_request_def comp_def)
  show "r \<in> set (assigned torrent piece_id peers t) \<Longrightarrow> req_index r = piece_id \<and>
      req_key r \<notin> in_flight (started t) \<and> req_key r \<notin> finished_blocks (started t) \<and>
      (req_begin r, req_length r) \<in> set (piece_blocks ?n) \<and> peers \<noteq> [] \<and> req_peer_id r = hd peers"
    by (cases peers) (auto simp: assigned_def mk_request_def req_key_def fresh_blocks_def piece_blocks_def
        contains_inprogress_iff dest!: in_set_takeD)
qed

lemma length_assigned: "length (assigned torrent piece_id peers t) \<le> pbt_max_outstanding_requests t - downloading_requests_len t"
  by (simp add: assigned_def split: list.split)

section \<open>The invariant\<close>

definition maps_ok :: "piece_to_block_map \<Rightarrow> bool" where
  "maps_ok m \<longleftrightarrow>
     nested_wf (downloading m) \<and> nested_wf (blocks_done m) \<and>
     (\<forall>p b d. visit_req_map (downloading m) p b = Some d \<longrightarrow> req_key (bd_piece_request d) = (p, b)) \<and>
     in_flight m \<inter> finished_blocks m = {}"

definition queued :: "(instant \<times> piece_to_block_key) list \<Rightarrow> (u32 \<times> u32) set" where
  "queued q = key_pair ` snd ` set q"

definition tracker_inv :: "nat \<Rightarrow> piece_block_tracker \<Rightarrow> bool" where
  "tracker_inv n t \<longleftrightarrow>
     maps_ok (started t) \<and>
     downloading_requests_len t \<le> pbt_max_outstanding_requests t \<and>
     pieces_not_started t \<inter> ptb_pieces (started t) = {} \<and>
     in_flight (started t) \<subseteq> queued (expirations (piece_to_blocks_outstanding t)) \<and>
     as_u32 ` {..<n} \<subseteq> pieces_not_started t \<union> ptb_pieces (started t) \<union> pieces_completed t"

lemma queued_simps [simp]: "queued [] = {}" "queued ((i, k) # q) = insert (key_pair k) (queued q)"
  "queued (q @ q') = queued q \<union> queued q'"
  by (auto simp: queued_def)

lemma maps_ok_empty [simp]: "maps_ok empty_block_map"
  by (simp add: maps_ok_def) (simp add: empty_block_map_def)

lemma in_flight_len: "maps_ok m \<Longrightarrow> ptb_downloading_requests_len (m\<lparr>downloading := nested_del p b (downloading m)\<rparr>) +
    (if (p, b) \<in> in_flight m then 1 else 0) = ptb_downloading_requests_len m"
  using nested_sum_del [of "downloading m" p b]
  by (auto simp: maps_ok_def ptb_downloading_requests_len_def in_flight_def)

lemma maps_ok_del [inv_intros]: "maps_ok m \<Longrightarrow> maps_ok (m\<lparr>downloading := nested_del p b (downloading m)\<rparr>)"
  by (auto simp: maps_ok_def)

lemma ptb_pieces_del [simp]: "ptb_pieces (m\<lparr>downloading := nested_del p b (downloading m)\<rparr>) = ptb_pieces m"
  by (simp add: ptb_pieces_eq)

subsection \<open>Storing the assigned requests\<close>

lemma insert_one:
  assumes "maps_ok m" "req_key r \<notin> in_flight m" "req_key r \<notin> finished_blocks m"
  shows "maps_ok (ptb_insert_request r m)"
    "in_flight (ptb_insert_request r m) = insert (req_key r) (in_flight m)"
    "finished_blocks (ptb_insert_request r m) = finished_blocks m"
    "ptb_pieces (ptb_insert_request r m) = insert (req_index r) (ptb_pieces m)"
    "ptb_downloading_requests_len (ptb_insert_request r m) = Suc (ptb_downloading_requests_len m)"
proof -
  show "maps_ok (ptb_insert_request r m)"
    using assms by (auto simp: maps_ok_def ptb_insert_request_eq req_key_def)
  show "ptb_downloading_requests_len (ptb_insert_request r m) = Suc (ptb_downloading_requests_len m)"
    using assms by (auto simp: maps_ok_def ptb_insert_request_eq ptb_downloading_requests_len_def nested_sum_put
        in_flight_def req_key_def)
qed (auto simp: ptb_insert_request_eq req_key_def ptb_pieces_eq)

lemma insert_all:
  fixes now :: instant
  assumes "maps_ok (piece_to_blocks_started m)" "distinct (map req_key rs)"
    "\<forall>r \<in> set rs. req_key r \<notin> in_flight (piece_to_blocks_started m) \<and> req_key r \<notin> finished_blocks (piece_to_blocks_started m)"
  defines "m' \<equiv> fold (inprogress_insert now) rs m"
  shows "maps_ok (piece_to_blocks_started m') \<and>
    in_flight (piece_to_blocks_started m') = req_key ` set rs \<union> in_flight (piece_to_blocks_started m) \<and>
    finished_blocks (piece_to_blocks_started m') = finished_blocks (piece_to_blocks_started m) \<and>
    ptb_pieces (piece_to_blocks_started m') = req_index ` set rs \<union> ptb_pieces (piece_to_blocks_started m) \<and>
    ptb_downloading_requests_len (piece_to_blocks_started m') =
      ptb_downloading_requests_len (piece_to_blocks_started m) + length rs \<and>
    expirations m' = expirations m @ map (\<lambda>r. (now, \<lparr>key_piece_id = req_index r, key_block_begin = req_begin r\<rparr>)) rs"
  using assms(1-3) unfolding m'_def
proof (induction rs arbitrary: m)
  case Nil
  then show ?case by simp
next
  case (Cons r rs)
  let ?m = "inprogress_insert now r m"
  have m: "piece_to_blocks_started ?m = ptb_insert_request r (piece_to_blocks_started m)"
    "expirations ?m = expirations m @ [(now, \<lparr>key_piece_id = req_index r, key_block_begin = req_begin r\<rparr>)]"
    by (simp_all add: inprogress_insert_def Let_def)
  have fresh: "req_key r \<notin> in_flight (piece_to_blocks_started m)" "req_key r \<notin> finished_blocks (piece_to_blocks_started m)"
    using Cons.prems(3) by simp_all
  note one = insert_one [OF Cons.prems(1) fresh]
  have "\<forall>r' \<in> set rs. req_key r' \<notin> in_flight (piece_to_blocks_started ?m) \<and>
      req_key r' \<notin> finished_blocks (piece_to_blocks_started ?m)"
    unfolding m one using Cons.prems(2,3) by (auto simp: image_iff)
  moreover have "maps_ok (piece_to_blocks_started ?m)" "distinct (map req_key rs)"
    using Cons.prems(2) one(1) by (simp_all add: m)
  ultimately show ?case
    using Cons.IH [of ?m] by (simp add: m one)
qed

subsection \<open>Expiry\<close>

definition expired :: "instant \<Rightarrow> duration \<Rightarrow> instant \<Rightarrow> bool" where
  "expired now ttl t0 \<longleftrightarrow> ttl \<le> now - t0"

lemma lived_time: "(case checked_duration_since now t0 of Some d \<Rightarrow> d | None \<Rightarrow> 0) = now - t0"
  by (simp add: checked_duration_since_def)

text \<open>
  The loop takes a prefix of the queue: all its entries are old, and the next one is not. Of
  those entries the requests that are still in flight are reported and given up.
\<close>

definition expire_post ::
  "instant \<Rightarrow> duration \<Rightarrow> piece_to_block_map \<Rightarrow> (instant \<times> piece_to_block_key) list \<Rightarrow> peer_requested_piece list \<Rightarrow>
     (instant \<times> piece_to_block_key) list \<Rightarrow> piece_to_block_map \<Rightarrow> bool"
where
  "expire_post now ttl m pre acc q' m' \<longleftrightarrow>
     (\<forall>(t0, k) \<in> set pre. expired now ttl t0) \<and> (q' \<noteq> [] \<longrightarrow> \<not> expired now ttl (fst (hd q'))) \<and>
     maps_ok m' \<and> in_flight m' = in_flight m - queued pre \<and> finished_blocks m' = finished_blocks m \<and>
     ptb_pieces m' = ptb_pieces m \<and> req_key ` set acc = in_flight m \<inter> queued pre \<and>
     ptb_downloading_requests_len m' + length acc = ptb_downloading_requests_len m"

lemma expire_loop_spec:
  assumes "expire_loop now ttl q m = (acc, q', m')" "maps_ok m"
  shows "\<exists>pre. q = pre @ q' \<and> expire_post now ttl m pre acc q' m'"
  using assms
proof (induction now ttl q m arbitrary: acc q' m' rule: expire_loop.induct)
  case (1 time ttl m)
  then show ?case by (simp add: expire_post_def)
next
  case (2 time ttl t0 k q m)
  let ?p = "key_piece_id k" and ?b = "key_block_begin k"
  show ?case
  proof (cases "ttl \<le> time - t0")
    case False
    then show ?thesis
      using 2(4,5) by (intro exI [of _ "[]"]) (auto simp: lived_time expired_def expire_post_def)
  next
    case old: True
    have wf: "nested_wf (downloading m)" using 2(5) by (simp add: maps_ok_def)
    show ?thesis
    proof (cases "visit_req_map (downloading m) ?p ?b")
      case None
      have fresh: "key_pair k \<notin> in_flight m" using None by (simp add: in_flight_def key_pair_def)
      have loop: "expire_loop time ttl q m = (acc, q', m')"
        using old None 2(4) by (auto simp: lived_time visit_req_map_def split: option.splits)
      have "\<exists>pre. q = pre @ q' \<and> expire_post time ttl m pre acc q' m'"
      proof (cases "bt_get (downloading m) ?p")
        case none: None
        show ?thesis by (rule 2(1) [OF refl _ none loop 2(5)]) (simp add: old lived_time)
      next
        case (Some bm)
        then have "bt_get bm ?b = None" using None by (simp add: visit_req_map_def)
        then show ?thesis by (intro 2(2) [OF refl _ Some _ loop 2(5)]) (simp_all add: old lived_time)
      qed
      then obtain pre where "q = pre @ q'" "expire_post time ttl m pre acc q' m'" by blast
      then show ?thesis
        using old fresh by (intro exI [of _ "(t0, k) # pre"]) (auto simp: expired_def expire_post_def)
    next
      case (Some d)
      let ?m = "m\<lparr>downloading := nested_del ?p ?b (downloading m)\<rparr>"
      obtain bm where bm: "bt_get (downloading m) ?p = Some bm" "bt_get bm ?b = Some d"
        using Some by (auto simp: visit_req_map_def split: option.splits)
      then have del: "m\<lparr>downloading := bt_insert ?p (bt_remove ?b bm) (downloading m)\<rparr> = ?m"
        by (simp add: nested_del_def)
      obtain acc' where acc: "expire_loop time ttl q ?m = (acc', q', m')" "acc = bd_piece_request d # acc'"
        using old 2(4) bm by (auto simp: lived_time del split: prod.splits)
      have here: "key_pair k \<in> in_flight m" "req_key (bd_piece_request d) = key_pair k"
        using Some 2(5) by (auto simp: in_flight_def key_pair_def maps_ok_def)
      have one: "maps_ok ?m" "in_flight ?m = in_flight m - {key_pair k}"
        "ptb_downloading_requests_len ?m + 1 = ptb_downloading_requests_len m"
        using 2(5) in_flight_len [OF 2(5), of ?p ?b] here wf by (auto simp: maps_ok_del key_pair_def)
      have "\<exists>pre. q = pre @ q' \<and> expire_post time ttl ?m pre acc' q' m'"
        using 2(3) [OF refl _ bm] acc(1) one(1) old by (simp add: lived_time del)
      then obtain pre where "q = pre @ q'" "expire_post time ttl ?m pre acc' q' m'" by blast
      then show ?thesis
        using old here one(2,3) acc(2)
        by (intro exI [of _ "(t0, k) # pre"]) (auto simp: expired_def expire_post_def)
    qed
  qed
qed

lemma remove_expired_spec:
  assumes "remove_expired now t = (acc, t')" "maps_ok (started t)"
  shows "\<exists>pre. expirations (piece_to_blocks_outstanding t) = pre @ expirations (piece_to_blocks_outstanding t') \<and>
    expire_post now (pbt_request_timeout t) (started t) pre acc (expirations (piece_to_blocks_outstanding t')) (started t') \<and>
    pieces_not_started t' = pieces_not_started t \<and> pieces_completed t' = pieces_completed t \<and>
    pbt_max_outstanding_requests t' = pbt_max_outstanding_requests t \<and> pbt_request_timeout t' = pbt_request_timeout t"
proof -
  obtain q' m' where q': "expire_loop now (pbt_request_timeout t) (expirations (piece_to_blocks_outstanding t)) (started t) =
      (acc, q', m')" "t' = t\<lparr>piece_to_blocks_outstanding :=
        (piece_to_blocks_outstanding t)\<lparr>piece_to_blocks_started := m', expirations := q'\<rparr>\<rparr>"
    using assms(1) by (auto simp: remove_expired_def inprogress_remove_expired_def split: prod.splits)
  show ?thesis
    using expire_loop_spec [OF q'(1) assms(2)] by (simp add: q'(2))
qed

section \<open>The tracker as a state machine\<close>

datatype tracker_op =
    Assign instant u32 "internal_peer_id list"
  | RequestFinished u32 u32
  | PieceFinished u32
  | Expire instant
  | RemoveRequest peer_requested_piece

inductive tracker_step :: "v1_torrent \<Rightarrow> piece_block_tracker \<Rightarrow> tracker_op \<Rightarrow> piece_block_tracker \<Rightarrow> bool"
  for torrent :: v1_torrent
where
  assign: "assign_piece now torrent p peers t = Some (reqs, t') \<Longrightarrow> tracker_step torrent t (Assign now p peers) t'"
| request_finished: "set_request_finished p b t = (r, t') \<Longrightarrow> tracker_step torrent t (RequestFinished p b) t'"
| piece_finished: "set_piece_finished p t = t' \<Longrightarrow> tracker_step torrent t (PieceFinished p) t'"
| expire: "remove_expired now t = (reqs, t') \<Longrightarrow> tracker_step torrent t (Expire now) t'"
| remove: "remove_request req t = (found, t') \<Longrightarrow> tracker_step torrent t (RemoveRequest req) t'"

inductive_cases tracker_assignE: "tracker_step torrent t (Assign now p peers) t'"
inductive_cases tracker_expireE: "tracker_step torrent t (Expire now) t'"
inductive_simps tracker_step_simps:
  "tracker_step torrent t (Assign now p peers) t'"
  "tracker_step torrent t (RequestFinished p b) t'"
  "tracker_step torrent t (PieceFinished p) t'"
  "tracker_step torrent t (Expire now) t'"
  "tracker_step torrent t (RemoveRequest req) t'"

definition tracker_init :: "v1_torrent \<Rightarrow> usize \<Rightarrow> piece_block_tracker \<Rightarrow> bool" where
  "tracker_init torrent max_out t \<longleftrightarrow>
     torrent_ok torrent \<and> t = tracker_new max_out (ti_pieces (t_info torrent))"

text \<open>The invariant with the parts no operation changes.\<close>

definition tracker_good :: "v1_torrent \<Rightarrow> usize \<Rightarrow> piece_block_tracker \<Rightarrow> bool" where
  "tracker_good torrent max_out t \<longleftrightarrow>
     torrent_ok torrent \<and> pbt_max_outstanding_requests t = max_out \<and>
     tracker_inv (length (ti_pieces (t_info torrent))) t"

lemma set_started_simps [simp]:
  "started (set_started m t) = m" "pbt_max_outstanding_requests (set_started m t) = pbt_max_outstanding_requests t"
  "pieces_not_started (set_started m t) = pieces_not_started t" "pieces_completed (set_started m t) = pieces_completed t"
  "expirations (piece_to_blocks_outstanding (set_started m t)) = expirations (piece_to_blocks_outstanding t)"
  "downloading_requests_len (set_started m t) = ptb_downloading_requests_len m"
  by (simp_all add: set_started_def downloading_requests_len_def)

lemma tracker_new_inv [inv_intros]: "tracker_inv (length pieces) (tracker_new max_out pieces)"
  by (auto simp: tracker_inv_def tracker_new_def downloading_requests_len_def ptb_downloading_requests_len_def
      ptb_pieces_eq)
     (simp_all add: empty_block_map_def bt_empty_def)

lemma assign_inv [inv_intros]:
  assumes ok: "torrent_ok torrent" and inv: "tracker_inv n t"
    and step: "assign_piece now torrent p peers t = Some (reqs, t')"
  shows "tracker_inv n t'"
proof -
  have len: "downloading_requests_len t \<le> pbt_max_outstanding_requests t"
    using inv by (simp add: tracker_inv_def)
  let ?rs = "assigned torrent p peers t"
  have t': "t' = t\<lparr>pieces_not_started := (if ?rs = [] then pieces_not_started t else pieces_not_started t - {p}),
       piece_to_blocks_outstanding := fold (inprogress_insert now) ?rs (piece_to_blocks_outstanding t)\<rparr>"
    using step by (auto simp: assign_piece_eq [OF ok len] Let_def)
  note keys = assigned_keys [OF ok, where piece_id = p and peers = peers and t = t]
  have "\<forall>r \<in> set ?rs. req_key r \<notin> in_flight (started t) \<and> req_key r \<notin> finished_blocks (started t)"
    using keys(2) by blast
  note all = insert_all [OF _ keys(1) this, of now]
  have idx: "req_index ` set ?rs = (if ?rs = [] then {} else {p})"
    using keys(2) by (auto simp: image_constant_conv)
  have "queued (map (\<lambda>r. (now, \<lparr>key_piece_id = req_index r, key_block_begin = req_begin r\<rparr>)) ?rs) = req_key ` set ?rs"
    by (auto simp: queued_def key_pair_def req_key_def image_image)
  then show ?thesis
    using inv all idx len length_assigned [of torrent p peers t] unfolding t'
    by (auto simp: tracker_inv_def downloading_requests_len_def)
qed

lemma remove_request_inv [inv_intros]:
  assumes "tracker_inv n t" "remove_request req t = (found, t')"
  shows "tracker_inv n t'"
proof -
  have t': "t' = set_started (started t\<lparr>downloading := nested_del (req_index req) (req_begin req) (downloading (started t))\<rparr>) t"
    using assms(2) by (auto simp: remove_request_def ptb_remove_downloading_request_eq)
  have "maps_ok (started t)" using assms(1) by (simp add: tracker_inv_def)
  then show ?thesis
    using assms(1) in_flight_len [of "started t" "req_index req" "req_begin req"]
    by (auto simp: t' tracker_inv_def maps_ok_del downloading_requests_len_def maps_ok_def split: if_splits)
qed

lemma set_request_finished_spec:
  assumes "maps_ok (started t)" "set_request_finished p b t = (r, t')"
  shows "if (p, b) \<in> in_flight (started t)
    then r = Some () \<and> maps_ok (started t') \<and> in_flight (started t') = in_flight (started t) - {(p, b)} \<and>
      finished_blocks (started t') = insert (p, b) (finished_blocks (started t)) \<and>
      ptb_pieces (started t') = ptb_pieces (started t) \<and>
      downloading_requests_len t' + 1 = downloading_requests_len t \<and>
      (\<exists>m. t' = set_started m t)
    else r = None \<and> t' = t"
proof (cases "visit_req_map (downloading (started t)) p b")
  case None
  then show ?thesis
    using assms by (auto simp: set_request_finished_def ptb_set_request_finished_eq in_flight_def set_started_def)
next
  case (Some d)
  let ?dl = "started t\<lparr>downloading := nested_del p b (downloading (started t))\<rparr>"
  have t': "r = Some ()" "t' = set_started (?dl\<lparr>blocks_done := nested_put p b d (blocks_done ?dl)\<rparr>) t"
    using assms(2) Some by (auto simp: set_request_finished_def ptb_set_request_finished_eq)
  have here: "(p, b) \<in> in_flight (started t)" "p \<in> ptb_pieces (started t)"
    using Some in_flight_pieces by (auto simp: in_flight_def)
  have wf: "nested_wf (downloading (started t))" using assms(1) by (simp add: maps_ok_def)
  have len: "ptb_downloading_requests_len (m\<lparr>blocks_done := x\<rparr>) = ptb_downloading_requests_len m" for m x
    by (simp add: ptb_downloading_requests_len_def)
  have "maps_ok ?dl" using assms(1) by (rule maps_ok_del)
  then have "maps_ok (started t')"
    using wf by (auto simp: t' maps_ok_def)
  moreover have "ptb_pieces (started t') = ptb_pieces (started t)"
    using here(2) by (auto simp: t' ptb_pieces_eq)
  moreover have "downloading_requests_len t' + 1 = downloading_requests_len t"
    using in_flight_len [OF assms(1), of p b] here(1) by (simp add: t' len) (simp add: downloading_requests_len_def)
  moreover have "in_flight (started t') = in_flight (started t) - {(p, b)}"
    using wf by (simp add: t')
  moreover have "finished_blocks (started t') = insert (p, b) (finished_blocks (started t))"
    by (simp add: t')
  ultimately show ?thesis
    using here(1) t' by auto
qed

lemma set_request_finished_inv [inv_intros]:
  assumes "tracker_inv n t" "set_request_finished p b t = (r, t')"
  shows "tracker_inv n t'"
proof -
  have "maps_ok (started t)" using assms(1) by (simp add: tracker_inv_def)
  then show ?thesis
    using set_request_finished_spec [OF _ assms(2)] assms(1)
    by (auto simp: tracker_inv_def split: if_splits)
qed

lemma set_piece_finished_inv [inv_intros]:
  assumes "tracker_inv n t"
  shows "tracker_inv n (set_piece_finished p t)"
proof -
  have wf: "nested_wf (downloading (started t))" "nested_wf (blocks_done (started t))" "maps_ok (started t)"
    using assms by (auto simp: tracker_inv_def maps_ok_def)
  have eqs: "in_flight (ptb_remove_piece p (started t)) = in_flight (started t) - {p} \<times> UNIV"
    "finished_blocks (ptb_remove_piece p (started t)) = finished_blocks (started t) - {p} \<times> UNIV"
    "ptb_pieces (ptb_remove_piece p (started t)) = ptb_pieces (started t) - {p}"
    using wf by (auto simp: ptb_remove_piece_def in_flight_def finished_blocks_def ptb_pieces_eq split: if_splits)
  have "in_flight (ptb_remove_piece p (started t)) \<inter> finished_blocks (ptb_remove_piece p (started t)) = {}"
    using wf(3) unfolding eqs maps_ok_def by blast
  then have "maps_ok (ptb_remove_piece p (started t))"
    using wf by (auto simp: ptb_remove_piece_def maps_ok_def split: if_splits)
  moreover have "ptb_downloading_requests_len (ptb_remove_piece p (started t)) \<le> downloading_requests_len t"
    using nested_sum_remove [OF wf(1), of p]
    by (simp add: ptb_remove_piece_def ptb_downloading_requests_len_def downloading_requests_len_def)
  ultimately show ?thesis
    using assms eqs by (auto simp: tracker_inv_def set_piece_finished_def downloading_requests_len_def)
qed

lemma remove_expired_inv [inv_intros]:
  assumes "tracker_inv n t" "remove_expired now t = (acc, t')"
  shows "tracker_inv n t'"
proof -
  have "maps_ok (started t)" using assms(1) by (simp add: tracker_inv_def)
  then obtain pre where pre: "expirations (piece_to_blocks_outstanding t) = pre @ expirations (piece_to_blocks_outstanding t')"
    "expire_post now (pbt_request_timeout t) (started t) pre acc (expirations (piece_to_blocks_outstanding t')) (started t')"
    "pieces_not_started t' = pieces_not_started t" "pieces_completed t' = pieces_completed t"
    "pbt_max_outstanding_requests t' = pbt_max_outstanding_requests t"
    using remove_expired_spec [OF assms(2)] by blast
  then show ?thesis
    using assms(1) by (auto simp: tracker_inv_def expire_post_def downloading_requests_len_def)
qed

lemmas tracker_op_inv =
  assign_inv remove_request_inv set_request_finished_inv set_piece_finished_inv remove_expired_inv

lemma assign_piece_max:
  assumes "assign_piece now torrent p peers t = Some (reqs, t')"
  shows "pbt_max_outstanding_requests t' = pbt_max_outstanding_requests t"
proof -
  obtain alloc c where "(case alloc of None \<Rightarrow> Some ([], t)
     | Some reqs \<Rightarrow>
         (let t = (if reqs \<noteq> [] then t\<lparr>pieces_not_started := pieces_not_started t - {p}\<rparr> else t) in
          Some (reqs, t\<lparr>piece_to_blocks_outstanding := fold (inprogress_insert now) reqs (piece_to_blocks_outstanding t)\<rparr>))) =
      Some (reqs, t')"
    using assms unfolding assign_piece_def bind_eq_Some_conv by (auto split: prod.splits)
  then show ?thesis
    by (cases alloc) (auto simp: Let_def split: if_splits)
qed

lemma tracker_step_max:
  assumes "tracker_step torrent t l t'"
  shows "pbt_max_outstanding_requests t' = pbt_max_outstanding_requests t"
  using assms
proof cases
  case (assign now p peers reqs)
  then show ?thesis using assign_piece_max by blast
qed (auto simp: set_request_finished_def set_piece_finished_def remove_expired_def remove_request_def split: prod.splits)

interpretation tracker: invariant_system "tracker_init torrent max_out" "tracker_step torrent"
  "tracker_good torrent max_out" for torrent max_out
proof
  show "tracker_init torrent max_out t \<Longrightarrow> tracker_good torrent max_out t" for t
    by (simp add: tracker_init_def tracker_good_def tracker_new_inv) (simp add: tracker_new_def)
next
  fix t l t'
  assume *: "tracker_good torrent max_out t" "tracker_step torrent t l t'"
  then have "tracker_inv (length (ti_pieces (t_info torrent))) t'"
    by (cases l) (auto simp: tracker_good_def tracker_step_simps intro: tracker_op_inv)
  then show "tracker_good torrent max_out t'"
    using * tracker_step_max by (simp add: tracker_good_def)
qed

section \<open>A round of assignments\<close>

text \<open>What one piece adds, and what a whole round over the available pieces adds.\<close>

lemma assign_piece_spec:
  assumes ok: "torrent_ok torrent" and inv: "tracker_inv n t"
  shows "\<exists>t'. assign_piece now torrent p peers t = Some (assigned torrent p peers t, t') \<and>
    tracker_inv n t' \<and> pbt_max_outstanding_requests t' = pbt_max_outstanding_requests t \<and>
    in_flight (started t') = req_key ` set (assigned torrent p peers t) \<union> in_flight (started t) \<and>
    finished_blocks (started t') = finished_blocks (started t) \<and>
    downloading_requests_len t' = downloading_requests_len t + length (assigned torrent p peers t) \<and>
    pieces_completed t' = pieces_completed t"
proof -
  let ?rs = "assigned torrent p peers t"
  have len: "downloading_requests_len t \<le> pbt_max_outstanding_requests t" and maps: "maps_ok (started t)"
    using inv by (simp_all add: tracker_inv_def)
  obtain t' where t': "assign_piece now torrent p peers t = Some (?rs, t')"
    "t' = t\<lparr>pieces_not_started := (if ?rs = [] then pieces_not_started t else pieces_not_started t - {p}),
       piece_to_blocks_outstanding := fold (inprogress_insert now) ?rs (piece_to_blocks_outstanding t)\<rparr>"
    by (simp add: assign_piece_eq [OF ok len] Let_def)
  note keys = assigned_keys [OF ok, where piece_id = p and peers = peers and t = t]
  have "\<forall>r \<in> set ?rs. req_key r \<notin> in_flight (started t) \<and> req_key r \<notin> finished_blocks (started t)"
    using keys(2) by blast
  note all = insert_all [OF maps keys(1) this, of now]
  have "tracker_inv n t'" by (rule assign_inv [OF ok inv t'(1)])
  then show ?thesis
    using t'(1) all by (intro exI [of _ t']) (simp add: t'(2) downloading_requests_len_def)
qed

definition request_ok :: "v1_torrent \<Rightarrow> (internal_peer_id set \<Rightarrow> internal_peer_id list) \<Rightarrow>
    (u32, internal_peer_id set) btree \<Rightarrow> peer_requested_piece \<Rightarrow> bool" where
  "request_ok torrent iter available r \<longleftrightarrow>
     (\<exists>peers p ps. (req_index r, peers) \<in> set available \<and> iter peers = p # ps \<and> req_peer_id r = p \<and>
        (req_begin r, req_length r) \<in> set (piece_blocks (assigned_size torrent (req_index r))))"

lemma generate_assignments_spec:
  assumes ok: "torrent_ok torrent"
  shows "tracker_inv n t \<Longrightarrow>
    \<exists>reqs t'. generate_assignments iter now torrent available t = Some (reqs, t') \<and>
      tracker_inv n t' \<and> pbt_max_outstanding_requests t' = pbt_max_outstanding_requests t \<and>
      distinct (map req_key reqs) \<and> req_key ` set reqs \<inter> (in_flight (started t) \<union> finished_blocks (started t)) = {} \<and>
      in_flight (started t') = req_key ` set reqs \<union> in_flight (started t) \<and>
      finished_blocks (started t') = finished_blocks (started t) \<and>
      downloading_requests_len t' = downloading_requests_len t + length reqs \<and>
      pieces_completed t' = pieces_completed t \<and>
      (\<forall>r \<in> set reqs. request_ok torrent iter available r)"
proof (induction available arbitrary: t)
  case Nil
  then show ?case by simp
next
  case (Cons x available)
  obtain p peers where x: "x = (p, peers)" by fastforce
  let ?rs = "assigned torrent p (iter peers) t"
  obtain t1 where t1: "assign_piece (now p) torrent p (iter peers) t = Some (?rs, t1)" "tracker_inv n t1"
    "pbt_max_outstanding_requests t1 = pbt_max_outstanding_requests t"
    "in_flight (started t1) = req_key ` set ?rs \<union> in_flight (started t)"
    "finished_blocks (started t1) = finished_blocks (started t)"
    "downloading_requests_len t1 = downloading_requests_len t + length ?rs" "pieces_completed t1 = pieces_completed t"
    using assign_piece_spec [OF ok Cons.prems, of "now p" p "iter peers"] by blast
  obtain reqs t' where rest: "generate_assignments iter now torrent available t1 = Some (reqs, t')" "tracker_inv n t'"
    "pbt_max_outstanding_requests t' = pbt_max_outstanding_requests t1" "distinct (map req_key reqs)"
    "req_key ` set reqs \<inter> (in_flight (started t1) \<union> finished_blocks (started t1)) = {}"
    "in_flight (started t') = req_key ` set reqs \<union> in_flight (started t1)"
    "finished_blocks (started t') = finished_blocks (started t1)"
    "downloading_requests_len t' = downloading_requests_len t1 + length reqs" "pieces_completed t' = pieces_completed t1"
    "\<forall>r \<in> set reqs. request_ok torrent iter available r"
    using Cons.IH [OF t1(2)] by blast
  note keys = assigned_keys [OF ok, where piece_id = p and peers = "iter peers" and t = t]
  have "\<forall>r \<in> set ?rs. request_ok torrent iter (x # available) r"
    using keys(2) unfolding request_ok_def x by (metis list.collapse list.set_intros(1))
  moreover have "\<forall>r \<in> set reqs. request_ok torrent iter (x # available) r"
    using rest(10) unfolding request_ok_def by (meson list.set_intros(2))
  moreover have "distinct (map req_key (?rs @ reqs))"
    using keys(1) rest(4,5) t1(4) by auto
  moreover have "generate_assignments iter now torrent (x # available) t = Some (?rs @ reqs, t')"
    using t1(1) rest(1) by (simp add: x)
  moreover have "req_key ` set (?rs @ reqs) \<inter> (in_flight (started t) \<union> finished_blocks (started t)) = {}"
    using keys(2) rest(5) t1(4,5) by auto
  ultimately show ?case
    using rest t1 by (intro exI [of _ "?rs @ reqs"] exI [of _ t']) (auto simp: image_Un)
qed

context hash_iteration
begin

lemma request_ok_peer:
  assumes "request_ok torrent iter available r" "bt_wf available" "\<forall>(p, peers) \<in> set available. finite peers"
  shows "\<exists>peers. bt_get available (req_index r) = Some peers \<and> req_peer_id r \<in> peers"
proof -
  obtain peers p ps where *: "(req_index r, peers) \<in> set available" "iter peers = p # ps" "req_peer_id r = p"
    using assms(1) by (auto simp: request_ok_def)
  then have "p \<in> peers" using iter_Cons_in assms(3) by fastforce
  moreover have "bt_get available (req_index r) = Some peers"
    using * assms(2) by (simp add: bt_get_eq_iff)
  ultimately show ?thesis using * by blast
qed

end

section \<open>Properties\<close>

text \<open>The state machine's run, for the witnesses: one piece of three blocks, at most two requests.\<close>

definition block_torrent :: v1_torrent where
  "block_torrent = \<lparr>t_info = \<lparr>ti_length = 40000, ti_piece_length = 40000, ti_pieces = [\<lparr>piece_hash = [6]\<rparr>],
     ti_name = [], ti_info_hash = []\<rparr>, t_announce = [], t_announce_list = []\<rparr>"

lemma block_torrent_ok: "torrent_ok block_torrent"
  by (simp add: torrent_ok_def block_torrent_def torrent_wf_def Let_def i64_as_usize_def)

definition block_tracker :: piece_block_tracker where
  "block_tracker = tracker_new 2 (ti_pieces (t_info block_torrent))"

lemma block_tracker_reachable: "reachable (tracker_init block_torrent 2) (tracker_step block_torrent) block_tracker"
  by (rule reachable.start) (simp add: tracker_init_def block_torrent_ok block_tracker_def)

text \<open>
  C30. The limit on requests in flight holds in every state the tracker can reach, and the next
  round of assignments never panics and keeps it, for any set of available pieces and any
  iteration order.
\<close>

theorem requests_within_limit:
  assumes "reachable (tracker_init torrent max_out) (tracker_step torrent) t"
  shows "downloading_requests_len t \<le> max_out \<and>
    (\<exists>reqs t'. generate_assignments iter now torrent available t = Some (reqs, t') \<and>
      downloading_requests_len t' = downloading_requests_len t + length reqs \<and>
      downloading_requests_len t' \<le> max_out)"
proof -
  have good: "tracker_good torrent max_out t" by (rule tracker.reachable_inv [OF assms])
  then obtain reqs t' where "generate_assignments iter now torrent available t = Some (reqs, t')"
    "tracker_inv (length (ti_pieces (t_info torrent))) t'"
    "pbt_max_outstanding_requests t' = pbt_max_outstanding_requests t"
    "downloading_requests_len t' = downloading_requests_len t + length reqs"
    using generate_assignments_spec unfolding tracker_good_def by blast
  then show ?thesis using good by (auto simp: tracker_good_def tracker_inv_def)
qed

lemma requests_within_limit_witness:
  "\<exists>reqs t'. generate_assignments sorted_iter (\<lambda>_. 5) block_torrent [(0, {[1]})] block_tracker = Some (reqs, t') \<and>
     downloading_requests_len t' \<le> 2"
  using requests_within_limit [OF block_tracker_reachable, of sorted_iter "\<lambda>_. 5" "[(0, {[1]})]"] by blast

text \<open>
  C26. What a round of assignments asks for: every request is one block of a piece on offer,
  from a peer that offers it; no block is asked for twice, nor one that is already in flight or
  done; and all of them are recorded as in flight.
\<close>

theorem assignments_are_new_blocks:
  assumes "hash_iteration iter"
    and "reachable (tracker_init torrent max_out) (tracker_step torrent) t"
    and "bt_wf available" "\<forall>(p, peers) \<in> set available. finite peers"
    and "generate_assignments iter now torrent available t = Some (reqs, t')"
  shows "distinct (map req_key reqs) \<and>
    (\<forall>r \<in> set reqs.
      contains_inprogress (started t) (req_index r) (req_begin r) = None \<and>
      contains_inprogress (started t') (req_index r) (req_begin r) \<noteq> None \<and>
      (\<exists>peers. bt_get available (req_index r) = Some peers \<and> req_peer_id r \<in> peers) \<and>
      0 < unat (req_length r) \<and> unat (req_length r) \<le> PIECE_BLOCK_SIZE \<and> PIECE_BLOCK_SIZE dvd unat (req_begin r) \<and>
      unat (req_begin r) + unat (req_length r) \<le> assigned_size torrent (req_index r))"
proof -
  have good: "torrent_ok torrent" "tracker_inv (length (ti_pieces (t_info torrent))) t"
    using tracker.reachable_inv [OF assms(2)] by (simp_all add: tracker_good_def)
  have spec: "distinct (map req_key reqs)" "req_key ` set reqs \<inter> (in_flight (started t) \<union> finished_blocks (started t)) = {}"
    "in_flight (started t') = req_key ` set reqs \<union> in_flight (started t)" "\<forall>r \<in> set reqs. request_ok torrent iter available r"
    using generate_assignments_spec [OF good, of iter now available] assms(5) by auto
  have "0 < unat (req_length r) \<and> unat (req_length r) \<le> PIECE_BLOCK_SIZE \<and> PIECE_BLOCK_SIZE dvd unat (req_begin r) \<and>
      unat (req_begin r) + unat (req_length r) \<le> assigned_size torrent (req_index r)" if "r \<in> set reqs" for r
  proof -
    obtain b where b: "b \<in> set (block_begins (assigned_size torrent (req_index r)))" "req_begin r = as_u32 b"
      "req_length r = as_u32 (min PIECE_BLOCK_SIZE (assigned_size torrent (req_index r) - b))"
      using spec(4) \<open>r \<in> set reqs\<close> by (auto simp: request_ok_def piece_blocks_def)
    show ?thesis
      using block_bounds [OF b(1) assigned_size_bounds(2) [OF good(1)]] b(1) by (simp add: b(2,3) in_block_begins)
  qed
  moreover have "contains_inprogress (started t) (req_index r) (req_begin r) = None \<and>
      contains_inprogress (started t') (req_index r) (req_begin r) \<noteq> None" if "r \<in> set reqs" for r
    using spec(2,3) that by (auto simp: contains_inprogress_iff req_key_def)
  ultimately show ?thesis
    using spec(1,4) hash_iteration.request_ok_peer [OF assms(1) _ assms(3,4)] by blast
qed

text \<open>The first round on the example: two of the three blocks, which is the limit.\<close>

definition block_requests :: "peer_requested_piece list" where
  "block_requests = [\<lparr>req_peer_id = [1], req_index = 0, req_begin = 0, req_length = 16384\<rparr>,
     \<lparr>req_peer_id = [1], req_index = 0, req_begin = 16384, req_length = 16384\<rparr>]"

lemma block_torrent_size: "assigned_size block_torrent p = 40000"
  by (simp add: assigned_size_def block_torrent_def allocate_torrent_def i64_as_usize_def usize_sub_def
      usize_mul_def usize_max_def Let_def)

lemma sorted_iter_single [simp]: "sorted_iter {x} = [x]"
  by (simp add: sorted_iter_def)

lemma block_tracker_inv: "tracker_inv 1 block_tracker"
  using tracker.reachable_inv [OF block_tracker_reachable] by (simp add: tracker_good_def block_torrent_def)

lemma block_assigned: "assigned block_torrent 0 [[1]] block_tracker = block_requests"
proof -
  have "block_begins 40000 = [0, 16384, 32768]"
    by (simp add: block_begins_def PIECE_BLOCK_SIZE_def upt_rec)
  then show ?thesis
    by (simp add: assigned_def block_torrent_size fresh_blocks_def block_tracker_def tracker_new_def
        downloading_requests_len_def ptb_downloading_requests_len_def empty_block_map_def bt_empty_def
        contains_inprogress_def visit_req_map_def mk_request_def block_requests_def PIECE_BLOCK_SIZE_def)
qed

lemma block_round:
  obtains t' where "generate_assignments sorted_iter (\<lambda>_. 5) block_torrent [(0, {[1]})] block_tracker = Some (block_requests, t')"
    "reachable (tracker_init block_torrent 2) (tracker_step block_torrent) t'"
    "map fst (expirations (piece_to_blocks_outstanding t')) = [5, 5]"
    "in_flight (started t') = {(0, 0), (0, 16384)}" "pbt_request_timeout t' = 10000000000"
proof -
  have len: "downloading_requests_len block_tracker \<le> pbt_max_outstanding_requests block_tracker"
    using block_tracker_inv by (simp add: tracker_inv_def)
  obtain t' where t': "assign_piece 5 block_torrent 0 [[1]] block_tracker = Some (block_requests, t')"
    and eq: "t' = block_tracker\<lparr>pieces_not_started := (if block_requests = [] then pieces_not_started block_tracker else pieces_not_started block_tracker - {0}),
       piece_to_blocks_outstanding := fold (inprogress_insert 5) block_requests (piece_to_blocks_outstanding block_tracker)\<rparr>"
    using assign_piece_eq [OF block_torrent_ok len, of 5 0 "[[1]]"] block_assigned by (simp add: Let_def)
  have facts: "map fst (expirations (piece_to_blocks_outstanding t')) = [5, 5]"
    "pbt_request_timeout t' = 10000000000"
    by (simp_all add: eq block_requests_def inprogress_insert_def Let_def block_tracker_def tracker_new_def)
  have "in_flight (started t') = req_key ` set block_requests \<union> in_flight (started block_tracker)"
    using assign_piece_spec [OF block_torrent_ok block_tracker_inv, of 5 0 "[[1]]"] t' by auto
  then have flight: "in_flight (started t') = {(0, 0), (0, 16384)}"
    by (simp add: block_requests_def req_key_def block_tracker_def tracker_new_def)
  have "generate_assignments sorted_iter (\<lambda>_. 5) block_torrent [(0, {[1]})] block_tracker = Some (block_requests, t')"
    by (simp add: t')
  moreover have "reachable (tracker_init block_torrent 2) (tracker_step block_torrent) t'"
    by (rule reachable.next_state [OF block_tracker_reachable tracker_step.assign [OF t']])
  ultimately show ?thesis using facts(1) flight facts(2) by (rule that)
qed

lemma assignments_are_new_blocks_witness:
  "\<exists>t'. generate_assignments sorted_iter (\<lambda>_. 5) block_torrent [(0, {[1]})] block_tracker = Some (block_requests, t') \<and>
     distinct (map req_key block_requests) \<and>
     contains_inprogress (started t') 0 16384 \<noteq> None"
proof -
  obtain t' where t': "generate_assignments sorted_iter (\<lambda>_. 5) block_torrent [(0, {[1]})] block_tracker = Some (block_requests, t')"
    by (rule block_round)
  show ?thesis
    using assignments_are_new_blocks [OF sorted_iter.hash_iteration_axioms block_tracker_reachable _ _ t'] t'
    by (simp add: block_requests_def)
qed

text \<open>
  C27. No piece is lost: in every reachable state each piece of the torrent is completed or
  among the incomplete pieces the next round looks at, whatever requests were made, expired,
  dropped or answered.
\<close>

theorem no_piece_lost:
  assumes "reachable (tracker_init torrent max_out) (tracker_step torrent) t"
    and "i < length (ti_pieces (t_info torrent))"
  shows "as_u32 i \<in> pieces_completed t \<union> get_incomplete_pieces t"
proof -
  have "as_u32 ` {..<length (ti_pieces (t_info torrent))} \<subseteq>
      pieces_not_started t \<union> ptb_pieces (started t) \<union> pieces_completed t"
    using tracker.reachable_inv [OF assms(1)] by (simp add: tracker_good_def tracker_inv_def)
  then show ?thesis
    using assms(2) by (auto simp: get_incomplete_pieces_def)
qed

lemma no_piece_lost_witness:
  "as_u32 0 \<in> pieces_completed block_tracker \<union> get_incomplete_pieces block_tracker"
  by (rule no_piece_lost [OF block_tracker_reachable]) (simp add: block_torrent_def)

text \<open>
  C31. Expiry, when the queue is in time order: afterwards every request still in flight is
  younger than the timeout, the requests reported are exactly those given up, and each of them
  can be assigned again.
\<close>

theorem expired_requests_released:
  assumes "reachable (tracker_init torrent max_out) (tracker_step torrent) t"
    and "sorted_wrt (\<lambda>x y. fst x \<le> fst y) (expirations (piece_to_blocks_outstanding t))"
    and "remove_expired now t = (reqs, t')"
  shows "(\<forall>(p, b) \<in> in_flight (started t').
      \<exists>(t0, k) \<in> set (expirations (piece_to_blocks_outstanding t')).
        key_pair k = (p, b) \<and> now - t0 < pbt_request_timeout t) \<and>
    in_flight (started t') = in_flight (started t) - req_key ` set reqs \<and>
    (\<forall>r \<in> set reqs. contains_inprogress (started t') (req_index r) (req_begin r) = None) \<and>
    downloading_requests_len t' + length reqs = downloading_requests_len t"
proof -
  have inv: "tracker_inv (length (ti_pieces (t_info torrent))) t"
    using tracker.reachable_inv [OF assms(1)] by (simp add: tracker_good_def)
  then have maps: "maps_ok (started t)" by (simp add: tracker_inv_def)
  let ?q' = "expirations (piece_to_blocks_outstanding t')"
  obtain pre where pre: "expirations (piece_to_blocks_outstanding t) = pre @ ?q'"
    "expire_post now (pbt_request_timeout t) (started t) pre reqs ?q' (started t')"
    using remove_expired_spec [OF assms(3) maps] by blast
  have "\<not> expired now (pbt_request_timeout t) (fst e)" if "e \<in> set ?q'" for e
  proof -
    obtain x xs where q: "?q' = x # xs" using \<open>e \<in> set ?q'\<close> by (cases ?q') auto
    then have "\<not> expired now (pbt_request_timeout t) (fst x)" using pre(2) by (simp add: expire_post_def)
    moreover have "fst x \<le> fst e"
      using assms(2) \<open>e \<in> set ?q'\<close> q by (auto simp: pre(1) sorted_wrt_append)
    ultimately show ?thesis by (auto simp: expired_def)
  qed
  moreover have "tracker_inv (length (ti_pieces (t_info torrent))) t'"
    by (rule remove_expired_inv [OF inv assms(3)])
  then have "in_flight (started t') \<subseteq> queued ?q'" by (simp add: tracker_inv_def)
  ultimately have "\<forall>(p, b) \<in> in_flight (started t'). \<exists>(t0, k) \<in> set ?q'.
      key_pair k = (p, b) \<and> now - t0 < pbt_request_timeout t"
    by (fastforce simp: queued_def expired_def not_le)
  moreover have "finished_blocks (started t) \<inter> in_flight (started t) = {}"
    using maps by (auto simp: maps_ok_def)
  ultimately show ?thesis
    using pre(2) by (auto simp: expire_post_def contains_inprogress_iff req_key_def downloading_requests_len_def)
qed

lemma expired_requests_released_witness:
  "\<exists>t reqs t'. in_flight (started t) = {(0, 0), (0, 16384)} \<and>
     remove_expired 10000000005 t = (reqs, t') \<and> in_flight (started t') = {} \<and> {(0, 0), (0, 16384)} \<subseteq> req_key ` set reqs"
proof -
  obtain t where t: "reachable (tracker_init block_torrent 2) (tracker_step block_torrent) t"
    "map fst (expirations (piece_to_blocks_outstanding t)) = [5, 5]"
    "in_flight (started t) = {(0, 0), (0, 16384)}" "pbt_request_timeout t = 10000000000"
    by (rule block_round)
  obtain reqs t' where r: "remove_expired 10000000005 t = (reqs, t')" by fastforce
  have "sorted_wrt (\<lambda>x y. fst x \<le> fst y) (expirations (piece_to_blocks_outstanding t))"
    using t(2) sorted_wrt_map [of "(\<le>)" fst "expirations (piece_to_blocks_outstanding t)"] by simp
  note out = expired_requests_released [OF t(1) this r]
  have "fst e = 5" if "e \<in> set (expirations (piece_to_blocks_outstanding t))" for e
    using arg_cong [OF t(2), of set] that by auto
  moreover have "set (expirations (piece_to_blocks_outstanding t')) \<subseteq> set (expirations (piece_to_blocks_outstanding t))"
    using remove_expired_spec [OF r] tracker.reachable_inv [OF t(1)]
    by (auto simp: tracker_good_def tracker_inv_def)
  ultimately have none: "in_flight (started t') = {}"
    using out t(4) by fastforce
  then have "{(0, 0), (0, 16384)} \<subseteq> req_key ` set reqs"
    using out t(3) by blast
  then show ?thesis using t(3) r none by blast
qed

text \<open>
  C29. Assigning a piece that some peer offers, with enough capacity left, leaves none of its blocks out: the requests are
  exactly the blocks that were neither in flight nor done, afterwards every block is one of the two, and whatever order
  the new requests and the blocks in flight and done before are written in, the store's slice tracker reports the
  piece complete with the last one.
\<close>

theorem assignment_completes_piece:
  assumes "reachable (tracker_init torrent max_out) (tracker_step torrent) t"
    and "peers \<noteq> []"
    and "downloading_requests_len t + length (block_begins (assigned_size torrent p)) \<le> max_out"
    and "assign_piece now torrent p peers t = Some (reqs, t')"
  shows "(\<forall>b \<in> set (block_begins (assigned_size torrent p)). contains_inprogress (started t') p (as_u32 b) \<noteq> None) \<and>
    map (\<lambda>r. (req_begin r, req_length r)) reqs =
      filter (\<lambda>(b, l). contains_inprogress (started t) p b = None) (piece_blocks (assigned_size torrent p)) \<and>
    (\<forall>answers.
      mset answers = mset (map (\<lambda>r. (req_begin r, req_length r)) reqs) +
        mset (filter (\<lambda>(b, l). contains_inprogress (started t) p b \<noteq> None) (piece_blocks (assigned_size torrent p))) \<longrightarrow>
      (\<exists>s. slices_run (slices_new (assigned_size torrent p)) answers = Some (True, s)))"
proof -
  let ?n = "assigned_size torrent p"
  have good: "torrent_ok torrent" "tracker_inv (length (ti_pieces (t_info torrent))) t"
    "pbt_max_outstanding_requests t = max_out"
    using tracker.reachable_inv [OF assms(1)] by (simp_all add: tracker_good_def)
  have spec: "reqs = assigned torrent p peers t" "in_flight (started t') = req_key ` set reqs \<union> in_flight (started t)"
    "finished_blocks (started t') = finished_blocks (started t)"
    using assign_piece_spec [OF good(1,2), of now p peers] assms(4) by auto
  have "length (fresh_blocks (started t) p ?n) \<le> max_out - downloading_requests_len t"
    using assms(3) length_filter_le [of _ "block_begins ?n"] unfolding fresh_blocks_def
    by (metis (no_types, lifting) add.commute le_diff_conv2 add_leD1 le_trans)
  then have reqs: "reqs = map (mk_request (hd peers) p ?n) (fresh_blocks (started t) p ?n)"
    using assms(2) good(3) by (cases peers) (simp_all add: spec(1) assigned_def)
  have "contains_inprogress (started t') p (as_u32 b) \<noteq> None" if "b \<in> set (block_begins ?n)" for b
  proof (cases "b \<in> set (fresh_blocks (started t) p ?n)")
    case True
    then have "(p, as_u32 b) \<in> req_key ` set reqs"
      by (force simp: reqs req_key_def mk_request_def)
    then show ?thesis by (simp add: contains_inprogress_iff spec)
  next
    case False
    then have "(p, as_u32 b) \<in> in_flight (started t) \<union> finished_blocks (started t)"
      using that by (simp add: fresh_blocks_def contains_inprogress_iff)
    then show ?thesis by (auto simp: contains_inprogress_iff spec)
  qed
  moreover have new: "map (\<lambda>r. (req_begin r, req_length r)) reqs =
      filter (\<lambda>(b, l). contains_inprogress (started t) p b = None) (piece_blocks ?n)"
    by (simp add: reqs fresh_blocks_def piece_blocks_def filter_map comp_def mk_request_def)
  moreover have "\<exists>s. slices_run (slices_new ?n) answers = Some (True, s)"
    if "mset answers = mset (map (\<lambda>r. (req_begin r, req_length r)) reqs) +
        mset (filter (\<lambda>(b, l). contains_inprogress (started t) p b \<noteq> None) (piece_blocks ?n))" for answers
  proof -
    have "mset answers = mset (piece_blocks ?n)"
      unfolding that new by (simp add: mset_filter multiset_partition [of "mset (piece_blocks ?n)"] split_def)
    then show ?thesis using piece_blocks_complete [OF assigned_size_bounds [OF good(1)]] by blast
  qed
  ultimately show ?thesis by blast
qed

lemma assignment_completes_piece_witness:
  "\<exists>t'. assign_piece 5 block_torrent 0 [[1]] (tracker_new 3 (ti_pieces (t_info block_torrent))) =
      Some (assigned block_torrent 0 [[1]] (tracker_new 3 (ti_pieces (t_info block_torrent))), t') \<and>
     contains_inprogress (started t') 0 32768 \<noteq> None \<and>
     (\<exists>s. slices_run (slices_new 40000) [(32768, 7232), (0, 16384), (16384, 16384)] = Some (True, s))"
proof -
  let ?t = "tracker_new 3 (ti_pieces (t_info block_torrent))"
  have r: "reachable (tracker_init block_torrent 3) (tracker_step block_torrent) ?t"
    by (rule reachable.start) (simp add: tracker_init_def block_torrent_ok)
  then have inv: "tracker_inv (length (ti_pieces (t_info block_torrent))) ?t"
    using tracker.reachable_inv by (simp add: tracker_good_def)
  obtain t' where t': "assign_piece 5 block_torrent 0 [[1]] ?t = Some (assigned block_torrent 0 [[1]] ?t, t')"
    using assign_piece_spec [OF block_torrent_ok inv] by blast
  have blocks: "block_begins 40000 = [0, 16384, 32768]"
    by (simp add: block_begins_def PIECE_BLOCK_SIZE_def upt_rec)
  have "downloading_requests_len ?t + length (block_begins (assigned_size block_torrent 0)) \<le> 3"
    unfolding block_torrent_size blocks
    by (simp add: tracker_new_def downloading_requests_len_def ptb_downloading_requests_len_def empty_block_map_def
        bt_empty_def)
  note out = assignment_completes_piece [OF r _ this t', unfolded block_torrent_size blocks, simplified]
  have none: "contains_inprogress (started ?t) 0 b = None" for b
    by (simp add: contains_inprogress_iff tracker_new_def)
  have "piece_blocks 40000 = [(0, 16384), (16384, 16384), (32768, 7232)]"
    by (simp add: piece_blocks_def blocks PIECE_BLOCK_SIZE_def)
  then have perm: "mset [(32768, 7232), (0, 16384), (16384, 16384)] = mset (piece_blocks 40000)" by simp
  from out have reqs: "map (\<lambda>r. (req_begin r, req_length r)) (assigned block_torrent 0 [[1]] ?t) = piece_blocks 40000"
    by (simp add: none)
  from out have "\<exists>s. slices_run (slices_new 40000) answers = Some (True, s)" if "mset answers = mset (piece_blocks 40000)" for answers
    using that by (simp add: none flip: reqs)
  from this [OF perm] show ?thesis using out t' by blast
qed

text \<open>
  A block that arrives for a request in flight moves from "in flight" to "done" and frees
  its place in the limit; for any other block the tracker answers \<open>None\<close> and does not change.
  A finished piece has no block left in either set; it leaves the incomplete pieces exactly
  when it had been started.
\<close>

theorem finishing:
  assumes "reachable (tracker_init torrent max_out) (tracker_step torrent) t"
    and "set_request_finished p b t = (r, t1)" and "set_piece_finished p t = t2"
  shows "(if (p, b) \<in> in_flight (started t)
      then r = Some () \<and> in_flight (started t1) = in_flight (started t) - {(p, b)} \<and>
        finished_blocks (started t1) = insert (p, b) (finished_blocks (started t)) \<and>
        downloading_requests_len t1 + 1 = downloading_requests_len t
      else r = None \<and> t1 = t) \<and>
    p \<in> pieces_completed t2 \<and>
    (\<forall>b. (p, b) \<notin> in_flight (started t2) \<union> finished_blocks (started t2)) \<and>
    (p \<in> get_incomplete_pieces t2 \<longleftrightarrow> p \<in> pieces_not_started t)"
proof -
  have maps: "maps_ok (started t)"
    using tracker.reachable_inv [OF assms(1)] by (simp add: tracker_good_def tracker_inv_def)
  have t2: "started t2 = ptb_remove_piece p (started t)" "pieces_not_started t2 = pieces_not_started t"
    "pieces_completed t2 = insert p (pieces_completed t)"
    using assms(3) by (auto simp: set_piece_finished_def)
  have "ptb_pieces (started t2) = ptb_pieces (started t) - {p}"
    using maps by (auto simp: t2 ptb_remove_piece_def ptb_pieces_eq maps_ok_def)
  moreover have "(p, b) \<notin> in_flight (started t2) \<union> finished_blocks (started t2)" for b
    using maps by (auto simp: t2 ptb_remove_piece_def in_flight_def finished_blocks_def maps_ok_def)
  ultimately show ?thesis
    using set_request_finished_spec [OF maps assms(2)] t2 by (auto simp: get_incomplete_pieces_def)
qed

lemma finishing_witness:
  "\<exists>t t1. in_flight (started t) = {(0, 0), (0, 16384)} \<and> set_request_finished 0 16384 t = (Some (), t1) \<and>
     in_flight (started t1) = {(0, 0)}"
proof -
  obtain t where t: "reachable (tracker_init block_torrent 2) (tracker_step block_torrent) t"
    "in_flight (started t) = {(0, 0), (0, 16384)}" by (rule block_round)
  obtain r t1 where r: "set_request_finished 0 16384 t = (r, t1)" by fastforce
  have "r = Some () \<and> in_flight (started t1) = {(0, 0)}"
    using finishing [OF t(1) r refl] t(2) by auto
  then show ?thesis using t(2) r by blast
qed

end
