(* ===== verification/Torrent_State.thy ===== *)
theory Torrent_State
  imports Tracker_Invariant
begin

text \<open>
  The shared state of \<open>src/peer/state/mod.rs\<close>: which peer has which piece
  (\<open>PeerPieceMap\<close>), who chokes us and who is interested in us, what we told each peer
  (\<open>InternalPeerState\<close>), the queue of requests to answer, and the piece tracker. The fields
  carry the prefix \<open>ts\<close> (and \<open>ips\<close>, \<open>ppm\<close>) of their struct.

  The invariant \<open>state_inv\<close> says that the two maps of \<open>PeerPieceMap\<close> are inverse to each
  other, that the sets of peers only hold known peers, and that nobody is marked as choked.
\<close>

section \<open>Which peer has which piece\<close>

record peer_piece_map =
  ppm_pieces_to_peers :: "(u32, internal_peer_id set) btree"
  ppm_peers_to_pieces :: "(internal_peer_id, u32 set) btree"

definition peer_interest :: "peer_piece_map \<Rightarrow> internal_peer_id \<Rightarrow> u32 set \<Rightarrow> u32 set" where
  "peer_interest m peer_id outstanding_pieces =
     (case bt_get (ppm_peers_to_pieces m) peer_id of
        Some peer_pieces \<Rightarrow> outstanding_pieces \<inter> peer_pieces
      | None \<Rightarrow> {})"

definition ppm_add_piece :: "internal_peer_id \<Rightarrow> u32 \<Rightarrow> peer_piece_map \<Rightarrow> peer_piece_map" where
  "ppm_add_piece peer_id piece m =
     (let ptb = (case bt_get (ppm_peers_to_pieces m) peer_id of None \<Rightarrow> {} | Some s \<Rightarrow> s);
          btp = (case bt_get (ppm_pieces_to_peers m) piece of None \<Rightarrow> {} | Some s \<Rightarrow> s) in
      m\<lparr>ppm_peers_to_pieces := bt_insert peer_id (insert piece ptb) (ppm_peers_to_pieces m),
        ppm_pieces_to_peers := bt_insert piece (insert peer_id btp) (ppm_pieces_to_peers m)\<rparr>)"

definition get_peers_with_piece :: "peer_piece_map \<Rightarrow> u32 \<Rightarrow> internal_peer_id set" where
  "get_peers_with_piece m piece =
     (case bt_get (ppm_pieces_to_peers m) piece of Some ps \<Rightarrow> ps | None \<Rightarrow> {})"

text \<open>The loop over the removed peer's pieces; it does the same in every order.\<close>

definition forget_peer :: "internal_peer_id \<Rightarrow> u32 \<Rightarrow> (u32, internal_peer_id set) btree \<Rightarrow> (u32, internal_peer_id set) btree" where
  "forget_peer peer_id block m =
     (case bt_get m block of Some ps \<Rightarrow> bt_insert block (ps - {peer_id}) m | None \<Rightarrow> m)"

definition ppm_remove_peer :: "internal_peer_id \<Rightarrow> peer_piece_map \<Rightarrow> peer_piece_map" where
  "ppm_remove_peer peer_id m =
     (case bt_get (ppm_peers_to_pieces m) peer_id of
        None \<Rightarrow> m
      | Some blocks \<Rightarrow>
          m\<lparr>ppm_peers_to_pieces := bt_remove peer_id (ppm_peers_to_pieces m),
            ppm_pieces_to_peers := fold (forget_peer peer_id) (sorted_list_of_set blocks) (ppm_pieces_to_peers m)\<rparr>)"

section \<open>The torrent's state\<close>

record internal_peer_state =
  ips_choked :: bool
  ips_interested :: bool

definition default_peer_state :: internal_peer_state where
  "default_peer_state = \<lparr>ips_choked = False, ips_interested = False\<rparr>"

record torrent_state =
  ts_tracking :: piece_block_tracker
  ts_peers_interested :: "internal_peer_id set"
  ts_peers_not_choking :: "internal_peer_id set"
  ts_block_peer_map :: peer_piece_map
  ts_peers :: "(internal_peer_id, internal_peer_state) btree"
  ts_outstanding :: "peer_requested_piece list"

definition torrent_state_new :: "v1_piece list \<Rightarrow> usize \<Rightarrow> torrent_state" where
  "torrent_state_new pieces max_outstanding =
     \<lparr>ts_tracking = tracker_new max_outstanding pieces, ts_peers_interested = {}, ts_peers_not_choking = {},
      ts_block_peer_map = \<lparr>ppm_pieces_to_peers = bt_empty, ppm_peers_to_pieces = bt_empty\<rparr>,
      ts_peers = bt_empty, ts_outstanding = []\<rparr>"

definition add_peer_id :: "internal_peer_id \<Rightarrow> torrent_state \<Rightarrow> torrent_state" where
  "add_peer_id peer_id s =
     (if bt_get (ts_peers s) peer_id = None
      then s\<lparr>ts_peers := bt_insert peer_id default_peer_state (ts_peers s)\<rparr> else s)"

definition set_peer_choked_us :: "internal_peer_id \<Rightarrow> bool \<Rightarrow> torrent_state \<Rightarrow> torrent_state" where
  "set_peer_choked_us peer_id choked s =
     (let s = add_peer_id peer_id s in
      if \<not> choked then s\<lparr>ts_peers_not_choking := insert peer_id (ts_peers_not_choking s)\<rparr>
      else s\<lparr>ts_peers_not_choking := ts_peers_not_choking s - {peer_id}\<rparr>)"

definition set_peers_interested_in_us :: "internal_peer_id \<Rightarrow> bool \<Rightarrow> torrent_state \<Rightarrow> torrent_state" where
  "set_peers_interested_in_us peer_id interested s =
     (let s = add_peer_id peer_id s in
      if interested then s\<lparr>ts_peers_interested := insert peer_id (ts_peers_interested s)\<rparr>
      else s\<lparr>ts_peers_interested := ts_peers_interested s - {peer_id}\<rparr>)"

definition peer_set :: "torrent_state \<Rightarrow> internal_peer_id set" where
  "peer_set s = set (bt_keys (ts_peers s))"

definition peers_that_choke :: "bool \<Rightarrow> torrent_state \<Rightarrow> internal_peer_id set" where
  "peers_that_choke choke s =
     (if choke then peer_set s - ts_peers_not_choking s else peer_set s \<inter> ts_peers_not_choking s)"

definition peers_that_are_interested :: "bool \<Rightarrow> torrent_state \<Rightarrow> internal_peer_id set" where
  "peers_that_are_interested interested s =
     (if \<not> interested then peer_set s - ts_peers_interested s else peer_set s \<inter> ts_peers_interested s)"

definition our_interest :: "internal_peer_id \<Rightarrow> torrent_state \<Rightarrow> bool" where
  "our_interest peer_id s =
     (peer_interest (ts_block_peer_map s) peer_id (pieces_not_started (ts_tracking s)) \<noteq> {})"

definition add_pieces_for_peer :: "internal_peer_id \<Rightarrow> u32 list \<Rightarrow> torrent_state \<Rightarrow> bool option \<times> torrent_state" where
  "add_pieces_for_peer peer_id pieces s =
     (let s = add_peer_id peer_id s;
          prev_interest = our_interest peer_id s;
          s = s\<lparr>ts_block_peer_map := fold (ppm_add_piece peer_id) pieces (ts_block_peer_map s)\<rparr>;
          interest = our_interest peer_id s in
      if prev_interest \<noteq> interest then
        (let st = (case bt_get (ts_peers s) peer_id of None \<Rightarrow> default_peer_state | Some st \<Rightarrow> st) in
         (Some interest, s\<lparr>ts_peers := bt_insert peer_id (st\<lparr>ips_interested := interest\<rparr>) (ts_peers s)\<rparr>))
      else (None, s))"

definition get_internal_peer_state :: "internal_peer_id \<Rightarrow> torrent_state \<Rightarrow> internal_peer_state option" where
  "get_internal_peer_state peer_id s = bt_get (ts_peers s) peer_id"

text \<open>
  The pieces still wanted, each with the peers that have it and do not choke us. The map is
  collected from a chain of two sets; every key always gets the same value, so the order of
  the iteration does not show.
\<close>

definition piece_id_to_peers :: "torrent_state \<Rightarrow> (u32, internal_peer_id set) btree" where
  "piece_id_to_peers s =
     (let peers_we_can_download_from = peers_that_choke False s in
      bt_collect (map (\<lambda>piece. (piece, peers_we_can_download_from \<inter> get_peers_with_piece (ts_block_peer_map s) piece))
        (sorted_list_of_set (get_incomplete_pieces (ts_tracking s)))))"

text \<open>The returned \<open>Option<PeerId>\<close> depends on who else holds the \<open>Arc\<close>; the caller drops it.\<close>

definition state_remove_peer :: "internal_peer_id \<Rightarrow> torrent_state \<Rightarrow> torrent_state" where
  "state_remove_peer peer_id s =
     (let s = add_peer_id peer_id s in
      s\<lparr>ts_peers := bt_remove peer_id (ts_peers s),
        ts_peers_interested := ts_peers_interested s - {peer_id},
        ts_peers_not_choking := ts_peers_not_choking s - {peer_id},
        ts_block_peer_map := ppm_remove_peer peer_id (ts_block_peer_map s)\<rparr>)"

section \<open>The maps are inverse to each other\<close>

definition has_piece :: "peer_piece_map \<Rightarrow> internal_peer_id \<Rightarrow> u32 set" where
  "has_piece m peer_id = (case bt_get (ppm_peers_to_pieces m) peer_id of None \<Rightarrow> {} | Some s \<Rightarrow> s)"

definition ppm_inv :: "peer_piece_map \<Rightarrow> bool" where
  "ppm_inv m \<longleftrightarrow>
     bt_wf (ppm_pieces_to_peers m) \<and> bt_wf (ppm_peers_to_pieces m) \<and>
     (\<forall>p. finite (has_piece m p)) \<and> (\<forall>x. finite (get_peers_with_piece m x)) \<and>
     (\<forall>p x. x \<in> has_piece m p \<longleftrightarrow> p \<in> get_peers_with_piece m x)"

lemma peer_interest_eq: "peer_interest m p S = S \<inter> has_piece m p"
  by (auto simp: peer_interest_def has_piece_def split: option.split)

lemma has_piece_add [simp]:
  "has_piece (ppm_add_piece p x m) q = (if q = p then insert x (has_piece m q) else has_piece m q)"
  by (auto simp: has_piece_def ppm_add_piece_def Let_def split: option.splits)

lemma get_peers_add [simp]:
  "get_peers_with_piece (ppm_add_piece p x m) y =
     (if y = x then insert p (get_peers_with_piece m y) else get_peers_with_piece m y)"
  by (auto simp: get_peers_with_piece_def ppm_add_piece_def Let_def split: option.splits)

lemma ppm_add_inv [inv_intros]: "ppm_inv m \<Longrightarrow> ppm_inv (ppm_add_piece p x m)"
  by (auto simp: ppm_inv_def) (auto simp: ppm_add_piece_def Let_def)

lemma ppm_add_all:
  "has_piece (fold (ppm_add_piece p) xs m) q = (if q = p then set xs \<union> has_piece m q else has_piece m q)"
  by (induction xs arbitrary: m) auto

lemma ppm_add_all_inv [inv_intros]: "ppm_inv m \<Longrightarrow> ppm_inv (fold (ppm_add_piece p) xs m)"
  by (induction xs arbitrary: m) (simp_all add: ppm_add_inv)

definition peers_of :: "(u32, internal_peer_id set) btree \<Rightarrow> u32 \<Rightarrow> internal_peer_id set" where
  "peers_of m x = (case bt_get m x of Some ps \<Rightarrow> ps | None \<Rightarrow> {})"

lemma forget_peer_get [simp]:
  "peers_of (forget_peer p x m) y = (if y = x then peers_of m y - {p} else peers_of m y)"
  by (auto simp: forget_peer_def peers_of_def split: option.splits)

lemma forget_peer_wf [simp]: "bt_wf m \<Longrightarrow> bt_wf (forget_peer p x m)"
  by (simp add: forget_peer_def split: option.split)

lemma forget_all:
  "peers_of (fold (forget_peer p) xs m) y = (if y \<in> set xs then peers_of m y - {p} else peers_of m y) \<and>
   (bt_wf m \<longrightarrow> bt_wf (fold (forget_peer p) xs m))"
  by (induction xs arbitrary: m) auto

lemma get_peers_eq: "get_peers_with_piece m x = peers_of (ppm_pieces_to_peers m) x"
  by (simp add: get_peers_with_piece_def peers_of_def)

lemma ppm_remove_eqs:
  assumes "ppm_inv m"
  shows "has_piece (ppm_remove_peer p m) q = (if q = p then {} else has_piece m q)"
    "get_peers_with_piece (ppm_remove_peer p m) x = get_peers_with_piece m x - {p}"
    "ppm_inv (ppm_remove_peer p m)"
proof -
  have *: "has_piece (ppm_remove_peer p m) q = (if q = p then {} else has_piece m q) \<and>
      get_peers_with_piece (ppm_remove_peer p m) x = get_peers_with_piece m x - {p} \<and>
      bt_wf (ppm_pieces_to_peers (ppm_remove_peer p m)) \<and> bt_wf (ppm_peers_to_pieces (ppm_remove_peer p m))" for q x
  proof (cases "bt_get (ppm_peers_to_pieces m) p")
    case None
    then have "has_piece m p = {}" by (simp add: has_piece_def)
    then show ?thesis
      using None assms by (auto simp: ppm_remove_peer_def ppm_inv_def)
  next
    case (Some blocks)
    then have "blocks = has_piece m p" by (simp add: has_piece_def)
    moreover have "finite blocks" using assms \<open>blocks = has_piece m p\<close> by (simp add: ppm_inv_def)
    moreover have "x \<in> has_piece m p \<longleftrightarrow> p \<in> peers_of (ppm_pieces_to_peers m) x"
      using assms unfolding get_peers_eq [symmetric] by (simp add: ppm_inv_def)
    ultimately show ?thesis
      using Some assms forget_all [of p "sorted_list_of_set blocks" "ppm_pieces_to_peers m" x]
      by (auto simp: ppm_remove_peer_def ppm_inv_def has_piece_def get_peers_eq)
  qed
  show "has_piece (ppm_remove_peer p m) q = (if q = p then {} else has_piece m q)"
    "get_peers_with_piece (ppm_remove_peer p m) x = get_peers_with_piece m x - {p}"
    using * by blast+
  show "ppm_inv (ppm_remove_peer p m)"
    using * assms by (auto simp: ppm_inv_def split: if_splits)
qed

section \<open>The invariant of the state\<close>

definition state_inv :: "torrent_state \<Rightarrow> bool" where
  "state_inv s \<longleftrightarrow>
     ppm_inv (ts_block_peer_map s) \<and> bt_wf (ts_peers s) \<and>
     ts_peers_interested s \<subseteq> peer_set s \<and> ts_peers_not_choking s \<subseteq> peer_set s \<and>
     (\<forall>p. has_piece (ts_block_peer_map s) p \<noteq> {} \<longrightarrow> p \<in> peer_set s) \<and>
     (\<forall>p st. bt_get (ts_peers s) p = Some st \<longrightarrow> \<not> ips_choked st)"

lemma torrent_state_new_inv [inv_intros]: "state_inv (torrent_state_new pieces n)"
  by (auto simp: state_inv_def torrent_state_new_def ppm_inv_def has_piece_def get_peers_with_piece_def bt_empty_def)

lemma peer_set_simps [simp]:
  "peer_set (s\<lparr>ts_peers := m\<rparr>) = set (bt_keys m)"
  "peer_set (s\<lparr>ts_peers_interested := A\<rparr>) = peer_set s"
  "peer_set (s\<lparr>ts_peers_not_choking := A\<rparr>) = peer_set s"
  "peer_set (s\<lparr>ts_block_peer_map := M\<rparr>) = peer_set s"
  "peer_set (s\<lparr>ts_tracking := T\<rparr>) = peer_set s"
  "peer_set (s\<lparr>ts_outstanding := Q\<rparr>) = peer_set s"
  by (simp_all add: peer_set_def)

lemma add_peer_id_facts [simp]:
  "peer_set (add_peer_id p s) = insert p (peer_set s)"
  "set (bt_keys (ts_peers (add_peer_id p s))) = insert p (peer_set s)"
  "ts_tracking (add_peer_id p s) = ts_tracking s"
  "ts_block_peer_map (add_peer_id p s) = ts_block_peer_map s"
  "ts_peers_interested (add_peer_id p s) = ts_peers_interested s"
  "ts_peers_not_choking (add_peer_id p s) = ts_peers_not_choking s"
  "ts_outstanding (add_peer_id p s) = ts_outstanding s"
  using bt_get_None_iff [of "ts_peers s" p] by (auto simp: add_peer_id_def peer_set_def)

lemma add_peer_id_inv [inv_intros]: "state_inv s \<Longrightarrow> state_inv (add_peer_id p s)"
  unfolding state_inv_def add_peer_id_facts
  by (auto simp: add_peer_id_def default_peer_state_def split: if_splits)

lemma set_peer_choked_us_facts:
  "ts_tracking (set_peer_choked_us p c s) = ts_tracking s"
  "ts_block_peer_map (set_peer_choked_us p c s) = ts_block_peer_map s"
  "ts_outstanding (set_peer_choked_us p c s) = ts_outstanding s"
  "peer_set (set_peer_choked_us p c s) = insert p (peer_set s)"
  "ts_peers_not_choking (set_peer_choked_us p c s) =
     (if c then ts_peers_not_choking s - {p} else insert p (ts_peers_not_choking s))"
  "ts_peers_interested (set_peer_choked_us p c s) = ts_peers_interested s"
  "ts_peers (set_peer_choked_us p c s) = ts_peers (add_peer_id p s)"
  by (simp_all add: set_peer_choked_us_def Let_def)

lemma set_peers_interested_facts:
  "ts_tracking (set_peers_interested_in_us p c s) = ts_tracking s"
  "ts_block_peer_map (set_peers_interested_in_us p c s) = ts_block_peer_map s"
  "ts_outstanding (set_peers_interested_in_us p c s) = ts_outstanding s"
  "peer_set (set_peers_interested_in_us p c s) = insert p (peer_set s)"
  "ts_peers_interested (set_peers_interested_in_us p c s) =
     (if c then insert p (ts_peers_interested s) else ts_peers_interested s - {p})"
  "ts_peers_not_choking (set_peers_interested_in_us p c s) = ts_peers_not_choking s"
  "ts_peers (set_peers_interested_in_us p c s) = ts_peers (add_peer_id p s)"
  by (simp_all add: set_peers_interested_in_us_def Let_def)

lemma set_flags_inv [inv_intros]:
  assumes "state_inv s"
  shows "state_inv (set_peer_choked_us p c s)" "state_inv (set_peers_interested_in_us p c s)"
  using add_peer_id_inv [OF assms, of p]
  by (auto simp: state_inv_def set_peer_choked_us_facts set_peers_interested_facts)

text \<open>The interest we announce can only rise: adding pieces never makes it fall.\<close>

lemma add_pieces_spec:
  assumes "add_pieces_for_peer p xs s = (change, s')"
  shows "ts_tracking s' = ts_tracking s" "ts_outstanding s' = ts_outstanding s"
    "has_piece (ts_block_peer_map s') q = (if q = p then set xs \<union> has_piece (ts_block_peer_map s) q else has_piece (ts_block_peer_map s) q)"
    "peer_set s' = insert p (peer_set s)"
    "ts_peers_not_choking s' = ts_peers_not_choking s" "ts_peers_interested s' = ts_peers_interested s"
    "change = (if \<not> our_interest p s \<and> our_interest p s' then Some True else None)"
    "our_interest p s \<Longrightarrow> our_interest p s'"
    "ts_block_peer_map s' = fold (ppm_add_piece p) xs (ts_block_peer_map s)"
  using assms
  by (auto simp: add_pieces_for_peer_def Let_def our_interest_def ppm_add_all peer_interest_eq split: if_splits)

lemma add_pieces_inv [inv_intros]:
  assumes "add_pieces_for_peer p xs s = (change, s')" "state_inv s"
  shows "state_inv s'"
proof -
  note facts = add_pieces_spec [OF assms(1)]
  have "state_inv (add_peer_id p s)" by (rule add_peer_id_inv [OF assms(2)])
  moreover have "\<exists>st. ts_peers s' = ts_peers (add_peer_id p s) \<or>
      ts_peers s' = bt_insert p (st\<lparr>ips_interested := our_interest p s'\<rparr>) (ts_peers (add_peer_id p s)) \<and>
      (bt_get (ts_peers (add_peer_id p s)) p = Some st \<or> st = default_peer_state)"
    using assms(1) by (auto simp: add_pieces_for_peer_def Let_def our_interest_def split: if_splits option.splits)
  ultimately show ?thesis
    using assms(2) facts
    by (auto simp: state_inv_def default_peer_state_def ppm_add_all_inv split: if_splits)
qed

lemma state_remove_facts:
  assumes "state_inv s"
  shows "state_inv (state_remove_peer p s)" "peer_set (state_remove_peer p s) = peer_set s - {p}"
    "ts_tracking (state_remove_peer p s) = ts_tracking s"
    "ts_outstanding (state_remove_peer p s) = ts_outstanding s"
    "get_peers_with_piece (ts_block_peer_map (state_remove_peer p s)) x =
       get_peers_with_piece (ts_block_peer_map s) x - {p}"
    "ts_peers_not_choking (state_remove_peer p s) = ts_peers_not_choking s - {p}"
proof -
  have inv: "state_inv (add_peer_id p s)" by (rule add_peer_id_inv [OF assms])
  then have wf: "bt_wf (ts_peers (add_peer_id p s))" "ppm_inv (ts_block_peer_map s)"
    by (simp_all add: state_inv_def)
  have keys: "set (bt_keys (bt_remove p (ts_peers (add_peer_id p s)))) = peer_set s - {p}"
    using bt.keys_get [OF wf(1)] bt.keys_get [OF bt_wf_remove [OF wf(1)], of p] add_peer_id_facts(2) [of p s]
    by (auto simp: wf(1))
  then show set: "peer_set (state_remove_peer p s) = peer_set s - {p}"
    by (simp add: state_remove_peer_def Let_def peer_set_def)
  show "state_inv (state_remove_peer p s)"
    using inv wf assms set ppm_remove_eqs [OF wf(2), of p]
    by (auto simp: state_inv_def state_remove_peer_def Let_def split: if_splits)
qed (use assms in \<open>simp_all add: state_remove_peer_def Let_def ppm_remove_eqs state_inv_def\<close>)

lemma piece_id_to_peers_get:
  assumes "finite (get_incomplete_pieces (ts_tracking s))"
  shows "bt_get (piece_id_to_peers s) x =
    (if x \<in> get_incomplete_pieces (ts_tracking s)
     then Some (peers_that_choke False s \<inter> get_peers_with_piece (ts_block_peer_map s) x) else None)"
    "bt_wf (piece_id_to_peers s)"
proof -
  let ?xs = "sorted_list_of_set (get_incomplete_pieces (ts_tracking s))"
  let ?f = "\<lambda>piece. peers_that_choke False s \<inter> get_peers_with_piece (ts_block_peer_map s) piece"
  have "map_of (rev (map (\<lambda>piece. (piece, ?f piece)) ?xs)) x = (if x \<in> set ?xs then Some (?f x) else None)"
    by (simp add: rev_map map_of_map_restrict restrict_map_def)
  then show "bt_get (piece_id_to_peers s) x = (if x \<in> get_incomplete_pieces (ts_tracking s) then Some (?f x) else None)"
    using assms by (simp add: piece_id_to_peers_def Let_def bt_get_collect)
  show "bt_wf (piece_id_to_peers s)"
    by (simp add: piece_id_to_peers_def Let_def)
qed

end
