(* ===== verification/Protocol.thy ===== *)
theory Protocol
  imports Bytes_Api Model_Types
begin

text \<open>
  \<open>src/peer/protocol.rs\<close>: the handshake and the length-prefixed peer messages, their encoders
  (\<open>Encode\<close>) and decoders (\<open>Decode\<close>). An encoder takes the buffer written so far and returns
  it extended; it panics where \<open>1 + len as u32\<close> overflows. A decoder takes the unread bytes
  and returns the message with what is left; after an error the reader of \<open>net.rs\<close> discards
  its view of the buffer, so an \<open>Err\<close> carries none.
\<close>

section \<open>Definitions\<close>

definition HANDSHAKE_PROTOCOL_ID :: bytes where
  "HANDSHAKE_PROTOCOL_ID = ascii ''BitTorrent protocol''"

datatype protocol_error = TryGet try_get_error | BadId

text \<open>The \<open>?\<close> operator with \<open>#[from] TryGetError\<close>.\<close>

fun from_try_get :: "(try_get_error, 'a) res \<Rightarrow> (protocol_error, 'a) res" where
  "from_try_get (Ok a) = Ok a"
| "from_try_get (Err e) = Err (TryGet e)"
| "from_try_get Panic = Panic"

subsection \<open>The handshake\<close>

record handshake =
  peer_ctx :: peer_context

definition handshake_encode :: "bytes_api \<Rightarrow> handshake \<Rightarrow> bytes \<Rightarrow> bytes" where
  "handshake_encode A h i =
     (let i = put_u8 A i (word_of_nat (length HANDSHAKE_PROTOCOL_ID));
          i = put_slice A i HANDSHAKE_PROTOCOL_ID;
          i = put_u64 A i 0;
          i = put_slice A i (pc_info_hash (peer_ctx h))
      in put_slice A i (pc_peer_id (peer_ctx h)))"

definition handshake_decode :: "bytes_api \<Rightarrow> bytes \<Rightarrow> (protocol_error, handshake \<times> bytes) res" where
  "handshake_decode A b =
     res_bind (from_try_get (try_get_u8 A b)) (\<lambda>(p_str_len, b).
     res_bind (from_try_get (try_copy_to_slice A b (unat p_str_len))) (\<lambda>(p_str, b).
     res_bind (or_panic (advance A b 8)) (\<lambda>b.
     res_bind (from_try_get (try_copy_to_slice A b 20)) (\<lambda>(info_hash, b).
     res_bind (from_try_get (try_copy_to_slice A b 20)) (\<lambda>(peer_id, b).
     Ok (\<lparr>peer_ctx = \<lparr>pc_info_hash = info_hash, pc_peer_id = peer_id\<rparr>\<rparr>, b))))))"

subsection \<open>The messages\<close>

datatype flag_messages = Choke | Unchoke | Interested | NotInterested

fun flag_as_u8 :: "flag_messages \<Rightarrow> u8" where
  "flag_as_u8 Choke = 0"
| "flag_as_u8 Unchoke = 1"
| "flag_as_u8 Interested = 2"
| "flag_as_u8 NotInterested = 3"

definition flag_try_from :: "u8 \<Rightarrow> (protocol_error, flag_messages) res" where
  "flag_try_from value =
     (if value = 0 then Ok Choke
      else if value = 1 then Ok Unchoke
      else if value = 2 then Ok Interested
      else if value = 3 then Ok NotInterested
      else Err BadId)"

datatype messages =
    KeepAlive
  | Flag flag_messages
  | Have u32
  | BitField bytes
  | Request u32 u32 u32
  | Piece u32 u32 bytes
  | Cancel u32 u32 u32

definition interest_msg :: "bool \<Rightarrow> messages" where
  "interest_msg interest = (let msg = if interest then Interested else NotInterested in Flag msg)"

definition request_message :: "peer_requested_piece \<Rightarrow> messages" where
  "request_message v = Request (req_index v) (req_begin v) (req_length v)"

fun messages_encode :: "bytes_api \<Rightarrow> messages \<Rightarrow> bytes \<Rightarrow> (protocol_error, bytes) res" where
  "messages_encode A KeepAlive i = Ok (put_u32 A i 0)"
| "messages_encode A (Flag flag) i = Ok (put_u8 A (put_u32 A i 1) (flag_as_u8 flag))"
| "messages_encode A (Have piece_index) i =
     Ok (put_u32 A (put_u8 A (put_u32 A i 5) 4) piece_index)"
| "messages_encode A (BitField bitfield) i =
     res_bind (or_panic (u32_add 1 (as_u32 (length bitfield)))) (\<lambda>n.
     Ok (put_slice A (put_u8 A (put_u32 A i n) 5) bitfield))"
| "messages_encode A (Request index begin len) i =
     Ok (put_u32 A (put_u32 A (put_u32 A (put_u8 A (put_u32 A i 13) 6) index) begin) len)"
| "messages_encode A (Piece index begin block) i =
     res_bind (or_panic (u32_add 9 (as_u32 (length block)))) (\<lambda>n.
     Ok (put_slice A (put_u32 A (put_u32 A (put_u8 A (put_u32 A i n) 7) index) begin) block))"
| "messages_encode A (Cancel index begin len) i =
     Ok (put_u32 A (put_u32 A (put_u32 A (put_u8 A (put_u32 A i 13) 8) index) begin) len)"

text \<open>The three \<open>u32\<close> fields of a request and of a cancel message.\<close>

definition get_triple :: "bytes_api \<Rightarrow> bytes \<Rightarrow> (protocol_error, (u32 \<times> u32 \<times> u32) \<times> bytes) res" where
  "get_triple A b =
     res_bind (from_try_get (try_get_u32 A b)) (\<lambda>(index, b).
     res_bind (from_try_get (try_get_u32 A b)) (\<lambda>(begin, b).
     res_bind (from_try_get (try_get_u32 A b)) (\<lambda>(len, b).
     Ok ((index, begin, len), b))))"

definition messages_decode :: "bytes_api \<Rightarrow> bytes \<Rightarrow> (protocol_error, messages \<times> bytes) res" where
  "messages_decode A b =
     res_bind (from_try_get (try_get_u32 A b)) (\<lambda>(w, b).
     let len = unat w in
     if len = 0 then Ok (KeepAlive, b)
     else if len > remaining A b then Err (TryGet (TryGetError len (remaining A b)))
     else
       res_bind (from_try_get (try_get_u8 A b)) (\<lambda>(id, b).
       if id = 4 then
         res_bind (from_try_get (try_get_u32 A b)) (\<lambda>(piece_index, b). Ok (Have piece_index, b))
       else if id = 5 then
         res_bind (or_panic (usize_sub len 1)) (\<lambda>n.
         res_bind (from_try_get (try_copy_to_slice A b n)) (\<lambda>(bitfield, b). Ok (BitField bitfield, b)))
       else if id = 6 then
         res_bind (get_triple A b) (\<lambda>((index, begin, len), b). Ok (Request index begin len, b))
       else if id = 7 then
         res_bind (from_try_get (try_get_u32 A b)) (\<lambda>(index, b).
         res_bind (from_try_get (try_get_u32 A b)) (\<lambda>(begin, b).
         res_bind (or_panic (usize_sub len 9)) (\<lambda>n.
         res_bind (from_try_get (try_copy_to_slice A b n)) (\<lambda>(block, b).
         Ok (Piece index begin block, b)))))
       else if id = 8 then
         res_bind (get_triple A b) (\<lambda>((index, begin, len), b). Ok (Cancel index begin len, b))
       else if len = 1 then
         res_bind (flag_try_from id) (\<lambda>flag. Ok (Flag flag, b))
       else Err BadId))"

section \<open>The wire format\<close>

text \<open>
  The specification the codec is measured against: the byte string of each message in the
  peer wire protocol, and the messages whose length field fits in 32 bits.
\<close>

fun messages_body :: "messages \<Rightarrow> bytes" where
  "messages_body KeepAlive = []"
| "messages_body (Flag flag) = [flag_as_u8 flag]"
| "messages_body (Have i) = 4 # be32 i"
| "messages_body (BitField bf) = 5 # bf"
| "messages_body (Request i b l) = 6 # be32 i @ be32 b @ be32 l"
| "messages_body (Piece i b bl) = 7 # be32 i @ be32 b @ bl"
| "messages_body (Cancel i b l) = 8 # be32 i @ be32 b @ be32 l"

definition messages_wire :: "messages \<Rightarrow> bytes" where
  "messages_wire m = be32 (as_u32 (length (messages_body m))) @ messages_body m"

definition messages_fits :: "messages \<Rightarrow> bool" where
  "messages_fits m \<longleftrightarrow> length (messages_body m) < 2 ^ 32"

text \<open>
  A \<open>Vec\<close> longer than \<open>u32::MAX\<close> is truncated by \<open>len as u32\<close>; below that bound the encoder
  either writes the wire format or panics in the length addition.
\<close>

definition payload_is_u32 :: "messages \<Rightarrow> bool" where
  "payload_is_u32 m = (case m of BitField bf \<Rightarrow> length bf < 2 ^ 32 | Piece _ _ bl \<Rightarrow> length bl < 2 ^ 32 | _ \<Rightarrow> True)"

lemma fits_payload: "messages_fits m \<Longrightarrow> payload_is_u32 m"
  by (cases m) (auto simp: messages_fits_def payload_is_u32_def)

section \<open>The codec under the crate's laws\<close>

lemma flag_try_from_as_u8 [simp, codec_simps]: "flag_try_from (flag_as_u8 f) = Ok f"
  by (cases f) (simp_all add: flag_try_from_def)

lemma flag_as_u8_less: "unat (flag_as_u8 f) < 4"
  by (cases f) simp_all

lemma flag_as_u8_neq [simp]:
  "flag_as_u8 f \<noteq> 4" "flag_as_u8 f \<noteq> 5" "flag_as_u8 f \<noteq> 6" "flag_as_u8 f \<noteq> 7" "flag_as_u8 f \<noteq> 8"
  by (cases f; simp)+

lemma flag_try_from_iff: "flag_try_from v = Ok f \<longleftrightarrow> v = flag_as_u8 f"
  by (cases f) (auto simp: flag_try_from_def)

lemma flag_try_from_cases: "flag_try_from v = Err BadId \<or> (\<exists>f. v = flag_as_u8 f)"
  unfolding flag_try_from_def using flag_as_u8.simps by metis

lemma length_messages_wire [simp]: "length (messages_wire m) = 4 + length (messages_body m)"
  by (simp add: messages_wire_def)

lemma from_try_get_iff [simp]:
  "from_try_get r = Ok a \<longleftrightarrow> r = Ok a" "from_try_get r = Panic \<longleftrightarrow> r = Panic"
  by (cases r; simp)+

lemma from_try_get_Err_iff: "from_try_get r = Err e \<longleftrightarrow> (\<exists>e'. r = Err e' \<and> e = TryGet e')"
  by (cases r) auto

context bytes_laws
begin

lemma get_triple_be32 [codec_simps]:
  "get_triple A (be32 i @ be32 b @ be32 l @ r) = Ok ((i, b, l), r)"
  by (simp add: get_triple_def codec_simps)

lemma messages_encode_wire:
  assumes "payload_is_u32 m"
  shows "messages_encode A m i = (if messages_fits m then Ok (i @ messages_wire m) else Panic)"
proof (cases m)
  case (BitField bf)
  then show ?thesis
    using assms
    by (auto simp: messages_fits_def payload_is_u32_def messages_wire_def codec_simps u32_add_def as_u32_Suc as_u32_add)
next
  case (Piece a b bl)
  then show ?thesis
    using assms
    by (auto simp: messages_fits_def payload_is_u32_def messages_wire_def codec_simps u32_add_def as_u32_Suc as_u32_add)
qed (auto simp: messages_fits_def payload_is_u32_def messages_wire_def codec_simps)

lemma messages_decode_wire:
  assumes "messages_fits m"
  shows "messages_decode A (messages_wire m @ r) = Ok (m, r)"
  using assms
  by (cases m) (auto simp: messages_fits_def messages_wire_def messages_decode_def codec_simps
        usize_sub_def)

lemma messages_decode_short:
  assumes fits: "messages_fits m" and p: "messages_wire m = p @ q" and q: "q \<noteq> []"
  shows "\<exists>req av. messages_decode A p = Err (TryGet (TryGetError req av)) \<and> req \<le> length (messages_wire m)"
proof (cases "length p < 4")
  case True
  then show ?thesis
    by (simp add: messages_decode_def codec_simps)
next
  case False
  let ?n = "length (messages_body m)"
  have "take 4 p = be32 (as_u32 ?n)" "messages_body m = drop 4 p @ q"
    using False arg_cong [OF p, of "take 4"] arg_cong [OF p, of "drop 4"]
    by (simp_all add: messages_wire_def)
  then obtain p' where p': "p = be32 (as_u32 ?n) @ p'" "messages_body m = p' @ q"
    by (metis append_take_drop_id)
  then have "length p' < ?n" using q by (cases q) auto
  then show ?thesis
    using fits p' by (auto simp: messages_decode_def codec_simps messages_fits_def)
qed

lemma get_triple_Ok_iff:
  "get_triple A b = Ok ((i, g, l), r) \<longleftrightarrow> b = be32 i @ be32 g @ be32 l @ r"
  by (auto simp: get_triple_def res_bind_Ok_iff try_get_Ok_iffs)

lemma get_triple_no_panic [simp]: "get_triple A b \<noteq> Panic"
  by (auto simp: get_triple_def res_bind_Panic_iff)

lemma flag_try_from_no_panic [simp]: "flag_try_from v \<noteq> Panic"
  by (simp add: flag_try_from_def)

text \<open>What the decoder accepts: a length word, the body of the message, the rest.\<close>

lemma messages_decode_OkD:
  assumes "messages_decode A b = Ok (m, r)"
  shows "\<exists>w. b = be32 w @ messages_body m @ r \<and> (m = KeepAlive \<longleftrightarrow> w = 0) \<and>
    (case m of Have _ \<Rightarrow> True | Request _ _ _ \<Rightarrow> True | Cancel _ _ _ \<Rightarrow> True
       | _ \<Rightarrow> unat w = length (messages_body m))"
proof -
  obtain w b1 where b: "b = be32 w @ b1"
    using assms by (auto simp: messages_decode_def res_bind_Ok_iff try_get_Ok_iffs)
  show ?thesis
    using assms
    by (auto simp: b messages_decode_def remaining res_bind_Ok_iff try_get_Ok_iffs get_triple_Ok_iff
        Let_def usize_sub_Some flag_try_from_iff unat_eq_0 split: if_splits)
qed

lemma messages_decode_Panic_iff:
  "messages_decode A b = Panic \<longleftrightarrow>
     (\<exists>w i g r. b = be32 w @ 7 # be32 i @ be32 g @ r \<and> 0 < unat w \<and> unat w < 9)"
  (is "?l \<longleftrightarrow> ?r")
proof
  assume ?l
  then show ?r
    by (auto simp: messages_decode_def remaining res_bind_Panic_iff res_bind_Ok_iff try_get_Ok_iffs
        Let_def usize_sub_def split: if_splits)
next
  assume ?r
  then show ?l
    by (auto simp: messages_decode_def codec_simps usize_sub_def)
qed

lemma handshake_encode_eq:
  "handshake_encode A h i =
     i @ 19 # ascii ''BitTorrent protocol'' @ be64 0 @ pc_info_hash (peer_ctx h) @ pc_peer_id (peer_ctx h)"
  by (simp add: handshake_encode_def codec_simps HANDSHAKE_PROTOCOL_ID_def ascii_def)

lemma handshake_decode_Panic_iff:
  "handshake_decode A b = Panic \<longleftrightarrow>
     (\<exists>p s r. b = p # s @ r \<and> length s = unat p \<and> length r < 8)"
  by (simp add: handshake_decode_def res_bind_Panic_iff res_bind_Ok_iff try_get_Ok_iffs advance_None_iff
      case_prod_beta) fastforce

lemma handshake_decode_Ok_iff:
  "handshake_decode A b = Ok (h, r) \<longleftrightarrow>
     (\<exists>p s z. b = p # s @ z @ pc_info_hash (peer_ctx h) @ pc_peer_id (peer_ctx h) @ r \<and>
        length s = unat p \<and> length z = 8 \<and>
        length (pc_info_hash (peer_ctx h)) = 20 \<and> length (pc_peer_id (peer_ctx h)) = 20)"
  (is "?l \<longleftrightarrow> ?r")
proof
  assume ?l
  then obtain p s b2 ih pid where *: "b = p # s @ b2" "length s = unat p" "8 \<le> length b2"
    "drop 8 b2 = ih @ pid @ r" "length ih = 20" "length pid = 20"
    "h = \<lparr>peer_ctx = \<lparr>pc_info_hash = ih, pc_peer_id = pid\<rparr>\<rparr>"
    by (auto simp: handshake_decode_def res_bind_Ok_iff try_get_Ok_iffs advance_Some_iff)
  then have "b2 = take 8 b2 @ ih @ pid @ r" by (metis append_take_drop_id)
  with * show ?r
    by (intro exI [of _ p] exI [of _ s] exI [of _ "take 8 b2"]) auto
next
  assume ?r
  then show ?l
    by (auto simp: handshake_decode_def codec_simps)
qed

end

section \<open>Properties\<close>

text \<open>
  C1. Encoding a message and decoding what was written gives the message back and leaves what
  follows it, for every message whose payload length is a 32-bit number; the encoder panics
  exactly when the frame length does not fit in 32 bits.
\<close>

theorem messages_roundtrip:
  assumes "bytes_laws A" and "payload_is_u32 m"
  shows "if messages_fits m
    then \<exists>b. messages_encode A m out = Ok (out @ b) \<and> messages_decode A (b @ rest) = Ok (m, rest)
    else messages_encode A m out = Panic"
  using bytes_laws.messages_encode_wire [OF assms] bytes_laws.messages_decode_wire [OF assms(1)] by simp

lemma messages_roundtrip_witness:
  "\<exists>b. messages_encode list_bytes (Piece 1 16384 [7, 8, 9]) [] = Ok ([] @ b) \<and>
     messages_decode list_bytes (b @ [0, 0]) = Ok (Piece 1 16384 [7, 8, 9], [0, 0])"
  using messages_roundtrip [OF list_bytes.bytes_laws_axioms, of "Piece 1 16384 [7, 8, 9]" "[]" "[0, 0]"]
  by (simp add: payload_is_u32_def messages_fits_def)

text \<open>
  What the message decoder accepts: a length word, the wire form of the message it returns,
  and the unread rest; the length word is the true one for every message except \<open>Have\<close>,
  \<open>Request\<close> and \<open>Cancel\<close>, whose decoders never look at it.
\<close>

theorem messages_decode_accepts:
  assumes "bytes_laws A" and "messages_decode A b = Ok (m, rest)"
  shows "\<exists>w. b = be32 w @ messages_body m @ rest \<and> (m = KeepAlive \<longleftrightarrow> w = 0) \<and>
    (case m of Have _ \<Rightarrow> True | Request _ _ _ \<Rightarrow> True | Cancel _ _ _ \<Rightarrow> True
       | _ \<Rightarrow> unat w = length (messages_body m))"
  by (rule bytes_laws.messages_decode_OkD [OF assms])

lemma messages_decode_accepts_witness:
  "\<exists>w. [0, 0, 0, 2, 4, 0, 0, 0, 9] = be32 w @ messages_body (Have 9) @ [] \<and> (Have 9 = KeepAlive \<longleftrightarrow> w = 0)"
  using messages_decode_accepts [OF list_bytes.bytes_laws_axioms, of "[0, 0, 0, 2, 4, 0, 0, 0, 9]" "Have 9" "[]"]
  by (simp add: messages_decode_def list_bytes_eval)

text \<open>
  The message decoder panics on exactly one kind of input: a \<open>Piece\<close> frame whose length
  word is smaller than the nine bytes of its header (\<open>len - 9\<close> underflows).
\<close>

theorem messages_decode_panics:
  assumes "bytes_laws A"
  shows "messages_decode A b = Panic \<longleftrightarrow>
     (\<exists>w index start r. b = be32 w @ 7 # be32 index @ be32 start @ r \<and> 0 < unat w \<and> unat w < 9)"
  by (rule bytes_laws.messages_decode_Panic_iff [OF assms])

lemma messages_decode_panics_witness:
  "messages_decode list_bytes [0, 0, 0, 8, 7, 0, 0, 0, 1, 0, 0, 0, 2] = Panic"
proof -
  have "[0, 0, 0, 8, 7, 0, 0, 0, 1, 0, 0, 0, 2] = be32 8 @ 7 # be32 1 @ be32 2 @ []"
    by (simp add: be32_def)
  then show ?thesis
    unfolding messages_decode_panics [OF list_bytes.bytes_laws_axioms] by force
qed

text \<open>
  The handshake: what is sent decodes to the info hash and peer id that went in, with the
  rest of the stream untouched, when both are 20 bytes long.
\<close>

theorem handshake_roundtrip:
  assumes "bytes_laws A"
    and "length (pc_info_hash (peer_ctx h)) = 20" "length (pc_peer_id (peer_ctx h)) = 20"
  shows "\<exists>b. handshake_encode A h out = out @ b \<and> length b = 68 \<and>
    handshake_decode A (b @ rest) = Ok (h, rest)"
proof -
  let ?b = "19 # ascii ''BitTorrent protocol'' @ be64 0 @ pc_info_hash (peer_ctx h) @ pc_peer_id (peer_ctx h)"
  have "length (ascii ''BitTorrent protocol'') = 19" by (simp add: ascii_def)
  then have len: "length (ascii ''BitTorrent protocol'') = unat (19 :: u8)" by simp
  have "handshake_decode A (?b @ rest) = Ok (h, rest)"
    unfolding bytes_laws.handshake_decode_Ok_iff [OF assms(1)]
    by (rule exI [of _ 19], rule exI [of _ "ascii ''BitTorrent protocol''"], rule exI [of _ "be64 0"])
      (use assms(2,3) len in simp)
  moreover have "length ?b = 68" using assms(2,3) len by simp
  ultimately have "handshake_decode A (?b @ rest) = Ok (h, rest)" "length ?b = 68" by blast+
  then show ?thesis
    using bytes_laws.handshake_encode_eq [OF assms(1)] by blast
qed

lemma handshake_roundtrip_witness:
  "\<exists>b. handshake_encode list_bytes \<lparr>peer_ctx = \<lparr>pc_info_hash = replicate 20 1, pc_peer_id = replicate 20 2\<rparr>\<rparr> [] = [] @ b \<and>
     length b = 68 \<and> handshake_decode list_bytes (b @ [0]) =
       Ok (\<lparr>peer_ctx = \<lparr>pc_info_hash = replicate 20 1, pc_peer_id = replicate 20 2\<rparr>\<rparr>, [0])"
  by (rule handshake_roundtrip [OF list_bytes.bytes_laws_axioms]) simp_all

text \<open>
  The handshake decoder panics exactly when the eight reserved bytes are not all in the
  buffer yet: the protocol string is complete and fewer than eight bytes follow it.
\<close>

theorem handshake_decode_panics:
  assumes "bytes_laws A"
  shows "handshake_decode A b = Panic \<longleftrightarrow> (\<exists>p s r. b = p # s @ r \<and> length s = unat p \<and> length r < 8)"
  by (rule bytes_laws.handshake_decode_Panic_iff [OF assms])

lemma handshake_decode_panics_witness:
  "handshake_decode list_bytes (19 # ascii ''BitTorrent protocol'' @ [0, 0]) = Panic"
  unfolding handshake_decode_panics [OF list_bytes.bytes_laws_axioms]
  by (rule exI [of _ 19], rule exI [of _ "ascii ''BitTorrent protocol''"], rule exI [of _ "[0, 0]"])
    (simp add: ascii_def)

end
