(* ===== verification/Torrent_Io.thy ===== *)
theory Torrent_Io
  imports Model_Types
begin

text \<open>
  The trait \<open>TorrentIO\<close> of \<open>src/peer/io/mod.rs\<close> and the task of \<open>src/peer/io/state.rs\<close> that
  owns the implementation behind it. A trait object is the record of its methods, each taking
  the implementor's state and returning the result with the new state.

  The locale \<open>torrent_io\<close> is the contract the rest of the client relies on: a successful write
  changes exactly the written range of one piece, a read returns the current bytes and changes
  nothing, and no call touches another piece. The two implementations interpret it in
  \<open>Memory_Io\<close> and \<open>File_Io\<close>; the lemmas about the task are proved here once.
\<close>

section \<open>The trait and the task\<close>

record 'io torrent_io_ops =
  write_piece :: "'io \<Rightarrow> u32 \<Rightarrow> u32 \<Rightarrow> bytes \<Rightarrow> (peer_error, bool) res \<times> 'io"
  read_piece :: "'io \<Rightarrow> u32 \<Rightarrow> u32 \<Rightarrow> u32 \<Rightarrow> (peer_error, bytes) res \<times> 'io"

datatype io_message = ReadMessage u32 u32 u32 | WriteMessage u32 u32 bytes

datatype io_reply = ReadReply "(peer_error, bytes) res" | WriteReply "(peer_error, bool) res"

text \<open>
  The state of the task is the implementor's state, or \<open>None\<close> once the task has ended: a
  panic inside a call unwinds the task, its callback channel is dropped, and every later
  send fails. Both show up as the same error at the caller.
\<close>

definition handler_exits :: peer_error where
  "handler_exits = Other (ascii ''file handler exits...'')"

fun answer :: "('a, 'b) res \<Rightarrow> bool" where
  "answer Panic = False"
| "answer _ = True"

definition io_handler_task :: "'io torrent_io_ops \<Rightarrow> 'io option \<Rightarrow> io_message \<Rightarrow> io_reply \<times> 'io option" where
  "io_handler_task ops task msg =
     (case task of
        None \<Rightarrow>
          (case msg of
             ReadMessage _ _ _ \<Rightarrow> (ReadReply (Err handler_exits), None)
           | WriteMessage _ _ _ \<Rightarrow> (WriteReply (Err handler_exits), None))
      | Some io \<Rightarrow>
          (case msg of
             ReadMessage index begin len \<Rightarrow>
               (case read_piece ops io index begin len of (res, io') \<Rightarrow>
                  if answer res then (ReadReply res, Some io') else (ReadReply (Err handler_exits), None))
           | WriteMessage index begin block \<Rightarrow>
               (case write_piece ops io index begin block of (res, io') \<Rightarrow>
                  if answer res then (WriteReply res, Some io') else (WriteReply (Err handler_exits), None))))"

text \<open>The two methods of \<open>IoHandler\<close> that the peers' tasks call.\<close>

definition io_handler_write ::
  "'io torrent_io_ops \<Rightarrow> 'io option \<Rightarrow> u32 \<Rightarrow> u32 \<Rightarrow> bytes \<Rightarrow> (peer_error, bool) res \<times> 'io option"
where
  "io_handler_write ops task index begin block =
     (case io_handler_task ops task (WriteMessage index begin block) of
        (WriteReply res, task') \<Rightarrow> (res, task')
      | (_, task') \<Rightarrow> (Err handler_exits, task'))"

definition io_handler_read ::
  "'io torrent_io_ops \<Rightarrow> 'io option \<Rightarrow> u32 \<Rightarrow> u32 \<Rightarrow> u32 \<Rightarrow> (peer_error, bytes) res \<times> 'io option"
where
  "io_handler_read ops task index begin len =
     (case io_handler_task ops task (ReadMessage index begin len) of
        (ReadReply res, task') \<Rightarrow> (res, task')
      | (_, task') \<Rightarrow> (Err handler_exits, task'))"

text \<open>The task's loop: the messages in the order they were sent.\<close>

fun io_run :: "'io torrent_io_ops \<Rightarrow> 'io option \<Rightarrow> io_message list \<Rightarrow> io_reply list \<times> 'io option" where
  "io_run ops task [] = ([], task)"
| "io_run ops task (msg # msgs) =
     (case io_handler_task ops task msg of (reply, task') \<Rightarrow>
        (case io_run ops task' msgs of (replies, task'') \<Rightarrow> (reply # replies, task'')))"

lemma io_handler_write_Ok:
  "io_handler_write ops task i b blk = (Ok f, task') \<Longrightarrow>
     io_handler_task ops task (WriteMessage i b blk) = (WriteReply (Ok f), task')"
  by (auto simp: io_handler_write_def split: prod.splits io_reply.splits)

lemma io_handler_read_Ok:
  "io_handler_read ops task i b n = (Ok bs, task') \<Longrightarrow>
     io_handler_task ops task (ReadMessage i b n) = (ReadReply (Ok bs), task')"
  by (auto simp: io_handler_read_def split: prod.splits io_reply.splits)

section \<open>The contract\<close>

text \<open>A message that cannot change bytes \<open>lo..<hi\<close> of piece \<open>i\<close>.\<close>

fun leaves_alone :: "nat \<Rightarrow> nat \<Rightarrow> nat \<Rightarrow> io_message \<Rightarrow> bool" where
  "leaves_alone i lo hi (ReadMessage _ _ _) = True"
| "leaves_alone i lo hi (WriteMessage j b blk) =
     (unat j \<noteq> i \<or> unat b + length blk \<le> lo \<or> hi \<le> unat b)"

locale torrent_io =
  fixes ops :: "'io torrent_io_ops"
    and piece :: "'io \<Rightarrow> nat \<Rightarrow> bytes option"
    and inv :: "'io \<Rightarrow> bool"
  assumes write_Ok: "inv io \<Longrightarrow> write_piece ops io i b blk = (Ok f, io') \<Longrightarrow>
      \<exists>c. piece io (unat i) = Some c \<and> unat b + length blk \<le> length c \<and>
        piece io' = (piece io)(unat i \<mapsto> overwrite c (unat b) blk)"
    and write_fails: "inv io \<Longrightarrow> write_piece ops io i b blk = (r, io') \<Longrightarrow> \<not> is_ok r \<Longrightarrow>
      piece io' = piece io \<or>
      (\<exists>c k. piece io (unat i) = Some c \<and> k \<le> length blk \<and> unat b + length blk \<le> length c \<and>
        piece io' = (piece io)(unat i \<mapsto> overwrite c (unat b) (take k blk)))"
    and write_inv: "inv io \<Longrightarrow> write_piece ops io i b blk = (r, io') \<Longrightarrow> inv io'"
    and read_Ok: "inv io \<Longrightarrow> read_piece ops io i b n = (Ok bs, io') \<Longrightarrow>
      \<exists>c. piece io (unat i) = Some c \<and> unat b + unat n \<le> length c \<and>
        bs = take (unat n) (drop (unat b) c)"
    and read_keeps: "inv io \<Longrightarrow> read_piece ops io i b n = (rb, io') \<Longrightarrow> inv io' \<and> piece io' = piece io"
begin

text \<open>What any write can have done, whatever its result: a prefix of the block is in place.\<close>

lemma write_effect:
  assumes "inv io" "write_piece ops io j b blk = (r, io')"
  shows "piece io' = piece io \<or>
    (\<exists>d k. piece io (unat j) = Some d \<and> k \<le> length blk \<and> unat b + length blk \<le> length d \<and>
      piece io' = (piece io)(unat j \<mapsto> overwrite d (unat b) (take k blk)))"
proof (cases r)
  case (Ok f)
  then obtain d where "piece io (unat j) = Some d" "unat b + length blk \<le> length d"
    "piece io' = (piece io)(unat j \<mapsto> overwrite d (unat b) (take (length blk) blk))"
    using write_Ok [OF assms(1)] assms(2) by (metis order_refl take_all)
  then show ?thesis by blast
qed (use write_fails [OF assms] in auto)

definition task_inv :: "'io option \<Rightarrow> bool" where
  "task_inv task \<longleftrightarrow> (case task of None \<Rightarrow> True | Some io \<Rightarrow> inv io)"

lemma task_inv_step: "task_inv task \<Longrightarrow> io_handler_task ops task msg = (reply, task') \<Longrightarrow> task_inv task'"
  by (auto simp: io_handler_task_def task_inv_def split: option.splits io_message.splits prod.splits if_splits
      dest: write_inv read_keeps)

lemma task_inv_run: "task_inv task \<Longrightarrow> io_run ops task msgs = (replies, task') \<Longrightarrow> task_inv task'"
proof (induction msgs arbitrary: task replies)
  case (Cons m msgs)
  then show ?case
    using task_inv_step by (fastforce split: prod.splits)
qed simp

text \<open>The bytes \<open>lo..<hi\<close> of piece \<open>i\<close>, while the task lives.\<close>

definition holds :: "nat \<Rightarrow> nat \<Rightarrow> bytes \<Rightarrow> 'io option \<Rightarrow> bool" where
  "holds i lo bs task \<longleftrightarrow>
     (case task of None \<Rightarrow> True
      | Some io \<Rightarrow> (\<exists>c. piece io i = Some c \<and> lo + length bs \<le> length c \<and> take (length bs) (drop lo c) = bs))"

lemma holds_write:
  "task_inv task \<Longrightarrow> io_handler_task ops task (WriteMessage i b blk) = (WriteReply (Ok f), task') \<Longrightarrow>
     holds (unat i) (unat b) blk task'"
  by (auto simp: io_handler_task_def task_inv_def holds_def slice_overwrite_same
      split: option.splits prod.splits if_splits dest!: write_Ok)

lemma holds_overwrite:
  assumes "piece io i = Some c" "lo + length bs \<le> length c" "take (length bs) (drop lo c) = bs"
    and "piece io j = Some d" "b + length blk \<le> length d" "j \<noteq> i \<or> b + length blk \<le> lo \<or> lo + length bs \<le> b"
    and "piece io' = (piece io)(j \<mapsto> overwrite d b (take k blk))" "k \<le> length blk"
  shows "\<exists>c'. piece io' i = Some c' \<and> lo + length bs \<le> length c' \<and> take (length bs) (drop lo c') = bs"
proof (cases "j = i")
  case True
  then show ?thesis
    using assms slice_overwrite_other [of b "take k blk" c lo "length bs"] by auto
next
  case False
  then show ?thesis using assms by auto
qed

lemma holds_step:
  assumes "task_inv task" "holds i lo bs task" "leaves_alone i lo (lo + length bs) msg"
    and "io_handler_task ops task msg = (reply, task')"
  shows "holds i lo bs task'"
proof (cases task)
  case None
  then show ?thesis using assms(4) by (auto simp: io_handler_task_def holds_def split: io_message.splits)
next
  case (Some io)
  with assms obtain c where io: "inv io" "piece io i = Some c" "lo + length bs \<le> length c"
    "take (length bs) (drop lo c) = bs" by (auto simp: task_inv_def holds_def)
  show ?thesis
  proof (cases msg)
    case (ReadMessage j b n)
    then show ?thesis
      using assms(4) Some io read_keeps [of io j b n]
      by (auto simp: io_handler_task_def holds_def split: prod.splits if_splits)
  next
    case (WriteMessage j b blk)
    obtain r io' where w: "write_piece ops io j b blk = (r, io')" by fastforce
    have sep: "unat j \<noteq> i \<or> unat b + length blk \<le> lo \<or> lo + length bs \<le> unat b"
      using assms(3) WriteMessage by simp
    have "piece io' = piece io \<or>
      (\<exists>d k. piece io (unat j) = Some d \<and> k \<le> length blk \<and> unat b + length blk \<le> length d \<and>
        piece io' = (piece io)(unat j \<mapsto> overwrite d (unat b) (take k blk)))"
      by (rule write_effect [OF io(1) w])
    then have "\<exists>c'. piece io' i = Some c' \<and> lo + length bs \<le> length c' \<and> take (length bs) (drop lo c') = bs"
    proof (elim disjE exE conjE)
      assume "piece io' = piece io"
      then show ?thesis using io by simp
    next
      fix d k
      assume "piece io (unat j) = Some d" "k \<le> length blk" "unat b + length blk \<le> length d"
        "piece io' = (piece io)(unat j \<mapsto> overwrite d (unat b) (take k blk))"
      then show ?thesis using holds_overwrite [OF io(2-4) _ _ sep] by blast
    qed
    then show ?thesis
      using assms(4) Some WriteMessage w
      by (auto simp: io_handler_task_def holds_def split: if_splits)
  qed
qed

lemma holds_run:
  "task_inv task \<Longrightarrow> holds i lo bs task \<Longrightarrow> \<forall>m \<in> set msgs. leaves_alone i lo (lo + length bs) m \<Longrightarrow>
     io_run ops task msgs = (replies, task') \<Longrightarrow> task_inv task' \<and> holds i lo bs task'"
proof (induction msgs arbitrary: task replies)
  case Nil
  then show ?case by simp
next
  case (Cons m msgs)
  obtain reply t1 where s: "io_handler_task ops task m = (reply, t1)" by fastforce
  then obtain rs where "io_run ops t1 msgs = (rs, task')"
    using Cons.prems(4) by (auto split: prod.splits)
  with s Cons show ?case
    using task_inv_step holds_step by (metis list.set_intros)
qed

text \<open>
  Read your writes: once a write has been answered with success, any later read of those bytes
  that succeeds returns them, whatever other messages the task handled in between, as long as
  they did not write to the same bytes.
\<close>

lemma read_your_writes:
  assumes "task_inv task"
    and "io_handler_task ops task (WriteMessage i b blk) = (WriteReply (Ok f), t1)"
    and "\<forall>m \<in> set msgs. leaves_alone (unat i) (unat b) (unat b + length blk) m"
    and "io_run ops t1 msgs = (replies, t2)"
    and "io_handler_task ops t2 (ReadMessage i b n) = (ReadReply (Ok bs), t3)"
    and "unat n = length blk"
  shows "bs = blk"
proof -
  have "task_inv t2 \<and> holds (unat i) (unat b) blk t2"
    using holds_run [OF task_inv_step [OF assms(1,2)] holds_write [OF assms(1,2)] assms(3,4)] .
  then show ?thesis
    using assms(5,6)
    by (auto simp: io_handler_task_def task_inv_def holds_def split: option.splits prod.splits if_splits
        dest!: read_Ok)
qed

text \<open>A finished task answers nothing any more.\<close>

lemma exited_stays: "io_run ops None msgs = (replies, t) \<Longrightarrow> t = None"
  by (induction msgs arbitrary: replies)
    (auto simp: io_handler_task_def split: io_message.splits prod.splits)

end

end
