(* ===== verification/Processor.thy ===== *)
theory Processor
  imports Torrent_State Protocol Bitfield Torrent_Io
begin

text \<open>
  \<open>TorrentProcessor\<close> of \<open>src/peer/state/mod.rs\<close>: the main loop and the handler of each peer.
  All handlers are futures polled by the loop's own task, so the loop is a sequence of steps:
  a step is one branch of the \<open>select!\<close>, or what a handler does between two of its waits. A
  handler waits for its next message, for the answer to a write, or for room in the wake-up
  channel (\<open>handler_status\<close>).

  A channel to a peer is the list of messages sent on it and whether the receiver still
  exists; a send on a closed one fails. Their bounded capacity is not modelled, the capacity
  of the wake-up channel is: the loop is its only reader and also writes to it. \<open>None\<close> is a
  panic of the processor's task.
\<close>

section \<open>Channels\<close>

datatype internal_state_message =
    Wakeup
  | PieceComplete u32
  | PeerRequestedPiece peer_requested_piece

record channel =
  ch_messages :: "messages list"
  ch_open :: bool

definition send :: "nat \<Rightarrow> messages \<Rightarrow> channel list \<Rightarrow> bool \<times> channel list" where
  "send c msg chs =
     (if c < length chs \<and> ch_open (chs ! c)
      then (True, chs[c := (chs ! c)\<lparr>ch_messages := ch_messages (chs ! c) @ [msg]\<rparr>])
      else (False, chs))"

type_synonym peer_to_sender = "(internal_peer_id, nat) btree"

section \<open>The timer: unchoking\<close>

text \<open>One step of the loop over the peers to unchoke and to choke.\<close>

definition apply_choke ::
  "peer_to_sender \<Rightarrow> internal_peer_id \<times> bool \<Rightarrow> torrent_state \<times> channel list \<Rightarrow> torrent_state \<times> channel list"
where
  "apply_choke peer_to_tx e st =
     (case (e, st) of ((peer_id, choked), (s, chs)) \<Rightarrow>
        ((case bt_get (ts_peers s) peer_id of
            Some peer \<Rightarrow> s\<lparr>ts_peers := bt_insert peer_id (peer\<lparr>ips_choked := choked\<rparr>) (ts_peers s)\<rparr>
          | None \<Rightarrow> s),
         (case bt_get peer_to_tx peer_id of
            Some tx \<Rightarrow> snd (send tx (Flag (if choked then Choke else Unchoke)) chs)
          | None \<Rightarrow> chs)))"

definition compute_unchoke ::
  "(internal_peer_id set \<Rightarrow> internal_peer_id list) \<Rightarrow> peer_to_sender \<Rightarrow> torrent_state \<Rightarrow> channel list \<Rightarrow>
     torrent_state \<times> channel list"
where
  "compute_unchoke iter peer_to_tx s chs =
     (let ideal_stationary_choke_size = 4;
          interested_peers = peers_that_are_interested True s in
      if interested_peers \<noteq> {} then
        (let unchoked_peers = set (map fst (filter (\<lambda>(_, st). \<not> ips_choked st) (ts_peers s)));
             stationary_peer_set = unchoked_peers \<union> interested_peers;
             n = card stationary_peer_set in
         if n < ideal_stationary_choke_size then
           (let new_potential_peers = iter (interested_peers - stationary_peer_set);
                combined_peers = map (\<lambda>k. (k, False)) (take (ideal_stationary_choke_size - n) new_potential_peers);
                peers_that_left = map (\<lambda>k. (k, True)) (iter (unchoked_peers - stationary_peer_set)) in
            fold (apply_choke peer_to_tx) (combined_peers @ peers_that_left) (s, chs))
         else (s, chs))
      else (s, chs))"

section \<open>Requests of the peers\<close>

definition queue_requests :: "peer_requested_piece \<Rightarrow> torrent_state \<Rightarrow> torrent_state" where
  "queue_requests request s =
     (if get_internal_peer_state (req_peer_id request) s \<noteq> None
      then s\<lparr>ts_outstanding := ts_outstanding s @ [request]\<rparr> else s)"

text \<open>
  The loop of \<open>dequeue_requests\<close>: it pops a request before it compares the count, so the one
  popped when the count is reached is gone.
\<close>

fun pop_requests :: "usize \<Rightarrow> usize \<Rightarrow> peer_requested_piece list \<Rightarrow> peer_requested_piece list \<times> peer_requested_piece list" where
  "pop_requests to_deq cnt [] = ([], [])"
| "pop_requests to_deq cnt (dq # q) =
     (if cnt \<ge> to_deq then ([], q)
      else (case pop_requests to_deq (cnt + 1) q of (deque, q') \<Rightarrow> (dq # deque, q')))"

text \<open>Answering the popped requests; an error of the store ends the loop.\<close>

fun serve_requests ::
  "'io torrent_io_ops \<Rightarrow> peer_to_sender \<Rightarrow> peer_requested_piece list \<Rightarrow> 'io option \<Rightarrow> channel list \<Rightarrow>
     'io option \<times> channel list"
where
  "serve_requests ops peer_to_tx [] io chs = (io, chs)"
| "serve_requests ops peer_to_tx (dq # deque) io chs =
     (case bt_get peer_to_tx (req_peer_id dq) of
        None \<Rightarrow> serve_requests ops peer_to_tx deque io chs
      | Some tx \<Rightarrow>
          (case io_handler_read ops io (req_index dq) (req_begin dq) (req_length dq) of
             (Ok block, io') \<Rightarrow>
               serve_requests ops peer_to_tx deque io' (snd (send tx (Piece (req_index dq) (req_begin dq) block) chs))
           | (_, io') \<Rightarrow> (io', chs)))"

definition dequeue_requests ::
  "'io torrent_io_ops \<Rightarrow> peer_to_sender \<Rightarrow> torrent_state \<Rightarrow> 'io option \<Rightarrow> channel list \<Rightarrow>
     torrent_state \<times> 'io option \<times> channel list"
where
  "dequeue_requests ops peer_to_tx s io chs =
     (case pop_requests 4 0 (ts_outstanding s) of (deque, q) \<Rightarrow>
        (s\<lparr>ts_outstanding := q\<rparr>, serve_requests ops peer_to_tx deque io chs))"

definition prune_closed_tx :: "channel list \<Rightarrow> peer_to_sender \<Rightarrow> peer_to_sender" where
  "prune_closed_tx chs peer_to_tx =
     fold (\<lambda>(peer_id, _) m. bt_remove peer_id m)
       (filter (\<lambda>(_, c). \<not> (c < length chs \<and> ch_open (chs ! c))) peer_to_tx) peer_to_tx"

definition announce_piece :: "peer_to_sender \<Rightarrow> u32 \<Rightarrow> channel list \<Rightarrow> channel list" where
  "announce_piece peer_to_tx piece_id chs = fold (\<lambda>(_, c) chs. snd (send c (Have piece_id) chs)) peer_to_tx chs"

section \<open>Our requests\<close>

fun dispatch_requests ::
  "peer_to_sender \<Rightarrow> peer_requested_piece list \<Rightarrow> piece_block_tracker \<Rightarrow> channel list \<Rightarrow>
     piece_block_tracker \<times> channel list"
where
  "dispatch_requests peer_to_tx [] t chs = (t, chs)"
| "dispatch_requests peer_to_tx (request # requests) t chs =
     (case bt_get peer_to_tx (req_peer_id request) of
        Some tx \<Rightarrow>
          (case send tx (Request (req_index request) (req_begin request) (req_length request)) chs of
             (True, chs') \<Rightarrow> dispatch_requests peer_to_tx requests t chs'
           | (False, chs') \<Rightarrow> dispatch_requests peer_to_tx requests (snd (remove_request request t)) chs')
      | None \<Rightarrow> dispatch_requests peer_to_tx requests (snd (remove_request request t)) chs)"

definition compute_requests_for_download ::
  "(internal_peer_id set \<Rightarrow> internal_peer_id list) \<Rightarrow> (u32 \<Rightarrow> instant) \<Rightarrow> v1_torrent \<Rightarrow> peer_to_sender \<Rightarrow>
     torrent_state \<Rightarrow> channel list \<Rightarrow> (torrent_state \<times> channel list) option"
where
  "compute_requests_for_download iter now torrent peer_to_tx s chs =
     map_option (\<lambda>(requests, t).
       case dispatch_requests peer_to_tx requests t chs of (t', chs') \<Rightarrow> (s\<lparr>ts_tracking := t'\<rparr>, chs'))
     (generate_assignments iter now torrent (piece_id_to_peers s) (ts_tracking s))"

text \<open>The three messages a new connection starts with; the flag is whether all were sent.\<close>

definition init_connection ::
  "bytes_api \<Rightarrow> v1_torrent \<Rightarrow> torrent_state \<Rightarrow> nat \<Rightarrow> channel list \<Rightarrow> (bool \<times> channel list) option"
where
  "init_connection A torrent s c chs =
     map_option (\<lambda>w.
       case send c (BitField (bw_bytes w)) chs of
         (False, chs) \<Rightarrow> (False, chs)
       | (True, chs) \<Rightarrow>
           (case send c (Flag Choke) chs of
              (False, chs) \<Rightarrow> (False, chs)
            | (True, chs) \<Rightarrow> send c (Flag NotInterested) chs))
     (put_bit_set A (writer_new []) (pieces_completed (ts_tracking s)) (length (ti_pieces (t_info torrent))))"

section \<open>The handler of a peer\<close>

datatype handler_status =
    Idle                                        \<comment> \<open>waiting for the next message\<close>
  | Writing u32 u32 "(peer_error, bool) res"    \<comment> \<open>waiting for the answer to a write\<close>
  | Waking internal_state_message               \<comment> \<open>waiting to send a wake-up\<close>
  | Returned

definition pieces_present :: "bytes \<Rightarrow> u32 list" where
  "pieces_present bitfield =
     map (\<lambda>(block, _). as_u32 block)
       (filter (\<lambda>(_, was_set). was_set) (enumerate 0 (iter_drain (iter_from bitfield))))"

text \<open>Telling the peer that our interest changed; without a receiver the handler ends.\<close>

definition tell_interest :: "nat \<Rightarrow> bool option \<Rightarrow> channel list \<Rightarrow> handler_status \<times> channel list" where
  "tell_interest tx interest_change chs =
     (case interest_change of
        None \<Rightarrow> (Waking Wakeup, chs)
      | Some interest \<Rightarrow>
          (case send tx (interest_msg interest) chs of
             (True, chs') \<Rightarrow> (Waking Wakeup, chs')
           | (False, chs') \<Rightarrow> (Returned, chs')))"

fun set_flag :: "internal_peer_id \<Rightarrow> flag_messages \<Rightarrow> torrent_state \<Rightarrow> torrent_state" where
  "set_flag peer_id Choke s = set_peer_choked_us peer_id True s"
| "set_flag peer_id Unchoke s = set_peer_choked_us peer_id False s"
| "set_flag peer_id Interested s = set_peers_interested_in_us peer_id True s"
| "set_flag peer_id NotInterested s = set_peers_interested_in_us peer_id False s"

fun handle_msg ::
  "'io torrent_io_ops \<Rightarrow> internal_peer_id \<Rightarrow> nat \<Rightarrow> messages \<Rightarrow> torrent_state \<times> channel list \<times> 'io option \<Rightarrow>
     handler_status \<times> torrent_state \<times> channel list \<times> 'io option"
where
  "handle_msg ops peer_id tx KeepAlive (s, chs, io) = (Idle, s, chs, io)"
| "handle_msg ops peer_id tx (Flag flag) (s, chs, io) = (Waking Wakeup, set_flag peer_id flag s, chs, io)"
| "handle_msg ops peer_id tx (Have piece_index) (s, chs, io) =
     (case add_pieces_for_peer peer_id [piece_index] s of (change, s') \<Rightarrow>
        (case tell_interest tx change chs of (status, chs') \<Rightarrow> (status, s', chs', io)))"
| "handle_msg ops peer_id tx (BitField bitfield) (s, chs, io) =
     (case add_pieces_for_peer peer_id (pieces_present bitfield) s of (change, s') \<Rightarrow>
        (case tell_interest tx change chs of (status, chs') \<Rightarrow> (status, s', chs', io)))"
| "handle_msg ops peer_id tx (Request index begin len) (s, chs, io) =
     (let choked = (case get_internal_peer_state peer_id s of Some st \<Rightarrow> ips_choked st | None \<Rightarrow> True) in
      (if choked then Idle
       else Waking (PeerRequestedPiece \<lparr>req_peer_id = peer_id, req_index = index, req_begin = begin, req_length = len\<rparr>),
       s, chs, io))"
| "handle_msg ops peer_id tx (Cancel index begin len) (s, chs, io) = (Idle, s, chs, io)"
| "handle_msg ops peer_id tx (Piece index begin block) (s, chs, io) =
     (case io_handler_write ops io index begin block of (res, io') \<Rightarrow> (Writing index begin res, s, chs, io'))"

text \<open>The rest of the \<open>Piece\<close> arm, once the write is answered.\<close>

definition finish_write ::
  "u32 \<Rightarrow> u32 \<Rightarrow> (peer_error, bool) res \<Rightarrow> torrent_state \<Rightarrow> handler_status \<times> torrent_state"
where
  "finish_write index begin res s =
     (case res of
        Ok finished \<Rightarrow>
          if finished then
            (Waking (PieceComplete index), s\<lparr>ts_tracking := set_piece_finished index (ts_tracking s)\<rparr>)
          else
            (Waking Wakeup, s\<lparr>ts_tracking := snd (set_request_finished index begin (ts_tracking s))\<rparr>)
      | _ \<Rightarrow> (Returned, s))"

section \<open>What the loops do\<close>

text \<open>Sending never touches another channel, and closes none.\<close>

definition deliverable :: "channel list \<Rightarrow> nat \<Rightarrow> bool" where
  "deliverable chs c \<longleftrightarrow> c < length chs \<and> ch_open (chs ! c)"

definition send_all :: "(nat \<times> messages) list \<Rightarrow> channel list \<Rightarrow> channel list" where
  "send_all xs chs = fold (\<lambda>(c, m) chs. snd (send c m chs)) xs chs"

lemma send_eq: "send c m chs = (deliverable chs c, snd (send c m chs))"
  by (simp add: send_def deliverable_def)

lemma send_True: "deliverable chs c \<Longrightarrow> send c m chs = (True, snd (send c m chs))"
  by (simp add: send_def deliverable_def)

lemma send_facts [simp]:
  "fst (send c m chs) = deliverable chs c"
  "length (snd (send c m chs)) = length chs"
  "deliverable (snd (send c m chs)) d = deliverable chs d"
  by (auto simp: send_def deliverable_def nth_list_update)

lemma send_messages:
  "d < length chs \<Longrightarrow> ch_messages (snd (send c m chs) ! d) =
     ch_messages (chs ! d) @ (if d = c \<and> deliverable chs c then [m] else [])"
  by (auto simp: send_def deliverable_def nth_list_update)

lemma send_all_simps [simp]: "send_all [] chs = chs" "send_all (x # xs) chs = send_all xs (snd (send (fst x) (snd x) chs))"
  by (simp_all add: send_all_def case_prod_beta)

lemma send_all_append [simp]: "send_all (xs @ ys) chs = send_all ys (send_all xs chs)"
  by (simp add: send_all_def)

lemma send_all_facts [simp]:
  "length (send_all xs chs) = length chs" "deliverable (send_all xs chs) d = deliverable chs d"
  by (induction xs arbitrary: chs) auto

lemma send_all_messages:
  "d < length chs \<Longrightarrow> ch_messages (send_all xs chs ! d) =
     ch_messages (chs ! d) @ (if deliverable chs d then map snd (filter (\<lambda>x. fst x = d) xs) else [])"
proof (induction xs arbitrary: chs)
  case (Cons x xs)
  then show ?case
    using send_messages [of d chs "fst x" "snd x"] by auto
qed simp

text \<open>The timer's unchoke has nobody to unchoke and nobody to choke.\<close>

context hash_iteration
begin

lemma compute_unchoke_eq: "compute_unchoke iter peer_to_tx s chs = (s, chs)"
proof -
  have d: "I - (U \<union> I) = {}" "U - (U \<union> I) = {}" for U I :: "internal_peer_id set"
    by auto
  show ?thesis
    by (simp add: compute_unchoke_def Let_def d)
qed

end

lemma pop_requests_eq: "cnt \<le> to_deq \<Longrightarrow>
    pop_requests to_deq cnt q = (take (to_deq - cnt) q, drop (Suc (to_deq - cnt)) q)"
proof (induction to_deq cnt q rule: pop_requests.induct)
  case (2 to_deq cnt dq q)
  show ?case
  proof (cases "cnt = to_deq")
    case False
    then have "to_deq - cnt = Suc (to_deq - Suc cnt)" "Suc cnt \<le> to_deq" using 2(2) by auto
    then show ?thesis using 2(1) False by simp
  qed simp
qed simp

text \<open>Dispatch sends the requests whose peer can be reached and gives up the others.\<close>

definition sendable :: "peer_to_sender \<Rightarrow> channel list \<Rightarrow> peer_requested_piece \<Rightarrow> bool" where
  "sendable peer_to_tx chs r \<longleftrightarrow>
     (case bt_get peer_to_tx (req_peer_id r) of None \<Rightarrow> False | Some c \<Rightarrow> deliverable chs c)"

definition request_send :: "peer_to_sender \<Rightarrow> peer_requested_piece \<Rightarrow> nat \<times> messages" where
  "request_send peer_to_tx r = (the (bt_get peer_to_tx (req_peer_id r)), request_message r)"

definition drop_requests :: "peer_requested_piece list \<Rightarrow> piece_block_tracker \<Rightarrow> piece_block_tracker" where
  "drop_requests rs t = fold (\<lambda>r t. snd (remove_request r t)) rs t"

lemma dispatch_requests_eq:
  "dispatch_requests peer_to_tx reqs t chs =
     (drop_requests (filter (\<lambda>r. \<not> sendable peer_to_tx chs r) reqs) t,
      send_all (map (request_send peer_to_tx) (filter (sendable peer_to_tx chs) reqs)) chs)"
proof (induction peer_to_tx reqs t chs rule: dispatch_requests.induct)
  case (1 peer_to_tx t chs)
  then show ?case by (simp add: drop_requests_def)
next
  case (2 peer_to_tx r reqs t chs)
  show ?case
  proof (cases "bt_get peer_to_tx (req_peer_id r)")
    case None
    then show ?thesis
      using "2.IH"(1) by (simp add: sendable_def drop_requests_def)
  next
    case (Some c)
    let ?m = "Request (req_index r) (req_begin r) (req_length r)"
    have same: "sendable peer_to_tx (snd (send c ?m chs)) = sendable peer_to_tx chs"
      by (intro ext) (simp add: sendable_def split: option.split)
    have s: "send c ?m chs = (deliverable chs c, snd (send c ?m chs))" by (rule send_eq)
    have closed: "\<not> deliverable chs c \<Longrightarrow> snd (send c ?m chs) = chs"
      by (auto simp: send_def deliverable_def)
    show ?thesis
    proof (cases "deliverable chs c")
      case True
      then have "send c ?m chs = (True, snd (send c ?m chs))" using s by simp
      then obtain chs1 where chs1: "send c ?m chs = (True, chs1)" by blast
      have "dispatch_requests peer_to_tx (r # reqs) t chs = dispatch_requests peer_to_tx reqs t chs1"
        by (simp add: Some chs1)
      then have "dispatch_requests peer_to_tx (r # reqs) t chs = dispatch_requests peer_to_tx reqs t (snd (send c ?m chs))"
        by (simp add: chs1)
      then show ?thesis
        using "2.IH"(2) [OF Some s [symmetric]] True Some same
        by (simp add: sendable_def request_send_def request_message_def)
    next
      case False
      then have "dispatch_requests peer_to_tx (r # reqs) t chs = dispatch_requests peer_to_tx reqs (snd (remove_request r t)) chs"
        using Some s closed by simp
      then show ?thesis
        using "2.IH"(3) [OF Some s [symmetric]] False Some closed
        by (simp add: sendable_def drop_requests_def)
    qed
  qed
qed

lemma drop_requests_simps [simp]:
  "drop_requests [] t = t" "drop_requests (r # rs) t = drop_requests rs (snd (remove_request r t))"
  by (simp_all add: drop_requests_def)

lemma drop_requests_facts:
  assumes "tracker_good torrent max_out t"
  shows "tracker_good torrent max_out (drop_requests rs t) \<and>
    in_flight (started (drop_requests rs t)) = in_flight (started t) - req_key ` set rs \<and>
    pieces_completed (drop_requests rs t) = pieces_completed t"
  using assms
proof (induction rs arbitrary: t)
  case (Cons r rs)
  obtain found t' where r: "remove_request r t = (found, t')" by fastforce
  have "tracker_good torrent max_out t'"
    by (rule tracker.step_inv [OF Cons.prems tracker_step.remove [OF r]])
  moreover have "maps_ok (started t)" using Cons.prems by (simp add: tracker_good_def tracker_inv_def)
  then have "in_flight (started t') = in_flight (started t) - {req_key r}" "pieces_completed t' = pieces_completed t"
    using r by (auto simp: remove_request_def ptb_remove_downloading_request_eq maps_ok_def req_key_def)
  ultimately show ?case
    using Cons.IH [of t'] r by auto
qed simp

lemma remove_all:
  "bt_wf m \<Longrightarrow> bt_wf (fold (\<lambda>(p, _) m. bt_remove p m) xs m) \<and>
     bt_get (fold (\<lambda>(p, _) m. bt_remove p m) xs m) q = (if q \<in> fst ` set xs then None else bt_get m q)"
proof (induction xs arbitrary: m)
  case (Cons x xs)
  then show ?case
    using Cons.IH [of "bt_remove (fst x) m"] by (cases x) simp
qed simp

lemma prune_closed_get:
  assumes "bt_wf peer_to_tx"
  shows "bt_wf (prune_closed_tx chs peer_to_tx)"
    "bt_get (prune_closed_tx chs peer_to_tx) p = Some c \<longleftrightarrow> bt_get peer_to_tx p = Some c \<and> deliverable chs c"
proof -
  let ?closed = "filter (\<lambda>(_, c). \<not> (c < length chs \<and> ch_open (chs ! c))) peer_to_tx"
  have "p \<in> fst ` set ?closed \<longleftrightarrow> (\<exists>c. bt_get peer_to_tx p = Some c \<and> \<not> deliverable chs c)"
    using assms by (force simp: bt_get_eq_iff deliverable_def)
  then show "bt_wf (prune_closed_tx chs peer_to_tx)"
    "bt_get (prune_closed_tx chs peer_to_tx) p = Some c \<longleftrightarrow> bt_get peer_to_tx p = Some c \<and> deliverable chs c"
    using remove_all [OF assms, of ?closed p] by (auto simp: prune_closed_tx_def split: if_splits)
qed

lemma announce_piece_eq:
  "announce_piece peer_to_tx piece_id chs = send_all (map (\<lambda>(_, c). (c, Have piece_id)) peer_to_tx) chs"
  by (induction peer_to_tx arbitrary: chs) (auto simp: announce_piece_def)

text \<open>Serving sends, to peers that asked, blocks that the store returned for their requests.\<close>

lemma serve_requests_sends:
  assumes "serve_requests ops peer_to_tx deque io chs = (io', chs')"
  shows "\<exists>xs. chs' = send_all xs chs \<and>
    (\<forall>(c, m) \<in> set xs. \<exists>r bl. r \<in> set deque \<and> bt_get peer_to_tx (req_peer_id r) = Some c \<and>
       m = Piece (req_index r) (req_begin r) bl)"
  using assms
proof (induction ops peer_to_tx deque io chs rule: serve_requests.induct)
  case (1 ops peer_to_tx io chs)
  then show ?case by (intro exI [of _ "[]"]) simp
next
  case (2 ops peer_to_tx dq deque io chs)
  show ?case
  proof (cases "bt_get peer_to_tx (req_peer_id dq)")
    case None
    then have "serve_requests ops peer_to_tx deque io chs = (io', chs')" using 2(3) by simp
    then obtain xs where "chs' = send_all xs chs" "\<forall>(c, m) \<in> set xs. \<exists>r bl. r \<in> set deque \<and>
        bt_get peer_to_tx (req_peer_id r) = Some c \<and> m = Piece (req_index r) (req_begin r) bl"
      using 2(1) [OF None] by blast
    then show ?thesis by (intro exI [of _ xs]) fastforce
  next
    case (Some c)
    obtain r io1 where read: "io_handler_read ops io (req_index dq) (req_begin dq) (req_length dq) = (r, io1)"
      by fastforce
    show ?thesis
    proof (cases r)
      case (Ok block)
      let ?chs = "snd (send c (Piece (req_index dq) (req_begin dq) block) chs)"
      have "serve_requests ops peer_to_tx deque io1 ?chs = (io', chs')"
        using 2(3) Some read Ok by simp
      then obtain xs where xs: "chs' = send_all xs ?chs" "\<forall>(c, m) \<in> set xs. \<exists>r bl. r \<in> set deque \<and>
          bt_get peer_to_tx (req_peer_id r) = Some c \<and> m = Piece (req_index r) (req_begin r) bl"
        using 2(2) [OF Some] read Ok by fastforce
      show ?thesis
        using xs Some by (intro exI [of _ "(c, Piece (req_index dq) (req_begin dq) block) # xs"]) fastforce
    next
      case (Err e)
      then show ?thesis
        using 2(3) Some read by (intro exI [of _ "[]"]) simp
    next
      case Panic
      then show ?thesis
        using 2(3) Some read by (intro exI [of _ "[]"]) simp
    qed
  qed
qed

end
