(* ===== verification/Event_Loop.thy ===== *)
theory Event_Loop
  imports Processor
begin

text \<open>
  The \<open>select!\<close> loop of \<open>TorrentProcessor::start\<close> as a step relation on the whole processor:
  its state, the map of senders, the channels, the running handlers, the queue of wake-up
  messages and the I/O task. A label says which branch or which handler makes the step and
  what the environment contributed: the message a peer sent, the time, which channel closed.

  The invariant \<open>processor_inv\<close> is the state's invariant, the tracker's invariant and that
  every sender and handler has a channel. The interpretation of \<open>invariant_system\<close> makes it
  hold in every reachable state.
\<close>

section \<open>The processor\<close>

record handler =
  h_peer :: internal_peer_id
  h_conn :: nat
  h_status :: handler_status

datatype loop_status =
    Looping
  | Blocked   \<comment> \<open>waiting for room in the wake-up channel it alone reads\<close>
  | Died      \<comment> \<open>panicked\<close>

record 'io processor =
  pr_torrent :: v1_torrent
  pr_state :: torrent_state
  pr_peer_to_tx :: peer_to_sender
  pr_channels :: "channel list"
  pr_handlers :: "handler list"
  pr_wakeups :: "internal_state_message list"
  pr_io :: "'io option"
  pr_loop :: loop_status

definition wakeup_capacity :: nat where
  "wakeup_capacity = 10"

definition processor_new :: "config \<Rightarrow> v1_torrent \<Rightarrow> 'io \<Rightarrow> 'io processor" where
  "processor_new cfg torrent io =
     \<lparr>pr_torrent = torrent,
      pr_state = torrent_state_new (ti_pieces (t_info torrent)) (max_outstanding_requests cfg),
      pr_peer_to_tx = bt_empty, pr_channels = [], pr_handlers = [], pr_wakeups = [], pr_io = Some io,
      pr_loop = Looping\<rparr>"

section \<open>The branches\<close>

text \<open>A new peer: the channel comes with it, open or already closed at the other end.\<close>

definition accept_peer :: "bytes_api \<Rightarrow> internal_peer_id \<Rightarrow> bool \<Rightarrow> 'io processor \<Rightarrow> 'io processor" where
  "accept_peer A peer_id is_open pr =
     (let c = length (pr_channels pr); chs = pr_channels pr @ [\<lparr>ch_messages = [], ch_open = is_open\<rparr>] in
      case init_connection A (pr_torrent pr) (pr_state pr) c chs of
        None \<Rightarrow> pr\<lparr>pr_loop := Died\<rparr>
      | Some (False, chs') \<Rightarrow> pr\<lparr>pr_channels := chs'\<rparr>
      | Some (True, chs') \<Rightarrow>
          pr\<lparr>pr_channels := chs',
             pr_peer_to_tx := bt_insert peer_id c (pr_peer_to_tx pr),
             pr_handlers := pr_handlers pr @ [\<lparr>h_peer = peer_id, h_conn = c, h_status = Idle\<rparr>]\<rparr>)"

text \<open>A handler that has returned.\<close>

definition reap_handler :: "nat \<Rightarrow> 'io processor \<Rightarrow> 'io processor" where
  "reap_handler i pr =
     (let peer_id = h_peer (pr_handlers pr ! i) in
      pr\<lparr>pr_handlers := remove_at i (pr_handlers pr),
         pr_peer_to_tx := bt_remove peer_id (pr_peer_to_tx pr),
         pr_state := state_remove_peer peer_id (pr_state pr)\<rparr>)"

text \<open>One wake-up message: prune, act on it, ask for blocks, answer requests.\<close>

definition wakeup_action ::
  "internal_state_message \<Rightarrow> peer_to_sender \<Rightarrow> torrent_state \<times> channel list \<Rightarrow> torrent_state \<times> channel list"
where
  "wakeup_action msg peer_to_tx st =
     (case (msg, st) of
        (Wakeup, (s, chs)) \<Rightarrow> (s, chs)
      | (PieceComplete piece_id, (s, chs)) \<Rightarrow> (s, announce_piece peer_to_tx piece_id chs)
      | (PeerRequestedPiece request, (s, chs)) \<Rightarrow> (queue_requests request s, chs))"

definition process_wakeup ::
  "'io torrent_io_ops \<Rightarrow> (internal_peer_id set \<Rightarrow> internal_peer_id list) \<Rightarrow> (u32 \<Rightarrow> instant) \<Rightarrow>
     internal_state_message \<Rightarrow> 'io processor \<Rightarrow> 'io processor"
where
  "process_wakeup ops iter now msg pr =
     (let txs = prune_closed_tx (pr_channels pr) (pr_peer_to_tx pr) in
      case wakeup_action msg txs (pr_state pr, pr_channels pr) of (s1, chs1) \<Rightarrow>
      case compute_requests_for_download iter now (pr_torrent pr) txs s1 chs1 of
        None \<Rightarrow> pr\<lparr>pr_loop := Died\<rparr>
      | Some (s2, chs2) \<Rightarrow>
          (case dequeue_requests ops txs s2 (pr_io pr) chs2 of (s3, io', chs3) \<Rightarrow>
             pr\<lparr>pr_peer_to_tx := txs, pr_state := s3, pr_channels := chs3, pr_io := io'\<rparr>))"

text \<open>The timer: unchoke, give up old requests, and wake the loop if there were any.\<close>

definition timer_tick ::
  "(internal_peer_id set \<Rightarrow> internal_peer_id list) \<Rightarrow> instant \<Rightarrow> 'io processor \<Rightarrow> 'io processor"
where
  "timer_tick iter now pr =
     (case compute_unchoke iter (pr_peer_to_tx pr) (pr_state pr) (pr_channels pr) of (s, chs) \<Rightarrow>
      case remove_expired now (ts_tracking s) of (expired_requests, t) \<Rightarrow>
      let pr' = pr\<lparr>pr_state := s\<lparr>ts_tracking := t\<rparr>, pr_channels := chs\<rparr> in
      if expired_requests \<noteq> [] then
        (if length (pr_wakeups pr) < wakeup_capacity then pr'\<lparr>pr_wakeups := pr_wakeups pr @ [Wakeup]\<rparr>
         else pr'\<lparr>pr_loop := Blocked\<rparr>)
      else pr')"

text \<open>A handler takes a message, gets the answer to its write, or sends its wake-up.\<close>

definition set_status :: "nat \<Rightarrow> handler_status \<Rightarrow> 'io processor \<Rightarrow> 'io processor" where
  "set_status i status pr = pr\<lparr>pr_handlers := (pr_handlers pr)[i := (pr_handlers pr ! i)\<lparr>h_status := status\<rparr>]\<rparr>"

definition deliver :: "'io torrent_io_ops \<Rightarrow> nat \<Rightarrow> messages \<Rightarrow> 'io processor \<Rightarrow> 'io processor" where
  "deliver ops i msg pr =
     (let h = pr_handlers pr ! i in
      case handle_msg ops (h_peer h) (h_conn h) msg (pr_state pr, pr_channels pr, pr_io pr) of
        (status, s, chs, io) \<Rightarrow> set_status i status (pr\<lparr>pr_state := s, pr_channels := chs, pr_io := io\<rparr>))"

definition write_answered :: "nat \<Rightarrow> u32 \<Rightarrow> u32 \<Rightarrow> (peer_error, bool) res \<Rightarrow> 'io processor \<Rightarrow> 'io processor" where
  "write_answered i index begin res pr =
     (case finish_write index begin res (pr_state pr) of (status, s) \<Rightarrow> set_status i status (pr\<lparr>pr_state := s\<rparr>))"

section \<open>The steps\<close>

datatype event =
    PeerStarts internal_peer_id bool
  | PeerSends nat messages
  | PeerHangsUp nat
  | WriteAnswered nat
  | WakeSent nat
  | HandlerDone nat
  | WakeReceived "u32 \<Rightarrow> instant"
  | TimerTicks instant
  | ChannelCloses nat

fun is_waking :: "handler_status \<Rightarrow> bool" where
  "is_waking (Waking _) = True"
| "is_waking _ = False"

inductive processor_step ::
  "'io torrent_io_ops \<Rightarrow> bytes_api \<Rightarrow> (internal_peer_id set \<Rightarrow> internal_peer_id list) \<Rightarrow>
     'io processor \<Rightarrow> event \<Rightarrow> 'io processor \<Rightarrow> bool"
  for ops :: "'io torrent_io_ops" and A :: bytes_api and iter :: "internal_peer_id set \<Rightarrow> internal_peer_id list"
where
  peer_starts: "pr_loop pr = Looping \<Longrightarrow>
     processor_step ops A iter pr (PeerStarts peer_id is_open) (accept_peer A peer_id is_open pr)"
| peer_sends: "pr_loop pr = Looping \<Longrightarrow> i < length (pr_handlers pr) \<Longrightarrow> h_status (pr_handlers pr ! i) = Idle \<Longrightarrow>
     processor_step ops A iter pr (PeerSends i msg) (deliver ops i msg pr)"
| peer_hangs_up: "pr_loop pr = Looping \<Longrightarrow> i < length (pr_handlers pr) \<Longrightarrow> h_status (pr_handlers pr ! i) = Idle \<Longrightarrow>
     processor_step ops A iter pr (PeerHangsUp i) (set_status i Returned pr)"
| write_answered: "pr_loop pr = Looping \<Longrightarrow> i < length (pr_handlers pr) \<Longrightarrow>
     h_status (pr_handlers pr ! i) = Writing index begin res \<Longrightarrow>
     processor_step ops A iter pr (WriteAnswered i) (write_answered i index begin res pr)"
| wake_sent: "pr_loop pr = Looping \<Longrightarrow> i < length (pr_handlers pr) \<Longrightarrow>
     h_status (pr_handlers pr ! i) = Waking msg \<Longrightarrow> length (pr_wakeups pr) < wakeup_capacity \<Longrightarrow>
     processor_step ops A iter pr (WakeSent i) (set_status i Idle (pr\<lparr>pr_wakeups := pr_wakeups pr @ [msg]\<rparr>))"
| handler_done: "pr_loop pr = Looping \<Longrightarrow> i < length (pr_handlers pr) \<Longrightarrow> h_status (pr_handlers pr ! i) = Returned \<Longrightarrow>
     processor_step ops A iter pr (HandlerDone i) (reap_handler i pr)"
| wake_received: "pr_loop pr = Looping \<Longrightarrow> pr_wakeups pr = msg # rest \<Longrightarrow>
     processor_step ops A iter pr (WakeReceived now) (process_wakeup ops iter now msg (pr\<lparr>pr_wakeups := rest\<rparr>))"
| timer_ticks: "pr_loop pr = Looping \<Longrightarrow>
     processor_step ops A iter pr (TimerTicks now) (timer_tick iter now pr)"
| channel_closes: "c < length (pr_channels pr) \<Longrightarrow>
     processor_step ops A iter pr (ChannelCloses c)
       (pr\<lparr>pr_channels := (pr_channels pr)[c := (pr_channels pr ! c)\<lparr>ch_open := False\<rparr>]\<rparr>)"

inductive_cases step_wakeE: "processor_step ops A iter pr (WakeReceived now) pr'"
inductive_cases step_tickE: "processor_step ops A iter pr (TimerTicks now) pr'"
inductive_cases step_doneE: "processor_step ops A iter pr (HandlerDone i) pr'"
inductive_cases step_sendsE: "processor_step ops A iter pr (PeerSends i msg) pr'"
inductive_cases step_answeredE: "processor_step ops A iter pr (WriteAnswered i) pr'"
inductive_cases step_startsE: "processor_step ops A iter pr (PeerStarts p is_open) pr'"

definition processor_init :: "v1_torrent \<Rightarrow> usize \<Rightarrow> 'io processor \<Rightarrow> bool" where
  "processor_init torrent max_out pr \<longleftrightarrow>
     torrent_ok torrent \<and>
     (\<exists>cfg io. max_outstanding_requests cfg = max_out \<and> pr = processor_new cfg torrent io)"

section \<open>The invariant\<close>

text \<open>What a peer is told: first the greeting, then only the messages of the routine.\<close>

fun routine :: "messages \<Rightarrow> bool" where
  "routine (Flag f) = (f = Interested)"
| "routine (Have _) = True"
| "routine (Request _ _ _) = True"
| "routine (Piece _ _ _) = True"
| "routine _ = False"

definition greeted :: "channel list \<Rightarrow> nat \<Rightarrow> bool" where
  "greeted chs c \<longleftrightarrow>
     c < length chs \<and>
     (\<exists>bf tail. ch_messages (chs ! c) = [BitField bf, Flag Choke, Flag NotInterested] @ tail \<and> list_all routine tail)"

definition channels_inv :: "channel list \<Rightarrow> bool" where
  "channels_inv chs \<longleftrightarrow> (\<forall>c < length chs. ch_messages (chs ! c) = [] \<or> greeted chs c)"

definition processor_inv :: "v1_torrent \<Rightarrow> usize \<Rightarrow> 'io processor \<Rightarrow> bool" where
  "processor_inv torrent max_out pr \<longleftrightarrow>
     pr_torrent pr = torrent \<and> pr_loop pr \<noteq> Died \<and>
     state_inv (pr_state pr) \<and> tracker_good torrent max_out (ts_tracking (pr_state pr)) \<and>
     bt_wf (pr_peer_to_tx pr) \<and> channels_inv (pr_channels pr) \<and>
     (\<forall>p c. bt_get (pr_peer_to_tx pr) p = Some c \<longrightarrow> greeted (pr_channels pr) c) \<and>
     (\<forall>h \<in> set (pr_handlers pr). greeted (pr_channels pr) (h_conn h))"

lemma send_all_greeted:
  assumes "\<forall>(c, m) \<in> set xs. greeted chs c \<and> routine m"
  shows "greeted chs d \<Longrightarrow> greeted (send_all xs chs) d"
    and "channels_inv chs \<Longrightarrow> channels_inv (send_all xs chs)"
proof -
  have new: "list_all routine (map snd (filter (\<lambda>x. fst x = d) xs))" for d
    using assms by (auto simp: list_all_iff)
  show keep: "greeted (send_all xs chs) d" if "greeted chs d" for d
    using that new [of d] send_all_messages [of d chs xs] by (auto simp: greeted_def list_all_iff)
  have "ch_messages (send_all xs chs ! d) = [] \<or> greeted (send_all xs chs) d"
    if "channels_inv chs" "d < length chs" for d
  proof (cases "filter (\<lambda>x. fst x = d) xs")
    case Nil
    then show ?thesis
      using that keep send_all_messages [of d chs xs] by (auto simp: channels_inv_def)
  next
    case (Cons x ys)
    then have "x \<in> set xs" "fst x = d" by (auto simp: filter_eq_Cons_iff)
    then have "greeted chs d" using assms by auto
    then show ?thesis using keep by blast
  qed
  then show "channels_inv chs \<Longrightarrow> channels_inv (send_all xs chs)"
    by (simp add: channels_inv_def)
qed

lemma greeted_send:
  assumes "greeted chs c" "routine m"
  shows "greeted chs d \<Longrightarrow> greeted (snd (send c m chs)) d"
    "channels_inv chs \<Longrightarrow> channels_inv (snd (send c m chs))"
  using send_all_greeted [of "[(c, m)]" chs] assms by simp_all

lemma greeted_close [simp]:
  "greeted (chs[c := (chs ! c)\<lparr>ch_open := b\<rparr>]) d = greeted chs d"
  "channels_inv (chs[c := (chs ! c)\<lparr>ch_open := b\<rparr>]) = channels_inv chs"
proof -
  have msgs: "ch_messages (chs[c := (chs ! c)\<lparr>ch_open := b\<rparr>] ! d) = ch_messages (chs ! d)" if "d < length chs" for d
    using that by (cases "d = c") auto
  then show g: "greeted (chs[c := (chs ! c)\<lparr>ch_open := b\<rparr>]) d = greeted chs d" for d
    by (auto simp: greeted_def)
  show "channels_inv (chs[c := (chs ! c)\<lparr>ch_open := b\<rparr>]) = channels_inv chs"
    using msgs by (auto simp: channels_inv_def g)
qed

lemma greeted_append: "greeted chs c \<Longrightarrow> greeted (chs @ ys) c"
  by (auto simp: greeted_def nth_append)

subsection \<open>The initial state and new peers\<close>

lemma processor_new_inv [inv_intros]: "processor_init torrent max_out pr \<Longrightarrow> processor_inv torrent max_out pr"
proof -
  assume "processor_init torrent max_out pr"
  then obtain cfg io where ok: "torrent_ok torrent" "max_outstanding_requests cfg = max_out"
    "pr = processor_new cfg torrent io" by (auto simp: processor_init_def)
  have "tracker_good torrent max_out (tracker_new max_out (ti_pieces (t_info torrent)))"
    by (rule tracker.init_inv) (simp add: tracker_init_def ok)
  then show ?thesis
    using torrent_state_new_inv ok
    by (simp add: processor_inv_def processor_new_def channels_inv_def bt_empty_def torrent_state_new_def)
qed

lemma init_connection_spec:
  assumes "bytes_laws A" "length (ti_pieces (t_info torrent)) < 2 ^ 32" "c < length chs"
  shows "\<exists>bf. length bf = (length (ti_pieces (t_info torrent)) + 7) div 8 \<and> init_connection A torrent s c chs =
    Some (deliverable chs c, send_all [(c, BitField bf), (c, Flag Choke), (c, Flag NotInterested)] chs)"
proof -
  obtain w where w: "put_bit_set A (writer_new []) (pieces_completed (ts_tracking s)) (length (ti_pieces (t_info torrent))) = Some w"
    and len: "length (bw_bytes w) = (length (ti_pieces (t_info torrent)) + 7) div 8"
    using put_bit_set_rel [OF assms(1,2)] by (auto simp: writer_rel_def)
  show ?thesis
  proof (cases "deliverable chs c")
    case True
    define chs1 where "chs1 = snd (send c (BitField (bw_bytes w)) chs)"
    define chs2 where "chs2 = snd (send c (Flag Choke) chs1)"
    define chs3 where "chs3 = snd (send c (Flag NotInterested) chs2)"
    have d: "deliverable chs1 c" "deliverable chs2 c" using True by (simp_all add: chs1_def chs2_def)
    have "send c (BitField (bw_bytes w)) chs = (True, chs1)" unfolding chs1_def by (rule send_True [OF True])
    moreover have "send c (Flag Choke) chs1 = (True, chs2)" unfolding chs2_def by (rule send_True [OF d(1)])
    moreover have "send c (Flag NotInterested) chs2 = (True, chs3)" unfolding chs3_def by (rule send_True [OF d(2)])
    ultimately have "init_connection A torrent s c chs = Some (True, chs3)"
      by (simp add: init_connection_def w)
    moreover have "chs3 = send_all [(c, BitField (bw_bytes w)), (c, Flag Choke), (c, Flag NotInterested)] chs"
      by (simp add: chs1_def chs2_def chs3_def)
    ultimately show ?thesis using True len by metis
  next
    case False
    then have "send c m chs = (False, chs)" for m
      by (auto simp: send_def deliverable_def)
    then show ?thesis
      using False len by (intro exI [of _ "bw_bytes w"]) (simp add: init_connection_def w)
  qed
qed

lemma accept_peer_inv [inv_intros]:
  assumes "bytes_laws A" "processor_inv torrent max_out pr"
  shows "processor_inv torrent max_out (accept_peer A peer_id is_open pr)"
proof -
  let ?c = "length (pr_channels pr)" and ?chs = "pr_channels pr @ [\<lparr>ch_messages = [], ch_open = is_open\<rparr>]"
  have "length (ti_pieces (t_info torrent)) < 2 ^ 32" "pr_torrent pr = torrent"
    using assms(2) by (auto simp: processor_inv_def tracker_good_def torrent_ok_def)
  then obtain bf where init: "init_connection A (pr_torrent pr) (pr_state pr) ?c ?chs = Some (deliverable ?chs ?c,
      send_all [(?c, BitField bf), (?c, Flag Choke), (?c, Flag NotInterested)] ?chs)"
    using init_connection_spec [OF assms(1), of torrent ?c ?chs] by auto
  let ?chs' = "send_all [(?c, BitField bf), (?c, Flag Choke), (?c, Flag NotInterested)] ?chs"
  have open_c: "deliverable ?chs ?c = is_open"
    by (simp add: deliverable_def)
  have msgs: "ch_messages (?chs' ! d) = (if d = ?c then (if is_open then [BitField bf, Flag Choke, Flag NotInterested] else [])
      else ch_messages (pr_channels pr ! d))" if "d < length ?chs" for d
    unfolding send_all_messages [OF that] using that open_c by (auto simp: nth_append)
  have old: "greeted ?chs' d" if "greeted (pr_channels pr) d" for d
    using that msgs [of d] by (auto simp: greeted_def simp del: send_all_simps)
  have new: "is_open \<Longrightarrow> greeted ?chs' ?c"
    using msgs [of ?c] by (simp add: greeted_def del: send_all_simps)
  have "channels_inv ?chs'"
    using assms(2) msgs old new
    by (auto simp: channels_inv_def processor_inv_def less_Suc_eq simp del: send_all_simps)
  then show ?thesis
    using assms(2) old new init open_c
    by (cases is_open) (auto simp: accept_peer_def Let_def processor_inv_def simp del: send_all_simps)
qed

subsection \<open>Handlers\<close>

text \<open>What a message changes: not the tracker, and on the channels at most one \<open>Interested\<close>.\<close>

lemma tell_interest_sends:
  assumes "tell_interest tx change chs = (status, chs')" "change = None \<or> change = Some True"
  shows "\<exists>xs. chs' = send_all xs chs \<and> set xs \<subseteq> {(tx, Flag Interested)}"
proof (cases change)
  case None
  then show ?thesis using assms(1) by (intro exI [of _ "[]"]) (simp add: tell_interest_def)
next
  case (Some b)
  then have "chs' = snd (send tx (Flag Interested) chs)"
    using assms by (auto simp: tell_interest_def interest_msg_def split: prod.splits bool.splits)
  then show ?thesis by (intro exI [of _ "[(tx, Flag Interested)]"]) simp
qed

lemma add_pieces_handler:
  assumes "(case add_pieces_for_peer p xs s of (change, s') \<Rightarrow>
      (case tell_interest tx change chs of (status, chs') \<Rightarrow> (status, s', chs', io))) = (status, s', chs', io')"
  shows "ts_tracking s' = ts_tracking s \<and> (state_inv s \<longrightarrow> state_inv s') \<and>
    (\<exists>ys. chs' = send_all ys chs \<and> set ys \<subseteq> {(tx, Flag Interested)})"
proof -
  obtain change s1 where add: "add_pieces_for_peer p xs s = (change, s1)" by fastforce
  obtain st chs1 where tell: "tell_interest tx change chs = (st, chs1)" by fastforce
  have "s' = s1" "chs' = chs1" using assms add tell by auto
  moreover have "change = None \<or> change = Some True"
    using add_pieces_spec(7) [OF add] by (auto split: if_splits)
  ultimately show ?thesis
    using add_pieces_spec(1) [OF add] add_pieces_inv [OF add] tell_interest_sends [OF tell] by simp
qed

lemma set_flag_facts:
  "ts_tracking (set_flag p f s) = ts_tracking s" "state_inv s \<Longrightarrow> state_inv (set_flag p f s)"
  by (cases f; simp add: set_peer_choked_us_facts set_peers_interested_facts set_flags_inv)+

lemma handle_msg_spec:
  assumes "handle_msg ops p tx msg (s, chs, io) = (status, s', chs', io')"
  shows "ts_tracking s' = ts_tracking s \<and> (state_inv s \<longrightarrow> state_inv s') \<and>
    (\<exists>ys. chs' = send_all ys chs \<and> set ys \<subseteq> {(tx, Flag Interested)})"
proof -
  have none: "\<exists>ys. chs = send_all ys chs \<and> set ys \<subseteq> {(tx, Flag Interested)}"
    by (intro exI [of _ "[]"]) simp
  show ?thesis
  proof (cases msg)
    case (Have i)
    then show ?thesis using assms by (intro add_pieces_handler) simp
  next
    case (BitField bf)
    then show ?thesis using assms by (intro add_pieces_handler) simp
  next
    case (Flag f)
    then show ?thesis using assms none set_flag_facts by auto
  next
    case (Piece i b bl)
    then show ?thesis using assms none by (auto split: prod.splits)
  qed (use assms none in \<open>auto simp: Let_def\<close>)
qed

lemma set_status_inv [simp]:
  "i < length (pr_handlers pr) \<Longrightarrow> processor_inv torrent max_out pr \<Longrightarrow> processor_inv torrent max_out (set_status i status pr)"
  by (auto simp: processor_inv_def set_status_def dest!: set_update_subset_insert [THEN subsetD])

lemma deliver_inv [inv_intros]:
  assumes i: "i < length (pr_handlers pr)" and inv: "processor_inv torrent max_out pr"
  shows "processor_inv torrent max_out (deliver ops i msg pr)"
proof -
  let ?h = "pr_handlers pr ! i"
  obtain status s chs io where h: "handle_msg ops (h_peer ?h) (h_conn ?h) msg (pr_state pr, pr_channels pr, pr_io pr) =
      (status, s, chs, io)" by (metis prod_cases4)
  obtain ys where ys: "chs = send_all ys (pr_channels pr)" "set ys \<subseteq> {(h_conn ?h, Flag Interested)}"
    and s: "ts_tracking s = ts_tracking (pr_state pr)" "state_inv (pr_state pr) \<longrightarrow> state_inv s"
    using handle_msg_spec [OF h] by blast
  have "greeted (pr_channels pr) (h_conn ?h)"
    using inv i by (simp add: processor_inv_def)
  then have ok: "\<forall>(c, m) \<in> set ys. greeted (pr_channels pr) c \<and> routine m"
    using ys(2) by auto
  have "processor_inv torrent max_out (pr\<lparr>pr_state := s, pr_channels := chs, pr_io := io\<rparr>)"
    using inv s send_all_greeted [OF ok] by (simp add: processor_inv_def ys(1))
  then show ?thesis
    using i h by (simp add: deliver_def Let_def)
qed

lemma state_inv_tracking [simp]:
  "state_inv (s\<lparr>ts_tracking := t\<rparr>) = state_inv s" "state_inv (s\<lparr>ts_outstanding := q\<rparr>) = state_inv s"
  by (simp_all add: state_inv_def)

lemma write_answered_inv [inv_intros]:
  assumes i: "i < length (pr_handlers pr)" and inv: "processor_inv torrent max_out pr"
  shows "processor_inv torrent max_out (write_answered i index begin res pr)"
proof -
  obtain status s where f: "finish_write index begin res (pr_state pr) = (status, s)" by fastforce
  let ?t = "ts_tracking (pr_state pr)"
  have good: "tracker_good torrent max_out ?t" using inv by (simp add: processor_inv_def)
  have "tracker_good torrent max_out (set_piece_finished index ?t)"
    by (rule tracker.step_inv [OF good tracker_step.piece_finished [OF refl]])
  moreover have "tracker_good torrent max_out (snd (set_request_finished index begin ?t))"
    by (rule tracker.step_inv [OF good tracker_step.request_finished]) (rule prod.collapse [symmetric])
  ultimately have "tracker_good torrent max_out (ts_tracking s) \<and> state_inv s"
    using f inv by (auto simp: finish_write_def processor_inv_def split: res.splits if_splits)
  then have "processor_inv torrent max_out (pr\<lparr>pr_state := s\<rparr>)"
    using inv by (simp add: processor_inv_def)
  then show ?thesis
    using i f by (simp add: write_answered_def)
qed

lemma reap_handler_inv [inv_intros]:
  assumes "processor_inv torrent max_out pr"
  shows "processor_inv torrent max_out (reap_handler i pr)"
proof -
  have "set (remove_at i (pr_handlers pr)) \<subseteq> set (pr_handlers pr)"
    unfolding remove_at_def using set_take_subset [of i] set_drop_subset [of "Suc i"] by fastforce
  then show ?thesis
    using assms state_remove_facts(1,3) [of "pr_state pr" "h_peer (pr_handlers pr ! i)"]
    by (auto simp: processor_inv_def reap_handler_def Let_def split: if_splits)
qed

subsection \<open>The loop's own branches\<close>

text \<open>What a wake-up message announces: a completed piece, to every sender.\<close>

fun announces :: "internal_state_message \<Rightarrow> peer_to_sender \<Rightarrow> (nat \<times> messages) list \<Rightarrow> bool" where
  "announces (PieceComplete piece_id) txs ann = (ann = map (\<lambda>(_, c). (c, Have piece_id)) txs)"
| "announces _ txs ann = (ann = [])"

lemma wakeup_action_spec:
  assumes "wakeup_action msg txs (s, chs) = (s1, chs1)"
  shows "\<exists>q ann. s1 = s\<lparr>ts_outstanding := q\<rparr> \<and> chs1 = send_all ann chs \<and>
    (\<forall>(c, m) \<in> set ann. \<exists>p i. (p, c) \<in> set txs \<and> m = Have i) \<and> announces msg txs ann"
proof (cases msg)
  case Wakeup
  then show ?thesis
    using assms by (intro exI [of _ "ts_outstanding s"] exI [of _ "[]"]) (simp add: wakeup_action_def)
next
  case (PieceComplete i)
  then show ?thesis
    using assms by (intro exI [of _ "ts_outstanding s"] exI [of _ "map (\<lambda>(_, c). (c, Have i)) txs"])
      (auto simp: wakeup_action_def announce_piece_eq)
next
  case (PeerRequestedPiece r)
  then have "s1 = queue_requests r s" "chs1 = chs" using assms by (auto simp: wakeup_action_def)
  moreover have "queue_requests r s = s\<lparr>ts_outstanding := ts_outstanding s @ (if queue_requests r s = s then [] else [r])\<rparr>"
    by (auto simp: queue_requests_def)
  ultimately show ?thesis
    by (intro exI [of _ "ts_outstanding s @ (if queue_requests r s = s then [] else [r])"] exI [of _ "[]"])
      (auto simp: PeerRequestedPiece)
qed

lemma piece_id_to_peers_outstanding [simp]: "piece_id_to_peers (s\<lparr>ts_outstanding := q\<rparr>) = piece_id_to_peers s"
  by (simp add: piece_id_to_peers_def peers_that_choke_def)

text \<open>
  One wake-up message in full: announcements, then the requests of the new assignment that
  can be delivered, then the blocks served; the requests that cannot be delivered are given up.
\<close>

definition wake_post ::
  "(internal_peer_id set \<Rightarrow> internal_peer_id list) \<Rightarrow> (u32 \<Rightarrow> instant) \<Rightarrow> internal_state_message \<Rightarrow>
     'io processor \<Rightarrow> 'io processor \<Rightarrow> peer_requested_piece list \<Rightarrow> piece_block_tracker \<Rightarrow> (nat \<times> messages) list \<Rightarrow> (nat \<times> messages) list \<Rightarrow>
     peer_requested_piece list \<Rightarrow> 'io option \<Rightarrow> bool"
where
  "wake_post iter now msg pr pr' reqs t1 ann served q io \<longleftrightarrow>
     (let chs = pr_channels pr; txs = prune_closed_tx chs (pr_peer_to_tx pr) in
      generate_assignments iter now (pr_torrent pr) (piece_id_to_peers (pr_state pr)) (ts_tracking (pr_state pr)) = Some (reqs, t1) \<and>
      pr' = pr\<lparr>pr_peer_to_tx := txs, pr_io := io,
         pr_state := (pr_state pr)\<lparr>ts_tracking := drop_requests (filter (\<lambda>r. \<not> sendable txs chs r) reqs) t1, ts_outstanding := q\<rparr>,
         pr_channels := send_all (ann @ map (request_send txs) (filter (sendable txs chs) reqs) @ served) chs\<rparr> \<and>
      (\<forall>(c, m) \<in> set ann. \<exists>p i. (p, c) \<in> set txs \<and> m = Have i) \<and> announces msg txs ann \<and>
      (\<forall>(c, m) \<in> set served. \<exists>p i b bl. bt_get txs p = Some c \<and> m = Piece i b bl))"

lemma process_wakeup_spec:
  assumes inv: "processor_inv torrent max_out pr"
  shows "\<exists>reqs t1 ann served q io. wake_post iter now msg pr (process_wakeup ops iter now msg pr) reqs t1 ann served q io"
proof -
  define txs where "txs = prune_closed_tx (pr_channels pr) (pr_peer_to_tx pr)"
  obtain s1 chs1 where act: "wakeup_action msg txs (pr_state pr, pr_channels pr) = (s1, chs1)" by fastforce
  then obtain q1 ann where s1: "s1 = (pr_state pr)\<lparr>ts_outstanding := q1\<rparr>" "chs1 = send_all ann (pr_channels pr)"
    "\<forall>(c, m) \<in> set ann. \<exists>p i. (p, c) \<in> set txs \<and> m = Have i" "announces msg txs ann"
    using wakeup_action_spec [OF act] by blast
  have good: "torrent_ok (pr_torrent pr)" "tracker_inv (length (ti_pieces (t_info (pr_torrent pr)))) (ts_tracking (pr_state pr))"
    using inv by (auto simp: processor_inv_def tracker_good_def)
  obtain reqs t1 where gen: "generate_assignments iter now (pr_torrent pr) (piece_id_to_peers (pr_state pr))
      (ts_tracking (pr_state pr)) = Some (reqs, t1)"
    using generate_assignments_spec [OF good] by blast
  have same: "sendable txs chs1 = sendable txs (pr_channels pr)"
    by (intro ext) (simp add: sendable_def s1(2) split: option.split)
  define t2 where "t2 = drop_requests (filter (\<lambda>r. \<not> sendable txs (pr_channels pr) r) reqs) t1"
  define out where "out = map (request_send txs) (filter (sendable txs (pr_channels pr)) reqs)"
  have comp: "compute_requests_for_download iter now (pr_torrent pr) txs s1 chs1 =
      Some (s1\<lparr>ts_tracking := t2\<rparr>, send_all out chs1)"
    by (simp add: compute_requests_for_download_def s1(1) gen dispatch_requests_eq same t2_def out_def)
  obtain deque q where pop: "pop_requests 4 0 q1 = (deque, q)" by fastforce
  obtain io' chs3 where serve: "serve_requests ops txs deque (pr_io pr) (send_all out chs1) = (io', chs3)" by fastforce
  obtain served where served: "chs3 = send_all served (send_all out chs1)"
    "\<forall>(c, m) \<in> set served. \<exists>p i b bl. bt_get txs p = Some c \<and> m = Piece i b bl"
    using serve_requests_sends [OF serve] by fast
  have "process_wakeup ops iter now msg pr =
      pr\<lparr>pr_peer_to_tx := txs, pr_state := s1\<lparr>ts_tracking := t2, ts_outstanding := q\<rparr>, pr_channels := chs3, pr_io := io'\<rparr>"
    unfolding process_wakeup_def Let_def txs_def [symmetric] act
    by (simp add: comp [unfolded s1(1)] dequeue_requests_def s1(1) pop serve)
  then have "wake_post iter now msg pr (process_wakeup ops iter now msg pr) reqs t1 ann served q io'"
    using gen s1 served by (simp add: wake_post_def Let_def txs_def [symmetric] t2_def out_def)
  then show ?thesis by blast
qed

lemma process_wakeup_inv [inv_intros]:
  assumes inv: "processor_inv torrent max_out pr"
  shows "processor_inv torrent max_out (process_wakeup ops iter now msg pr)"
proof -
  let ?pr = "process_wakeup ops iter now msg pr"
  let ?chs = "pr_channels pr"
  let ?txs = "prune_closed_tx ?chs (pr_peer_to_tx pr)"
  obtain reqs t1 ann served q io where post: "wake_post iter now msg pr ?pr reqs t1 ann served q io"
    using process_wakeup_spec [OF inv] by blast
  note parts = post [unfolded wake_post_def Let_def]
  have wf: "bt_wf ?txs" "\<And>p c. bt_get ?txs p = Some c \<Longrightarrow> greeted ?chs c"
    using prune_closed_get [of "pr_peer_to_tx pr" ?chs] inv parts by (auto simp: processor_inv_def)
  let ?out = "map (request_send ?txs) (filter (sendable ?txs ?chs) reqs)"
  have "\<forall>(c, m) \<in> set ann. greeted ?chs c \<and> routine m" "\<forall>(c, m) \<in> set served. greeted ?chs c \<and> routine m"
    using parts wf by (fastforce simp: bt_get_eq_iff)+
  moreover have "\<forall>(c, m) \<in> set ?out. greeted ?chs c \<and> routine m"
    using wf(2) by (auto simp: request_send_def request_message_def sendable_def split: option.splits)
  ultimately have "\<forall>(c, m) \<in> set (ann @ ?out @ served). greeted ?chs c \<and> routine m"
    unfolding set_append by blast
  note keep = send_all_greeted [OF this]
  have good: "torrent_ok (pr_torrent pr)" "tracker_inv (length (ti_pieces (t_info (pr_torrent pr)))) (ts_tracking (pr_state pr))"
    "pr_torrent pr = torrent" "pbt_max_outstanding_requests (ts_tracking (pr_state pr)) = max_out"
    using inv by (auto simp: processor_inv_def tracker_good_def)
  have "tracker_good torrent max_out t1"
    using generate_assignments_spec [OF good(1,2), of iter now "piece_id_to_peers (pr_state pr)"] parts good
    by (auto simp: tracker_good_def)
  then have "tracker_good torrent max_out (drop_requests (filter (\<lambda>r. \<not> sendable ?txs ?chs r) reqs) t1)"
    using drop_requests_facts by blast
  then show ?thesis
    using inv wf keep parts by (simp add: processor_inv_def)
qed

lemma timer_tick_eq:
  "hash_iteration iter \<Longrightarrow> timer_tick iter now pr =
    (let (expired_requests, t) = remove_expired now (ts_tracking (pr_state pr));
         pr' = pr\<lparr>pr_state := (pr_state pr)\<lparr>ts_tracking := t\<rparr>\<rparr> in
     if expired_requests = [] then pr'
     else if length (pr_wakeups pr) < wakeup_capacity then pr'\<lparr>pr_wakeups := pr_wakeups pr @ [Wakeup]\<rparr>
     else pr'\<lparr>pr_loop := Blocked\<rparr>)"
  by (simp add: timer_tick_def hash_iteration.compute_unchoke_eq Let_def split: prod.split)

lemma timer_tick_inv [inv_intros]:
  assumes "hash_iteration iter" and inv: "processor_inv torrent max_out pr"
  shows "processor_inv torrent max_out (timer_tick iter now pr)"
proof -
  obtain reqs t where r: "remove_expired now (ts_tracking (pr_state pr)) = (reqs, t)" by fastforce
  have "tracker_good torrent max_out t"
    using tracker.step_inv [OF _ tracker_step.expire [OF r]] inv by (auto simp: processor_inv_def)
  then show ?thesis
    using inv by (simp add: timer_tick_eq [OF assms(1)] r Let_def processor_inv_def)
qed

lemma processor_machine:
  assumes "bytes_laws A" "hash_iteration iter"
  shows "invariant_system (processor_init torrent max_out) (processor_step ops A iter)
    (processor_inv torrent max_out)"
proof
  fix pr l pr'
  assume inv: "processor_inv torrent max_out pr" and step: "processor_step ops A iter pr l pr'"
  from step show "processor_inv torrent max_out pr'"
  proof cases
    case (peer_starts peer_id is_open)
    then show ?thesis using accept_peer_inv [OF assms(1) inv] by simp
  next
    case (wake_sent i msg)
    have "processor_inv torrent max_out (pr\<lparr>pr_wakeups := pr_wakeups pr @ [msg]\<rparr>)"
      using inv by (simp add: processor_inv_def)
    then show ?thesis using wake_sent by simp
  next
    case (wake_received msg rest now)
    have "processor_inv torrent max_out (pr\<lparr>pr_wakeups := rest\<rparr>)"
      using inv by (simp add: processor_inv_def)
    then show ?thesis using wake_received process_wakeup_inv by blast
  next
    case (timer_ticks now)
    then show ?thesis using timer_tick_inv [OF assms(2) inv] by simp
  next
    case (channel_closes c)
    then show ?thesis using inv by (auto simp: processor_inv_def)
  qed (use inv in \<open>auto intro: deliver_inv write_answered_inv reap_handler_inv\<close>)
qed (rule processor_new_inv)

interpretation processor: invariant_system "processor_init torrent max_out"
  "processor_step ops list_bytes sorted_iter" "processor_inv torrent max_out" for torrent max_out ops
  by (rule processor_machine) unfold_locales

end
