(* ===== verification/Memory_Io.thy ===== *)
theory Memory_Io
  imports Torrent_Io Slices Allocation
begin

text \<open>
  \<open>MemoryTorrentIO\<close> of \<open>src/peer/io/mod.rs\<close>: one byte buffer and one slice tracker per piece.
  The implementation keeps the trait's contract (the interpretation below). Its write checks
  the bounds before anything else, so the slice tracker's addition cannot overflow on a piece
  that fits in 32 bits; its read indexes without a check and panics out of bounds.
\<close>

record memory =
  mem_memory :: bytes
  mem_slices :: slices

definition memory_from :: "bytes \<Rightarrow> memory" where
  "memory_from bs = \<lparr>mem_memory = bs, mem_slices = slices_new (length bs)\<rparr>"

type_synonym memory_torrent_io = "memory list"

text \<open>
  \<open>vec![0; n]\<close>: a capacity of more than \<open>isize::MAX\<close> bytes panics. (That the allocator finds the memory is taken for
  granted.)
\<close>

definition vec_zeroed :: "usize \<Rightarrow> bytes option" where
  "vec_zeroed n = (if n < 2 ^ 63 then Some (replicate n 0) else None)"

definition memory_new :: "v1_torrent \<Rightarrow> memory_torrent_io option" where
  "memory_new torrent =
     Option.bind (allocate_torrent torrent) (\<lambda>a.
     Option.bind (those (map (\<lambda>_. map_option memory_from (vec_zeroed (max_piece_size a))) [1..<total_pieces a])) (\<lambda>memory.
     Option.bind (vec_zeroed (last_piece_size a)) (\<lambda>last.
     Some (memory @ [memory_from last]))))"

text \<open>The copy loop of \<open>write_piece\<close>, one indexed store per byte.\<close>

definition copy_block :: "bytes \<Rightarrow> usize \<Rightarrow> bytes \<Rightarrow> bytes" where
  "copy_block mem begin block = fold (\<lambda>(idx, ele) m. m[idx + begin := ele]) (enumerate 0 block) mem"

definition memory_write_piece ::
  "memory_torrent_io \<Rightarrow> u32 \<Rightarrow> u32 \<Rightarrow> bytes \<Rightarrow> (peer_error, bool) res \<times> memory_torrent_io"
where
  "memory_write_piece io index begin block =
     (let i = unat index in
      if i < length io then
        (let mem = mem_memory (io ! i) in
         case usize_add (unat begin) (length block) of
           None \<Rightarrow> (Panic, io)
         | Some end_pos \<Rightarrow>
             if end_pos > length mem then (Err (BadBounds i end_pos), io)
             else
               (case slices_insert (mem_slices (io ! i)) begin (as_u32 (length block)) of
                  None \<Rightarrow> (Panic, io)
                | Some (finished, s) \<Rightarrow>
                    (Ok finished,
                     io[i := \<lparr>mem_memory = copy_block mem (unat begin) block, mem_slices = s\<rparr>])))
      else (Err (BadPieceIdx i), io))"

definition memory_read_piece ::
  "memory_torrent_io \<Rightarrow> u32 \<Rightarrow> u32 \<Rightarrow> u32 \<Rightarrow> (peer_error, bytes) res \<times> memory_torrent_io"
where
  "memory_read_piece io index begin len =
     (let i = unat index in
      if i < length io then
        (let mem = mem_memory (io ! i) in
         case u32_add begin len of
           None \<Rightarrow> (Panic, io)
         | Some end_offset \<Rightarrow>
             if unat begin \<le> unat end_offset \<and> unat end_offset \<le> length mem
             then (Ok (take (unat end_offset - unat begin) (drop (unat begin) mem)), io)
             else (Panic, io))
      else (Err (BadPieceIdx i), io))"

definition memory_ops :: "memory_torrent_io torrent_io_ops" where
  "memory_ops = \<lparr>write_piece = memory_write_piece, read_piece = memory_read_piece\<rparr>"

section \<open>The contract holds\<close>

definition memory_piece :: "memory_torrent_io \<Rightarrow> nat \<Rightarrow> bytes option" where
  "memory_piece io i = (if i < length io then Some (mem_memory (io ! i)) else None)"

definition memory_inv :: "memory_torrent_io \<Rightarrow> bool" where
  "memory_inv io \<longleftrightarrow>
     list_all (\<lambda>m. sl_expected_size (mem_slices m) = length (mem_memory m) \<and> slices_inv (mem_slices m)) io"

lemma copy_enumerate:
  "n + begin + length block \<le> length mem \<Longrightarrow>
     fold (\<lambda>(idx, ele) m. m[idx + begin := ele]) (enumerate n block) mem = overwrite mem (n + begin) block"
proof (induction block arbitrary: n mem)
  case Nil
  then show ?case by (simp add: overwrite_def)
next
  case (Cons x block)
  have "overwrite (mem[n + begin := x]) (Suc n + begin) block = overwrite mem (n + begin) (x # block)"
    using Cons.prems by (intro nth_equalityI) (auto simp: nth_overwrite nth_Cons' nth_list_update)
  then show ?case
    using Cons.IH [of "Suc n" "mem[n + begin := x]"] Cons.prems by simp
qed

lemma copy_block_eq: "begin + length block \<le> length mem \<Longrightarrow> copy_block mem begin block = overwrite mem begin block"
  using copy_enumerate [of 0 "begin" block mem] by (simp add: copy_block_def)

lemma memory_write_Ok_iff:
  "memory_write_piece io index begin block = (Ok f, io') \<longleftrightarrow>
     (\<exists>s. unat index < length io \<and>
        unat begin + length block \<le> length (mem_memory (io ! unat index)) \<and>
        unat begin + length block \<le> usize_max \<and>
        slices_insert (mem_slices (io ! unat index)) begin (as_u32 (length block)) = Some (f, s) \<and>
        io' = io[unat index :=
          \<lparr>mem_memory = overwrite (mem_memory (io ! unat index)) (unat begin) block, mem_slices = s\<rparr>])"
  by (auto simp: memory_write_piece_def Let_def usize_add_def copy_block_eq split: option.splits if_splits)

lemma memory_write_not_Ok:
  "memory_write_piece io index begin block = (r, io') \<Longrightarrow> \<not> is_ok r \<Longrightarrow> io' = io"
  by (auto simp: memory_write_piece_def Let_def split: option.splits if_splits)

lemma memory_read_Ok_iff:
  "memory_read_piece io index begin len = (Ok bs, io') \<longleftrightarrow>
     unat index < length io \<and> unat begin + unat len < 2 ^ 32 \<and>
     unat begin + unat len \<le> length (mem_memory (io ! unat index)) \<and>
     bs = take (unat len) (drop (unat begin) (mem_memory (io ! unat index))) \<and> io' = io"
  by (auto simp: memory_read_piece_def Let_def u32_add_def unat_word_ariths split: option.splits if_splits)

lemma memory_read_keeps: "memory_read_piece io index begin len = (r, io') \<Longrightarrow> io' = io"
  by (auto simp: memory_read_piece_def Let_def split: option.splits if_splits)

lemma memory_write_inv [inv_intros]:
  assumes "memory_inv io" "memory_write_piece io index begin block = (r, io')"
  shows "memory_inv io'"
proof (cases r)
  case (Ok f)
  then obtain s where s: "unat index < length io"
    "unat begin + length block \<le> length (mem_memory (io ! unat index))"
    "slices_insert (mem_slices (io ! unat index)) begin (as_u32 (length block)) = Some (f, s)"
    "io' = io[unat index := \<lparr>mem_memory = overwrite (mem_memory (io ! unat index)) (unat begin) block, mem_slices = s\<rparr>]"
    using assms(2) memory_write_Ok_iff by blast
  have "slices_inv s \<and> sl_expected_size s = length (mem_memory (io ! unat index))"
    using assms(1) s(1) slices_insert_inv [OF s(3)] slices_insert_Some(3) [OF s(3)]
    by (simp add: memory_inv_def list_all_length)
  then show ?thesis
    using assms(1) s by (auto simp: memory_inv_def list_all_length nth_list_update)
qed (use assms memory_write_not_Ok in force)+

interpretation memory_io: torrent_io memory_ops memory_piece memory_inv
proof unfold_locales
  fix io io' :: memory_torrent_io and i b blk f
  assume "write_piece memory_ops io i b blk = (Ok f, io')"
  then show "\<exists>c. memory_piece io (unat i) = Some c \<and> unat b + length blk \<le> length c \<and>
      memory_piece io' = (memory_piece io)(unat i \<mapsto> overwrite c (unat b) blk)"
    by (auto simp: memory_ops_def memory_write_Ok_iff memory_piece_def fun_eq_iff)
next
  fix io io' :: memory_torrent_io and i b n bs
  assume "read_piece memory_ops io i b n = (Ok bs, io')"
  then show "\<exists>c. memory_piece io (unat i) = Some c \<and> unat b + unat n \<le> length c \<and>
      bs = take (unat n) (drop (unat b) c)"
    by (simp add: memory_ops_def memory_read_Ok_iff memory_piece_def)
qed (auto simp: memory_ops_def dest: memory_write_not_Ok memory_write_inv memory_read_keeps)

section \<open>Panics\<close>

text \<open>Writing never panics on pieces of less than 4 GiB; it fails with the two bounds errors only.\<close>

lemma memory_write_no_panic:
  assumes "\<forall>m \<in> set io. length (mem_memory m) < 2 ^ 32"
    and "length block \<le> usize_max - 2 ^ 32"
  shows "fst (memory_write_piece io index begin block) \<noteq> Panic"
proof -
  have "unat begin + length block \<le> usize_max"
    using assms(2) unat_u32_lt [of "begin"] by (simp add: usize_max_def)
  moreover have "unat begin + length block < 2 ^ 32"
    if "unat index < length io" "unat begin + length block \<le> length (mem_memory (io ! unat index))"
    using that assms(1) by (meson nth_mem order_le_less_trans)
  ultimately show ?thesis
    by (auto simp: memory_write_piece_def Let_def usize_add_def slices_insert_None_iff split: option.splits)
qed

lemma memory_read_panic_iff:
  "fst (memory_read_piece io index begin len) = Panic \<longleftrightarrow>
     unat index < length io \<and>
     (2 ^ 32 \<le> unat begin + unat len \<or> length (mem_memory (io ! unat index)) < unat begin + unat len)"
  by (auto simp: memory_read_piece_def Let_def u32_add_def unat_word_ariths split: option.splits if_splits)

lemma vec_zeroed_Some: "vec_zeroed n = Some bs \<longleftrightarrow> n < 2 ^ 63 \<and> bs = replicate n 0"
  by (auto simp: vec_zeroed_def)

lemma those_const: "those (map (\<lambda>_. x) xs) = (if xs = [] then Some [] else map_option (\<lambda>a. map (\<lambda>_. a) xs) x)"
  by (induction xs) (auto simp: option.map_comp split: option.splits)

text \<open>The store of a torrent whose pieces fit in \<open>isize::MAX\<close> bytes each.\<close>

definition fits_memory :: "torrent_allocation \<Rightarrow> bool" where
  "fits_memory a \<longleftrightarrow> (1 < total_pieces a \<longrightarrow> max_piece_size a < 2 ^ 63) \<and> last_piece_size a < 2 ^ 63"

lemma memory_new_eq:
  "memory_new torrent =
     (case allocate_torrent torrent of
        None \<Rightarrow> None
      | Some a \<Rightarrow>
          if fits_memory a
          then Some (map (\<lambda>_. memory_from (replicate (max_piece_size a) 0)) [1..<total_pieces a] @
                 [memory_from (replicate (last_piece_size a) 0)])
          else None)"
  by (auto simp: memory_new_def fits_memory_def vec_zeroed_def those_const split: option.splits)

lemma memory_new_Some_iff:
  "memory_new torrent = Some io \<longleftrightarrow>
     (\<exists>a. allocate_torrent torrent = Some a \<and> fits_memory a \<and>
        io = map (\<lambda>_. memory_from (replicate (max_piece_size a) 0)) [1..<total_pieces a] @
          [memory_from (replicate (last_piece_size a) 0)])"
  by (auto simp: memory_new_eq split: option.splits)

lemma memory_new_inv [inv_intros]: "memory_new torrent = Some io \<Longrightarrow> memory_inv io"
  by (auto simp: memory_new_Some_iff memory_inv_def memory_from_def list_all_iff)

lemma memory_new_sizes:
  assumes "memory_new torrent = Some io" "allocate_torrent torrent = Some a"
  shows "length io = total_pieces a \<and> (\<forall>i < total_pieces a. length (mem_memory (io ! i)) = the (piece_len a i))"
proof -
  have ok: "allocation_ok a" using assms(2) by (rule allocate_ok)
  then have "0 < total_pieces a" by (simp add: allocation_ok_def)
  moreover have "io = map (\<lambda>_. memory_from (replicate (max_piece_size a) 0)) [1..<total_pieces a] @
       [memory_from (replicate (last_piece_size a) 0)]"
    using assms by (simp add: memory_new_Some_iff)
  ultimately show ?thesis
    by (auto simp: piece_len_eq [OF ok] nth_append memory_from_def)
qed

section \<open>Properties\<close>

text \<open>
  Read your writes, for the in-memory store behind its task: after a write of a block was
  answered with success, a later successful read of that range returns the block, whatever
  messages that do not write into the range were handled in between.
\<close>

theorem memory_read_your_writes:
  assumes "memory_new torrent = Some io0" and "io_run memory_ops (Some io0) before = (replies0, t0)"
    and "io_handler_write memory_ops t0 i b blk = (Ok f, t1)"
    and "\<forall>m \<in> set msgs. leaves_alone (unat i) (unat b) (unat b + length blk) m"
    and "io_run memory_ops t1 msgs = (replies, t2)"
    and "io_handler_read memory_ops t2 i b n = (Ok bs, t3)" and "unat n = length blk"
  shows "bs = blk"
proof (rule memory_io.read_your_writes [OF _ _ assms(4,5) _ assms(7)])
  have "memory_io.task_inv (Some io0)"
    using memory_new_inv [OF assms(1)] by (simp add: memory_io.task_inv_def)
  then show "memory_io.task_inv t0"
    by (rule memory_io.task_inv_run [OF _ assms(2)])
  show "io_handler_task memory_ops t0 (WriteMessage i b blk) = (WriteReply (Ok f), t1)"
    using assms(3) by (rule io_handler_write_Ok)
  show "io_handler_task memory_ops t2 (ReadMessage i b n) = (ReadReply (Ok bs), t3)"
    using assms(6) by (rule io_handler_read_Ok)
qed

lemma memory_read_your_writes_witness:
  "\<exists>io0 t1 bs. memory_new small_torrent = Some io0 \<and>
     io_handler_write memory_ops (Some io0) 1 1 [7, 8] = (Ok False, t1) \<and>
     io_handler_read memory_ops t1 1 1 2 = (Ok bs, t1) \<and> bs = [7, 8]"
proof -
  let ?io = "[memory_from (replicate 8 0), memory_from (replicate 3 0)]"
  let ?t1 = "Some (?io[1 := \<lparr>mem_memory = [0, 7, 8], mem_slices = \<lparr>sl_slices = [(1, 3)], sl_expected_size = 3\<rparr>\<rparr>])"
  have rep: "replicate 3 (0 :: u8) = [0, 0, 0]" by (simp add: numeral_3_eq_3)
  have new: "memory_new small_torrent = Some ?io"
    by (simp add: memory_new_Some_iff small_torrent_allocation fits_memory_def upt_rec)
  have "memory_write_piece ?io 1 1 [7, 8] =
      (Ok False, ?io[1 := \<lparr>mem_memory = [0, 7, 8], mem_slices = \<lparr>sl_slices = [(1, 3)], sl_expected_size = 3\<rparr>\<rparr>])"
    by (simp add: memory_write_Ok_iff memory_from_def rep slices_new_def slices_insert_def search_start_def
        merge_missing_def insert_at_def is_complete_def u32_add_def overwrite_def usize_max_def as_u32_Suc)
  then have w: "io_handler_write memory_ops (Some ?io) 1 1 [7, 8] = (Ok False, ?t1)"
    by (simp add: io_handler_write_def io_handler_task_def memory_ops_def)
  have "memory_read_piece (the ?t1) 1 1 2 = (Ok (take 2 [7, 8]), the ?t1)"
    by (simp add: memory_read_Ok_iff)
  then have r: "io_handler_read memory_ops ?t1 1 1 2 = (Ok (take 2 [7, 8]), ?t1)"
    by (simp add: io_handler_read_def io_handler_task_def memory_ops_def)
  have "take 2 [7, 8 :: u8] = [7, 8]"
    by (rule memory_read_your_writes [OF new _ w _ _ r, of "[]" "[]" "[]" "[]"]) simp_all
  then show ?thesis using new w r by metis
qed

text \<open>
  The in-memory write never panics on the pieces of a torrent whose piece length fits in
  32 bits, for any index, offset and block; what it returns otherwise is a value or one of the
  two bounds errors. The read panics exactly when the range leaves the piece.
\<close>

theorem memory_panics:
  assumes "\<forall>m \<in> set io. length (mem_memory m) < 2 ^ 32" and "length block \<le> usize_max - 2 ^ 32"
  shows "(case fst (memory_write_piece io index start block) of
        Ok _ \<Rightarrow> True
      | Err e \<Rightarrow> (\<exists>n. e = BadBounds (unat index) n) \<or> e = BadPieceIdx (unat index)
      | Panic \<Rightarrow> False) \<and>
    (fst (memory_read_piece io index start len) = Panic \<longleftrightarrow>
      unat index < length io \<and>
      (2 ^ 32 \<le> unat start + unat len \<or> length (mem_memory (io ! unat index)) < unat start + unat len))"
  using memory_write_no_panic [OF assms, of index start] memory_read_panic_iff [of io index start len]
  by (auto simp: memory_write_piece_def Let_def split: option.splits if_splits)

lemma memory_panics_witness:
  "fst (memory_read_piece [memory_from [1, 2, 3]] 0 2 2) = Panic"
  using memory_panics [of "[memory_from [1, 2, 3]]" "[]" 0 2 2]
  by (simp add: memory_from_def memory_read_panic_iff)

end
