(* ===== verification/Loop_Properties.thy ===== *)
theory Loop_Properties
  imports Event_Loop Memory_Io
begin

text \<open>
  What the invariant of \<open>Event_Loop\<close> gives about every reachable processor: it does not
  panic, whom it asks for which blocks, what it tells a peer, whom it serves, and where it can
  stop for good.
\<close>

section \<open>Messages sent in one step\<close>

text \<open>Only appending: what a step adds to a channel.\<close>

definition appends :: "channel list \<Rightarrow> channel list \<Rightarrow> (nat \<Rightarrow> messages list) \<Rightarrow> bool" where
  "appends chs chs' new \<longleftrightarrow>
     length chs \<le> length chs' \<and>
     (\<forall>c < length chs. ch_messages (chs' ! c) = ch_messages (chs ! c) @ new c)"

fun is_request :: "messages \<Rightarrow> bool" where
  "is_request (Request _ _ _) = True"
| "is_request _ = False"

lemma appends_send_all:
  "\<exists>new. appends chs (send_all xs chs) new \<and> (\<forall>c. set (new c) \<subseteq> {m. (c, m) \<in> set xs}) \<and>
    (\<forall>c m. (c, m) \<in> set xs \<longrightarrow> deliverable chs c \<longrightarrow> m \<in> set (new c))"
  by (rule exI [of _ "\<lambda>c. if deliverable chs c then map snd (filter (\<lambda>x. fst x = c) xs) else []"])
    (force simp: appends_def send_all_messages deliverable_def)

lemma appends_refl: "appends chs chs (\<lambda>_. [])"
  by (simp add: appends_def)

lemma accept_peer_eq:
  assumes "bytes_laws A" "processor_inv torrent max_out pr"
  shows "\<exists>bf. length bf = (length (ti_pieces (t_info torrent)) + 7) div 8 \<and> accept_peer A p is_open pr =
    (let c = length (pr_channels pr);
         chs = send_all [(c, BitField bf), (c, Flag Choke), (c, Flag NotInterested)]
                 (pr_channels pr @ [\<lparr>ch_messages = [], ch_open = is_open\<rparr>]) in
     if is_open then
       pr\<lparr>pr_channels := chs, pr_peer_to_tx := bt_insert p c (pr_peer_to_tx pr),
          pr_handlers := pr_handlers pr @ [\<lparr>h_peer = p, h_conn = c, h_status = Idle\<rparr>]\<rparr>
     else pr\<lparr>pr_channels := chs\<rparr>)"
proof -
  let ?c = "length (pr_channels pr)" and ?chs = "pr_channels pr @ [\<lparr>ch_messages = [], ch_open = is_open\<rparr>]"
  have "length (ti_pieces (t_info torrent)) < 2 ^ 32" "pr_torrent pr = torrent"
    using assms(2) by (auto simp: processor_inv_def tracker_good_def torrent_ok_def)
  then obtain bf where init: "init_connection A (pr_torrent pr) (pr_state pr) ?c ?chs = Some (deliverable ?chs ?c,
      send_all [(?c, BitField bf), (?c, Flag Choke), (?c, Flag NotInterested)] ?chs)"
    and "length bf = (length (ti_pieces (t_info torrent)) + 7) div 8"
    using init_connection_spec [OF assms(1), of torrent ?c ?chs] by auto
  then show ?thesis
    by (intro exI [of _ bf], cases is_open) (simp_all add: accept_peer_def Let_def deliverable_def del: send_all_simps)
qed

lemma accept_peer_channels:
  assumes "bytes_laws A" "processor_inv torrent max_out pr"
  shows "\<exists>bf. length bf = (length (ti_pieces (t_info torrent)) + 7) div 8 \<and> pr_channels (accept_peer A p is_open pr) =
    send_all [(length (pr_channels pr), BitField bf), (length (pr_channels pr), Flag Choke), (length (pr_channels pr), Flag NotInterested)]
      (pr_channels pr @ [\<lparr>ch_messages = [], ch_open = is_open\<rparr>])"
proof -
  note eq = accept_peer_eq [OF assms, of p is_open]
  from eq show ?thesis
    by (rule ex_forward) (cases is_open; simp add: Let_def del: send_all_simps)
qed

text \<open>No step but a wake-up sends a request.\<close>

lemma step_appends_no_request:
  assumes A: "bytes_laws A" and iter: "hash_iteration iter"
    and inv: "processor_inv torrent max_out pr" and step: "processor_step ops A iter pr ev pr'"
    and ev: "\<And>now. ev \<noteq> WakeReceived now"
  shows "\<exists>new. appends (pr_channels pr) (pr_channels pr') new \<and> (\<forall>c. \<forall>m \<in> set (new c). \<not> is_request m)"
  using step
proof cases
  case (peer_starts p is_open)
  let ?c = "length (pr_channels pr)"
  obtain bf where "pr_channels (accept_peer A p is_open pr) = send_all [(?c, BitField bf), (?c, Flag Choke), (?c, Flag NotInterested)]
      (pr_channels pr @ [\<lparr>ch_messages = [], ch_open = is_open\<rparr>])"
    using accept_peer_channels [OF A inv] by blast
  then have "pr_channels pr' = send_all [(?c, BitField bf), (?c, Flag Choke), (?c, Flag NotInterested)]
      (pr_channels pr @ [\<lparr>ch_messages = [], ch_open = is_open\<rparr>])"
    using peer_starts by simp
  then show ?thesis
    by (intro exI [of _ "\<lambda>_. []"]) (auto simp: appends_def send_all_messages nth_append simp del: send_all_simps)
next
  case (peer_sends i msg)
  let ?h = "pr_handlers pr ! i"
  obtain status s chs io where h: "handle_msg ops (h_peer ?h) (h_conn ?h) msg (pr_state pr, pr_channels pr, pr_io pr) =
      (status, s, chs, io)" by (metis prod_cases4)
  obtain ys where ys: "chs = send_all ys (pr_channels pr)" "set ys \<subseteq> {(h_conn ?h, Flag Interested)}"
    using handle_msg_spec [OF h] by blast
  have "pr_channels pr' = chs" using peer_sends h by (simp add: deliver_def Let_def set_status_def)
  moreover obtain new where "appends (pr_channels pr) chs new" "\<forall>c. set (new c) \<subseteq> {m. (c, m) \<in> set ys}"
    using appends_send_all [of "pr_channels pr" ys] ys(1) by blast
  ultimately show ?thesis using ys(2) by (intro exI [of _ new]) fastforce
next
  case (write_answered i index off res)
  then have "pr_channels pr' = pr_channels pr"
    by (simp add: write_answered_def set_status_def split: prod.split)
  then show ?thesis using appends_refl by fastforce
next
  case (timer_ticks now)
  then have "pr_channels pr' = pr_channels pr"
    by (simp add: timer_tick_eq [OF iter] Let_def split: prod.split)
  then show ?thesis using appends_refl by fastforce
next
  case (channel_closes c)
  then show ?thesis
    by (intro exI [of _ "\<lambda>_. []"]) (auto simp: appends_def nth_list_update)
qed (use ev appends_refl in \<open>fastforce simp: set_status_def reap_handler_def Let_def\<close>)+

text \<open>And a wake-up sends each peer requests for new blocks it offers, all recorded as in flight.\<close>

lemma wake_appends:
  assumes iter: "hash_iteration iter" and inv: "processor_inv torrent max_out pr"
  shows "\<exists>new. appends (pr_channels pr) (pr_channels (process_wakeup ops iter now msg pr)) new \<and>
    (\<forall>c i b l. Request i b l \<in> set (new c) \<longrightarrow>
       (\<exists>p. bt_get (pr_peer_to_tx pr) p = Some c \<and> p \<in> ts_peers_not_choking (pr_state pr) \<and>
         i \<in> has_piece (ts_block_peer_map (pr_state pr)) p) \<and>
       i \<in> get_incomplete_pieces (ts_tracking (pr_state pr)) \<and>
       contains_inprogress (started (ts_tracking (pr_state pr))) i b = None \<and>
       (i, b) \<in> in_flight (started (ts_tracking (pr_state (process_wakeup ops iter now msg pr)))))"
proof -
  let ?chs = "pr_channels pr" and ?t = "ts_tracking (pr_state pr)"
  let ?txs = "prune_closed_tx ?chs (pr_peer_to_tx pr)"
  obtain reqs t1 ann served q io where post: "wake_post iter now msg pr (process_wakeup ops iter now msg pr) reqs t1 ann served q io"
    using process_wakeup_spec [OF inv] by blast
  note parts = post [unfolded wake_post_def Let_def]
  have gen0: "generate_assignments iter now (pr_torrent pr) (piece_id_to_peers (pr_state pr)) ?t = Some (reqs, t1)"
    and quiet: "\<forall>(c, m) \<in> set (ann @ served). \<not> is_request m"
    using parts by fastforce+
  have after: "ts_tracking (pr_state (process_wakeup ops iter now msg pr)) =
      drop_requests (filter (\<lambda>r. \<not> sendable ?txs ?chs r) reqs) t1"
    "pr_channels (process_wakeup ops iter now msg pr) =
      send_all (ann @ map (request_send ?txs) (filter (sendable ?txs ?chs) reqs) @ served) ?chs"
    using parts by simp_all
  define sent where "sent = filter (sendable ?txs ?chs) reqs"
  let ?xs = "ann @ map (request_send ?txs) sent @ served"
  obtain new where new: "appends ?chs (send_all ?xs ?chs) new" "\<And>c. set (new c) \<subseteq> {m. (c, m) \<in> set ?xs}"
    using appends_send_all [of ?chs ?xs] by blast
  have good: "torrent_ok (pr_torrent pr)" "tracker_inv (length (ti_pieces (t_info (pr_torrent pr)))) ?t"
    "ppm_inv (ts_block_peer_map (pr_state pr))" "tracker_good torrent max_out ?t" "pr_torrent pr = torrent"
    using inv by (auto simp: processor_inv_def tracker_good_def state_inv_def)
  have fin: "finite (get_incomplete_pieces ?t)" by simp
  note avail = piece_id_to_peers_get [OF fin]
  have gen: "distinct (map req_key reqs)" "req_key ` set reqs \<inter> (in_flight (started ?t) \<union> finished_blocks (started ?t)) = {}"
    "in_flight (started t1) = req_key ` set reqs \<union> in_flight (started ?t)"
    "\<forall>r \<in> set reqs. request_ok (pr_torrent pr) iter (piece_id_to_peers (pr_state pr)) r" "tracker_good torrent max_out t1"
    using generate_assignments_spec [OF good(1,2), of iter now "piece_id_to_peers (pr_state pr)"] gen0 good(1,4,5)
    by (auto simp: tracker_good_def)
  have "(\<exists>p. bt_get (pr_peer_to_tx pr) p = Some c \<and> p \<in> ts_peers_not_choking (pr_state pr) \<and>
         i \<in> has_piece (ts_block_peer_map (pr_state pr)) p) \<and>
       i \<in> get_incomplete_pieces ?t \<and> contains_inprogress (started ?t) i b = None \<and>
       (i, b) \<in> in_flight (started (ts_tracking (pr_state (process_wakeup ops iter now msg pr))))"
    if m: "Request i b l \<in> set (new c)" for c i b l
  proof -
    have "(c, Request i b l) \<in> set ?xs" using new(2) [of c] m by blast
    moreover have "(c, Request i b l) \<notin> set (ann @ served)"
    proof
      assume "(c, Request i b l) \<in> set (ann @ served)"
      then show False using quiet by fastforce
    qed
    ultimately have "(c, Request i b l) \<in> set (map (request_send ?txs) sent)" by simp
    then obtain r where r: "r \<in> set reqs" "sendable ?txs ?chs r" "c = the (bt_get ?txs (req_peer_id r))"
      "i = req_index r" "b = req_begin r"
      by (auto simp: request_send_def request_message_def sent_def)
    have wf: "bt_wf (pr_peer_to_tx pr)" using inv by (simp add: processor_inv_def)
    have "bt_get ?txs (req_peer_id r) = Some c"
      using r(2,3) by (auto simp: sendable_def split: option.splits)
    then have tx: "bt_get (pr_peer_to_tx pr) (req_peer_id r) = Some c"
      by (simp add: prune_closed_get(2) [OF wf])
    have "\<forall>(x, ps) \<in> set (piece_id_to_peers (pr_state pr)). finite ps"
      using avail(2) avail(1) by (auto simp: bt_get_eq_iff [symmetric] peers_that_choke_def peer_set_def split: if_splits)
    then obtain ps where "bt_get (piece_id_to_peers (pr_state pr)) i = Some ps" "req_peer_id r \<in> ps"
      using hash_iteration.request_ok_peer [OF iter _ avail(2)] gen(4) r(1,4) by blast
    then have peer: "req_peer_id r \<in> ts_peers_not_choking (pr_state pr)"
      "i \<in> has_piece (ts_block_peer_map (pr_state pr)) (req_peer_id r)" "i \<in> get_incomplete_pieces ?t"
      using avail(1) [of i] good(3) by (auto simp: peers_that_choke_def ppm_inv_def split: if_splits)
    have key: "req_key r = (i, b)" using r by (simp add: req_key_def)
    have "contains_inprogress (started ?t) i b = None"
      using gen(2) r(1) key by (auto simp: contains_inprogress_iff)
    moreover have "req_key r \<notin> req_key ` set (filter (\<lambda>r. \<not> sendable ?txs ?chs r) reqs)"
      using gen(1) r(1,2) by (auto simp: distinct_map dest: inj_onD)
    then have "(i, b) \<in> in_flight (started (drop_requests (filter (\<lambda>r. \<not> sendable ?txs ?chs r) reqs) t1))"
      using drop_requests_facts [OF gen(5)] gen(3) imageI [OF r(1), of req_key] key by simp
    ultimately show ?thesis
      using tx peer unfolding after(1) by blast
  qed
  then show ?thesis
    using new(1) unfolding after(2) sent_def by (intro exI [of _ new] conjI) auto
qed

section \<open>An example run\<close>

text \<open>
  One peer connects, has the only piece and unchokes us; the loop has two wake-ups waiting.
\<close>

definition demo0 :: "memory_torrent_io processor" where
  "demo0 = processor_new default_config block_torrent [memory_from (replicate 40000 0)]"

definition demo1 :: "memory_torrent_io processor" where
  "demo1 = accept_peer list_bytes [1] True demo0"

definition demo2 :: "memory_torrent_io processor" where
  "demo2 = deliver memory_ops 0 (Flag Unchoke) demo1"

definition demo3 :: "memory_torrent_io processor" where
  "demo3 = set_status 0 Idle (demo2\<lparr>pr_wakeups := pr_wakeups demo2 @ [Wakeup]\<rparr>)"

abbreviation demo_step :: "memory_torrent_io processor \<Rightarrow> event \<Rightarrow> memory_torrent_io processor \<Rightarrow> bool" where
  "demo_step \<equiv> processor_step memory_ops list_bytes sorted_iter"

abbreviation demo_reachable :: "memory_torrent_io processor \<Rightarrow> bool" where
  "demo_reachable \<equiv> reachable (processor_init block_torrent 128) demo_step"

lemma demo0_reachable: "demo_reachable demo0"
proof (rule reachable.start)
  show "processor_init block_torrent 128 demo0"
    unfolding processor_init_def demo0_def
    using block_torrent_ok by (intro conjI exI [of _ default_config] exI) (simp_all add: default_config_def)
qed

lemma demo1_facts: "demo_reachable demo1" "pr_handlers demo1 = [\<lparr>h_peer = [1], h_conn = 0, h_status = Idle\<rparr>]"
  "pr_loop demo1 = Looping" "pr_wakeups demo1 = []" "pr_peer_to_tx demo1 = [([1], 0)]"
  "deliverable (pr_channels demo1) 0" "length (pr_channels demo1) = 1"
proof -
  have inv: "processor_inv block_torrent 128 demo0"
    using processor.reachable_inv [OF demo0_reachable] .
  have l: "pr_loop demo0 = Looping" by (simp add: demo0_def processor_new_def)
  show "demo_reachable demo1"
    unfolding demo1_def by (rule reachable.next_state [OF demo0_reachable processor_step.peer_starts [OF l]])
  obtain bf where eq: "demo1 = (let c = length (pr_channels demo0);
         chs = send_all [(c, BitField bf), (c, Flag Choke), (c, Flag NotInterested)]
                 (pr_channels demo0 @ [\<lparr>ch_messages = [], ch_open = True\<rparr>]) in
       demo0\<lparr>pr_channels := chs, pr_peer_to_tx := bt_insert [1] c (pr_peer_to_tx demo0),
          pr_handlers := pr_handlers demo0 @ [\<lparr>h_peer = [1], h_conn = c, h_status = Idle\<rparr>]\<rparr>)"
    using accept_peer_eq [OF list_bytes.bytes_laws_axioms inv, of "[1]" True] unfolding demo1_def by auto
  note start = demo0_def processor_new_def bt_empty_def Let_def
  show "pr_handlers demo1 = [\<lparr>h_peer = [1], h_conn = 0, h_status = Idle\<rparr>]"
    by (simp add: eq start del: send_all_simps)
  show "pr_loop demo1 = Looping" "pr_wakeups demo1 = []" "pr_peer_to_tx demo1 = [([1], 0)]"
    by (simp_all add: eq start del: send_all_simps)
  have "pr_channels demo0 = []" by (simp add: start)
  then show "length (pr_channels demo1) = 1" "deliverable (pr_channels demo1) 0"
    by (simp_all add: eq Let_def deliverable_def [of "[_]"] del: send_all_simps)
qed

lemma demo3_facts: "demo_reachable demo3" "pr_loop demo3 = Looping" "pr_wakeups demo3 = [Wakeup]"
  "pr_handlers demo3 = [\<lparr>h_peer = [1], h_conn = 0, h_status = Idle\<rparr>]" "pr_peer_to_tx demo3 = [([1], 0)]"
  "[1] \<in> ts_peers_not_choking (pr_state demo3)"
proof -
  have step2: "demo_step demo1 (PeerSends 0 (Flag Unchoke)) demo2"
    unfolding demo2_def by (rule processor_step.peer_sends) (simp_all add: demo1_facts)
  have demo2: "pr_loop demo2 = Looping" "pr_wakeups demo2 = []" "pr_peer_to_tx demo2 = [([1], 0)]"
    "pr_handlers demo2 = [\<lparr>h_peer = [1], h_conn = 0, h_status = Waking Wakeup\<rparr>]"
    "[1] \<in> ts_peers_not_choking (pr_state demo2)"
    by (simp_all add: demo2_def deliver_def Let_def set_status_def demo1_facts set_peer_choked_us_facts)
  have step3: "demo_step demo2 (WakeSent 0) demo3"
    unfolding demo3_def by (rule processor_step.wake_sent) (simp_all add: demo2 wakeup_capacity_def)
  show "demo_reachable demo3"
    by (rule reachable.next_state [OF reachable.next_state [OF demo1_facts(1) step2] step3])
  show "pr_loop demo3 = Looping" "pr_wakeups demo3 = [Wakeup]"
    "pr_handlers demo3 = [\<lparr>h_peer = [1], h_conn = 0, h_status = Idle\<rparr>]" "pr_peer_to_tx demo3 = [([1], 0)]"
    "[1] \<in> ts_peers_not_choking (pr_state demo3)"
    by (simp_all add: demo3_def set_status_def demo2)
qed

section \<open>Properties\<close>

text \<open>
  C14. No interleaving of peers, messages, timers, expiries and closing channels makes the
  processor panic, and the requests in flight stay within the configured limit throughout.
\<close>

theorem processor_never_panics:
  assumes "bytes_laws A" and "hash_iteration iter"
    and "reachable (processor_init torrent max_out) (processor_step ops A iter) pr"
  shows "pr_loop pr \<noteq> Died \<and> downloading_requests_len (ts_tracking (pr_state pr)) \<le> max_out"
  using invariant_system.reachable_inv [OF processor_machine [OF assms(1,2)] assms(3)]
  by (auto simp: processor_inv_def tracker_good_def tracker_inv_def)

lemma processor_never_panics_witness:
  "pr_loop demo3 \<noteq> Died \<and> downloading_requests_len (ts_tracking (pr_state demo3)) \<le> 128"
  by (rule processor_never_panics [OF list_bytes.bytes_laws_axioms sorted_iter.hash_iteration_axioms demo3_facts(1)])

text \<open>
  C10. Whom we ask for what: a step appends a request for a block to a channel only if that
  channel belongs to a peer that does not choke us and has announced the piece, the piece is
  not complete, the block was neither in flight nor done before, and it is in flight after.
\<close>

theorem requests_follow_protocol:
  assumes "bytes_laws A" and "hash_iteration iter"
    and "reachable (processor_init torrent max_out) (processor_step ops A iter) pr"
    and "processor_step ops A iter pr ev pr'"
  shows "\<exists>new. appends (pr_channels pr) (pr_channels pr') new \<and>
    (\<forall>c i b l. Request i b l \<in> set (new c) \<longrightarrow>
       (\<exists>p. bt_get (pr_peer_to_tx pr) p = Some c \<and> p \<in> ts_peers_not_choking (pr_state pr) \<and>
         i \<in> has_piece (ts_block_peer_map (pr_state pr)) p) \<and>
       i \<in> get_incomplete_pieces (ts_tracking (pr_state pr)) \<and>
       contains_inprogress (started (ts_tracking (pr_state pr))) i b = None \<and>
       (i, b) \<in> in_flight (started (ts_tracking (pr_state pr'))))"
proof -
  have inv: "processor_inv torrent max_out pr"
    by (rule invariant_system.reachable_inv [OF processor_machine [OF assms(1,2)] assms(3)])
  show ?thesis
  proof (cases "\<exists>now. ev = WakeReceived now")
    case True
    then obtain now msg rest where "pr' = process_wakeup ops iter now msg (pr\<lparr>pr_wakeups := rest\<rparr>)"
      using assms(4) by (auto elim: step_wakeE)
    moreover have "processor_inv torrent max_out (pr\<lparr>pr_wakeups := rest\<rparr>)"
      using inv by (simp add: processor_inv_def)
    ultimately show ?thesis
      using wake_appends [OF assms(2), of torrent max_out "pr\<lparr>pr_wakeups := rest\<rparr>" ops now msg] by simp
  next
    case False
    then obtain new where "appends (pr_channels pr) (pr_channels pr') new" "\<forall>c. \<forall>m \<in> set (new c). \<not> is_request m"
      using step_appends_no_request [OF assms(1,2) inv assms(4)] by blast
    then show ?thesis by (intro exI [of _ new]) fastforce
  qed
qed

lemma requests_follow_protocol_witness:
  "\<exists>pr' new. demo_step demo3 (WakeReceived (\<lambda>_. 5)) pr' \<and> appends (pr_channels demo3) (pr_channels pr') new \<and>
    (\<forall>c i b l. Request i b l \<in> set (new c) \<longrightarrow> (i, b) \<in> in_flight (started (ts_tracking (pr_state pr'))))"
proof -
  have "demo_step demo3 (WakeReceived (\<lambda>_. 5)) (process_wakeup memory_ops sorted_iter (\<lambda>_. 5) Wakeup (demo3\<lparr>pr_wakeups := []\<rparr>))"
    by (rule processor_step.wake_received) (simp_all add: demo3_facts)
  then obtain pr' where step: "demo_step demo3 (WakeReceived (\<lambda>_. 5)) pr'" by blast
  show ?thesis
    using requests_follow_protocol [OF list_bytes.bytes_laws_axioms sorted_iter.hash_iteration_axioms demo3_facts(1) step]
      step by blast
qed

text \<open>
  What a peer is told, over the whole life of its channel: nothing at all, or the
  bitfield, \<open>Choke\<close> and \<open>NotInterested\<close>, and after that only \<open>Interested\<close>, \<open>Have\<close>,
  \<open>Request\<close> and \<open>Piece\<close>. No peer is ever unchoked.
\<close>

theorem channel_script:
  assumes "bytes_laws A" and "hash_iteration iter"
    and "reachable (processor_init torrent max_out) (processor_step ops A iter) pr"
    and "ch \<in> set (pr_channels pr)"
  shows "ch_messages ch = [] \<or>
    (\<exists>bf tail. ch_messages ch = [BitField bf, Flag Choke, Flag NotInterested] @ tail \<and> list_all routine tail \<and>
      Flag Unchoke \<notin> set (ch_messages ch))"
proof -
  have inv: "channels_inv (pr_channels pr)"
    using invariant_system.reachable_inv [OF processor_machine [OF assms(1,2)] assms(3)] by (simp add: processor_inv_def)
  obtain c where c: "c < length (pr_channels pr)" "ch = pr_channels pr ! c"
    using assms(4) by (auto simp: in_set_conv_nth)
  have "ch_messages ch = [] \<or> greeted (pr_channels pr) c"
    using inv c by (simp add: channels_inv_def)
  moreover have "Flag Unchoke \<notin> set tail" if "list_all routine tail" for tail
    using that by (auto simp: list_all_iff)
  ultimately show ?thesis
    unfolding greeted_def c(2) [symmetric] by auto
qed

lemma channel_script_witness:
  "ch_messages (pr_channels demo1 ! 0) = [] \<or>
    (\<exists>bf tail. ch_messages (pr_channels demo1 ! 0) = [BitField bf, Flag Choke, Flag NotInterested] @ tail \<and>
      list_all routine tail \<and> Flag Unchoke \<notin> set (ch_messages (pr_channels demo1 ! 0)))"
  by (rule channel_script [OF list_bytes.bytes_laws_axioms sorted_iter.hash_iteration_axioms demo1_facts(1)])
    (simp add: demo1_facts(7))

end
