(* ===== verification/Loop_Outcomes.thy ===== *)
theory Loop_Outcomes
  imports Loop_Properties
begin

text \<open>
  Where the branches of the loop lead: the timer that blocks the loop on its own wake-up
  channel, peers that are served although they were told \<open>Choke\<close>, the bounded answering of
  their requests, what is left of a peer whose handler returned, and when a piece counts as
  completed and is announced.
\<close>

section \<open>The loop blocked on its own channel\<close>

lemma blocked_stays:
  assumes "run (processor_step ops A iter) pr evs pr'" "pr_loop pr = Blocked"
  shows "pr_loop pr' = Blocked \<and> (\<forall>ev \<in> set evs. \<exists>c. ev = ChannelCloses c) \<and>
    pr_handlers pr' = pr_handlers pr \<and> pr_wakeups pr' = pr_wakeups pr \<and> pr_state pr' = pr_state pr"
  using assms
proof (induction rule: run.induct)
  case (run_Cons s ev s' evs s'')
  from run_Cons.hyps(1) run_Cons.prems obtain c where "ev = ChannelCloses c" "pr_loop s' = Blocked"
    "pr_handlers s' = pr_handlers s" "pr_wakeups s' = pr_wakeups s" "pr_state s' = pr_state s"
    by cases simp_all
  then show ?case using run_Cons.IH by simp
qed simp

text \<open>
  C37. A timer tick that expires a request while the wake-up channel is full blocks the loop,
  for ever: it waits for room in a channel it alone reads, so from then on no message is
  handled, no request made and no timer served; only peers can still hang up.
\<close>

theorem wakeup_deadlock:
  assumes "hash_iteration iter"
    and "length (pr_wakeups pr) = wakeup_capacity"
    and "fst (remove_expired now (ts_tracking (pr_state pr))) \<noteq> []"
    and "run (processor_step ops A iter) pr (TimerTicks now # evs) pr'"
  shows "pr_loop pr' = Blocked \<and> (\<forall>ev \<in> set evs. \<exists>c. ev = ChannelCloses c) \<and>
    pr_handlers pr' = pr_handlers pr \<and> pr_wakeups pr' = pr_wakeups pr"
proof -
  obtain reqs t where r: "remove_expired now (ts_tracking (pr_state pr)) = (reqs, t)" by fastforce
  from assms(4) obtain pr1 where step: "processor_step ops A iter pr (TimerTicks now) pr1"
    and rest: "run (processor_step ops A iter) pr1 evs pr'" by (rule run_ConsE)
  then have "pr1 = timer_tick iter now pr" by (auto elim: step_tickE)
  then have "pr_loop pr1 = Blocked" "pr_handlers pr1 = pr_handlers pr" "pr_wakeups pr1 = pr_wakeups pr"
    using assms(2,3) r by (simp_all add: timer_tick_eq [OF assms(1)] Let_def)
  then show ?thesis using blocked_stays [OF rest] by simp
qed

text \<open>
  The example run gets there: the peer announces the piece and unchokes us, requests are made
  at time 5, and before they expire the peer's messages fill the wake-up channel.
\<close>

definition demo_ready :: "nat \<Rightarrow> memory_torrent_io processor \<Rightarrow> bool" where
  "demo_ready n pr \<longleftrightarrow>
     demo_reachable pr \<and> pr_loop pr = Looping \<and> length (pr_wakeups pr) = n \<and>
     pr_handlers pr = [\<lparr>h_peer = [1], h_conn = 0, h_status = Idle\<rparr>]"

lemma demo_send:
  assumes "demo_ready n pr" "n < wakeup_capacity"
    and "deliver memory_ops 0 msg pr = pr1" "pr_loop pr1 = Looping" "pr_wakeups pr1 = pr_wakeups pr"
    and "pr_handlers pr1 = [\<lparr>h_peer = [1], h_conn = 0, h_status = Waking w\<rparr>]"
  shows "demo_ready (Suc n) (set_status 0 Idle (pr1\<lparr>pr_wakeups := pr_wakeups pr1 @ [w]\<rparr>))"
proof -
  have "demo_step pr (PeerSends 0 msg) pr1"
    using processor_step.peer_sends [of pr 0 memory_ops list_bytes sorted_iter msg] assms
    by (simp add: demo_ready_def)
  moreover have "demo_step pr1 (WakeSent 0) (set_status 0 Idle (pr1\<lparr>pr_wakeups := pr_wakeups pr1 @ [w]\<rparr>))"
    by (rule processor_step.wake_sent) (use assms in \<open>simp_all add: demo_ready_def\<close>)
  ultimately have "demo_reachable (set_status 0 Idle (pr1\<lparr>pr_wakeups := pr_wakeups pr1 @ [w]\<rparr>))"
    using assms(1) unfolding demo_ready_def by (blast intro: reachable.next_state)
  then show ?thesis
    using assms by (simp add: demo_ready_def set_status_def)
qed

lemma demo_fill:
  assumes "demo_ready n pr" "n + k \<le> wakeup_capacity"
  shows "\<exists>pr'. demo_ready (n + k) pr' \<and> ts_tracking (pr_state pr') = ts_tracking (pr_state pr)"
  using assms(2)
proof (induction k)
  case 0
  then show ?case using assms(1) by auto
next
  case (Suc k)
  then obtain pr' where pr': "demo_ready (n + k) pr'" "ts_tracking (pr_state pr') = ts_tracking (pr_state pr)"
    by auto
  let ?pr1 = "deliver memory_ops 0 (Flag Unchoke) pr'"
  have h: "pr_handlers pr' = [\<lparr>h_peer = [1], h_conn = 0, h_status = Idle\<rparr>]" "pr_loop pr' = Looping"
    using pr'(1) by (simp_all add: demo_ready_def)
  have d: "pr_loop ?pr1 = Looping" "pr_wakeups ?pr1 = pr_wakeups pr'"
    "pr_handlers ?pr1 = [\<lparr>h_peer = [1], h_conn = 0, h_status = Waking Wakeup\<rparr>]"
    "ts_tracking (pr_state ?pr1) = ts_tracking (pr_state pr')"
    by (simp_all add: deliver_def Let_def h set_status_def set_peer_choked_us_facts)
  have "n + k < wakeup_capacity" using Suc.prems by simp
  from demo_send [OF pr'(1) this refl d(1-3)] show ?case
    using d(4) pr'(2) by (auto simp: set_status_def intro!: exI)
qed

text \<open>The peer announces the piece and unchokes us.\<close>

definition demo_have :: "memory_torrent_io processor" where
  "demo_have = deliver memory_ops 0 (Have 0) demo1"

definition demo_offer :: "memory_torrent_io processor" where
  "demo_offer = set_status 0 Idle (demo_have\<lparr>pr_wakeups := pr_wakeups demo_have @ [Wakeup]\<rparr>)"

lemma demo1_state: "pr_state demo1 = torrent_state_new (ti_pieces (t_info block_torrent)) 128"
  "pr_torrent demo1 = block_torrent"
proof -
  have inv: "processor_inv block_torrent 128 demo0"
    using processor.reachable_inv [OF demo0_reachable] .
  obtain bf where eq: "demo1 = (let c = length (pr_channels demo0);
         chs = send_all [(c, BitField bf), (c, Flag Choke), (c, Flag NotInterested)]
                 (pr_channels demo0 @ [\<lparr>ch_messages = [], ch_open = True\<rparr>]) in
       demo0\<lparr>pr_channels := chs, pr_peer_to_tx := bt_insert [1] c (pr_peer_to_tx demo0),
          pr_handlers := pr_handlers demo0 @ [\<lparr>h_peer = [1], h_conn = c, h_status = Idle\<rparr>]\<rparr>)"
    using accept_peer_eq [OF list_bytes.bytes_laws_axioms inv, of "[1]" True] unfolding demo1_def by auto
  show "pr_state demo1 = torrent_state_new (ti_pieces (t_info block_torrent)) 128" "pr_torrent demo1 = block_torrent"
    by (simp_all add: eq Let_def demo0_def processor_new_def default_config_def del: send_all_simps)
qed

lemma tell_interest_open:
  assumes "deliverable chs c" "tell_interest c change chs = (status, chs')"
  shows "status = Waking Wakeup \<and> deliverable chs' d = deliverable chs d"
proof (cases change)
  case (Some b)
  obtain chs1 where "send c (interest_msg b) chs = (True, chs1)" "deliverable chs1 d = deliverable chs d"
    using send_True [OF assms(1)] send_facts(3) by blast
  then show ?thesis using Some assms(2) by (simp add: tell_interest_def)
qed (use assms in \<open>simp add: tell_interest_def\<close>)

lemma demo_have_facts: "pr_handlers demo_have = [\<lparr>h_peer = [1], h_conn = 0, h_status = Waking Wakeup\<rparr>]"
  "pr_loop demo_have = Looping" "pr_wakeups demo_have = []" "pr_peer_to_tx demo_have = [([1], 0)]"
  "deliverable (pr_channels demo_have) 0" "pr_torrent demo_have = block_torrent"
  "ts_tracking (pr_state demo_have) = ts_tracking (pr_state demo1)" "peer_set (pr_state demo_have) = {[1]}"
  "get_peers_with_piece (ts_block_peer_map (pr_state demo_have)) 0 = {[1]}"
  "ts_peers_not_choking (pr_state demo_have) = {}"
proof -
  let ?s = "torrent_state_new (ti_pieces (t_info block_torrent)) 128"
  obtain change s' where add: "add_pieces_for_peer [1] [0] ?s = (change, s')" by fastforce
  have start: "peer_set ?s = {}" "ts_peers_not_choking ?s = {}"
    "get_peers_with_piece (ts_block_peer_map ?s) 0 = {}" "state_inv ?s"
    using torrent_state_new_inv by (simp_all add: torrent_state_new_def peer_set_def bt_empty_def get_peers_with_piece_def)
  note spec = add_pieces_spec [OF add]
  obtain status chs where tell: "tell_interest 0 change (pr_channels demo1) = (status, chs)" by fastforce
  have t: "status = Waking Wakeup" "deliverable chs 0"
    using tell_interest_open [OF demo1_facts(6) tell] demo1_facts(6) by simp_all
  show "pr_handlers demo_have = [\<lparr>h_peer = [1], h_conn = 0, h_status = Waking Wakeup\<rparr>]"
    "pr_loop demo_have = Looping" "pr_wakeups demo_have = []" "pr_peer_to_tx demo_have = [([1], 0)]"
    "deliverable (pr_channels demo_have) 0" "pr_torrent demo_have = block_torrent"
    "ts_tracking (pr_state demo_have) = ts_tracking (pr_state demo1)" "peer_set (pr_state demo_have) = {[1]}"
    "get_peers_with_piece (ts_block_peer_map (pr_state demo_have)) 0 = {[1]}"
    "ts_peers_not_choking (pr_state demo_have) = {}"
    by (simp_all add: demo_have_def deliver_def Let_def demo1_facts demo1_state add tell t set_status_def spec(1,3-6,9) start)
qed

lemma demo_offer_facts: "demo_ready 1 demo_offer" "pr_wakeups demo_offer = [Wakeup]"
proof -
  have "demo_ready 0 demo1" by (simp add: demo_ready_def demo1_facts)
  from demo_send [OF this _ demo_have_def [symmetric], of Wakeup] show "demo_ready 1 demo_offer"
    by (simp add: wakeup_capacity_def demo_have_facts demo1_facts demo_offer_def)
  show "pr_wakeups demo_offer = [Wakeup]" by (simp add: demo_offer_def set_status_def demo_have_facts)
qed

lemma everything_expires:
  assumes "tracker_good torrent max_out t" "in_flight (started t) \<noteq> {}"
    and "\<forall>e \<in> set (expirations (piece_to_blocks_outstanding t)). expired now (pbt_request_timeout t) (fst e)"
  shows "fst (remove_expired now t) \<noteq> []"
proof -
  obtain reqs t' where r: "remove_expired now t = (reqs, t')" by fastforce
  let ?q = "expirations (piece_to_blocks_outstanding t)" and ?q' = "expirations (piece_to_blocks_outstanding t')"
  have inv: "maps_ok (started t)" "in_flight (started t) \<subseteq> queued ?q"
    using assms(1) by (simp_all add: tracker_good_def tracker_inv_def)
  obtain pre where pre: "?q = pre @ ?q'"
    "expire_post now (pbt_request_timeout t) (started t) pre reqs ?q' (started t')"
    using remove_expired_spec [OF r inv(1)] by blast
  have "?q' = []"
  proof (cases ?q')
    case (Cons e es)
    then show ?thesis using pre assms(3) by (auto simp: expire_post_def)
  qed
  then have "req_key ` set reqs = in_flight (started t)"
    using pre inv(2) by (auto simp: expire_post_def)
  then show ?thesis using assms(2) r by auto
qed

lemma insert_expirations:
  "fst ` set (expirations (fold (inprogress_insert now) rs m)) \<subseteq> insert now (fst ` set (expirations m))"
proof (induction rs arbitrary: m)
  case (Cons r rs)
  have "fst ` set (expirations (inprogress_insert now r m)) \<subseteq> insert now (fst ` set (expirations m))"
    by (auto simp: inprogress_insert_def Let_def)
  then have "insert now (fst ` set (expirations (inprogress_insert now r m))) \<subseteq> insert now (fst ` set (expirations m))"
    by (simp only: insert_subset insertI1 simp_thms)
  then show ?case using Cons [of "inprogress_insert now r m"] by (simp only: fold_simps)
qed auto

text \<open>The requests of the first round, made at time 5.\<close>

lemma block_round_128:
  obtains reqs t' where
    "generate_assignments sorted_iter (\<lambda>_. 5) block_torrent [(0, {[1]})] (tracker_new 128 (ti_pieces (t_info block_torrent))) =
       Some (reqs, t')"
    "reqs \<noteq> []" "\<forall>r \<in> set reqs. req_peer_id r = [1]" "in_flight (started t') \<noteq> {}"
    "fst ` set (expirations (piece_to_blocks_outstanding t')) \<subseteq> {5}" "pbt_request_timeout t' = 10000000000"
proof -
  let ?t = "tracker_new 128 (ti_pieces (t_info block_torrent))"
  have init: "tracker_init block_torrent 128 ?t" by (simp add: tracker_init_def block_torrent_ok)
  then have inv: "tracker_inv (length (ti_pieces (t_info block_torrent))) ?t"
    using tracker.init_inv by (auto simp: tracker_good_def)
  then have len: "downloading_requests_len ?t \<le> pbt_max_outstanding_requests ?t" by (simp add: tracker_inv_def)
  let ?reqs = "assigned block_torrent 0 [[1]] ?t"
  have "block_begins 40000 = [0, 16384, 32768]"
    by (simp add: block_begins_def PIECE_BLOCK_SIZE_def upt_rec)
  then have reqs: "?reqs \<noteq> []" "\<forall>r \<in> set ?reqs. req_peer_id r = [1]"
    by (auto simp: assigned_def block_torrent_size fresh_blocks_def tracker_new_def
        downloading_requests_len_def ptb_downloading_requests_len_def empty_block_map_def bt_empty_def
        contains_inprogress_def visit_req_map_def mk_request_def)
  obtain t' where t': "assign_piece 5 block_torrent 0 [[1]] ?t = Some (?reqs, t')"
    and eq: "t' = ?t\<lparr>pieces_not_started := (if ?reqs = [] then pieces_not_started ?t else pieces_not_started ?t - {0}),
       piece_to_blocks_outstanding := fold (inprogress_insert 5) ?reqs (piece_to_blocks_outstanding ?t)\<rparr>"
    using assign_piece_eq [OF block_torrent_ok len, of 5 0 "[[1]]"] by (simp add: Let_def)
  have "in_flight (started t') = req_key ` set ?reqs \<union> in_flight (started ?t)"
    using assign_piece_spec [OF block_torrent_ok inv, of 5 0 "[[1]]"] t' by auto
  then have flight: "in_flight (started t') \<noteq> {}" using reqs(1) by simp
  have old: "fst ` set (expirations (piece_to_blocks_outstanding ?t)) = {}" by (simp add: tracker_new_def)
  then have exp: "fst ` set (expirations (piece_to_blocks_outstanding t')) \<subseteq> {5}"
    using insert_expirations [of 5 ?reqs "piece_to_blocks_outstanding ?t"] by (simp add: eq del: image_is_empty)
  have ttl: "pbt_request_timeout t' = 10000000000" by (simp add: eq tracker_new_def)
  have "generate_assignments sorted_iter (\<lambda>_. 5) block_torrent [(0, {[1]})] ?t = Some (?reqs, t')"
    by (simp add: t')
  then show ?thesis using reqs flight exp ttl by (rule that)
qed

definition demo_open :: "memory_torrent_io processor" where
  "demo_open = deliver memory_ops 0 (Flag Unchoke) demo_offer"

definition demo_unchoked :: "memory_torrent_io processor" where
  "demo_unchoked = set_status 0 Idle (demo_open\<lparr>pr_wakeups := pr_wakeups demo_open @ [Wakeup]\<rparr>)"

lemma demo_unchoked_facts: "demo_ready 2 demo_unchoked" "pr_wakeups demo_unchoked = [Wakeup, Wakeup]"
  "pr_peer_to_tx demo_unchoked = [([1], 0)]" "deliverable (pr_channels demo_unchoked) 0"
  "pr_torrent demo_unchoked = block_torrent"
  "ts_tracking (pr_state demo_unchoked) = tracker_new 128 (ti_pieces (t_info block_torrent))"
  "piece_id_to_peers (pr_state demo_unchoked) = [(0, {[1]})]"
proof -
  have h: "pr_handlers demo_offer = [\<lparr>h_peer = [1], h_conn = 0, h_status = Idle\<rparr>]" "pr_loop demo_offer = Looping"
    using demo_offer_facts by (simp_all add: demo_ready_def)
  have d: "pr_loop demo_open = Looping" "pr_wakeups demo_open = pr_wakeups demo_offer"
    "pr_handlers demo_open = [\<lparr>h_peer = [1], h_conn = 0, h_status = Waking Wakeup\<rparr>]"
    "pr_peer_to_tx demo_open = pr_peer_to_tx demo_offer" "pr_channels demo_open = pr_channels demo_offer"
    "pr_torrent demo_open = pr_torrent demo_offer"
    "pr_state demo_open = set_peer_choked_us [1] False (pr_state demo_offer)"
    by (simp_all add: demo_open_def deliver_def Let_def h set_status_def)
  from demo_send [OF demo_offer_facts(1) _ demo_open_def [symmetric] d(1-3)] show "demo_ready 2 demo_unchoked"
    by (simp add: wakeup_capacity_def demo_unchoked_def numeral_2_eq_2)
  show "pr_wakeups demo_unchoked = [Wakeup, Wakeup]" "pr_peer_to_tx demo_unchoked = [([1], 0)]"
    "deliverable (pr_channels demo_unchoked) 0" "pr_torrent demo_unchoked = block_torrent"
    by (simp_all add: demo_unchoked_def set_status_def d demo_offer_def demo_have_facts)
  have s: "pr_state demo_unchoked = set_peer_choked_us [1] False (pr_state demo_have)"
    by (simp add: demo_unchoked_def set_status_def d demo_offer_def)
  then show t: "ts_tracking (pr_state demo_unchoked) = tracker_new 128 (ti_pieces (t_info block_torrent))"
    by (simp add: set_peer_choked_us_facts demo_have_facts demo1_state torrent_state_new_def)
  have "get_incomplete_pieces (ts_tracking (pr_state demo_unchoked)) = {0}"
    by (auto simp: t get_incomplete_pieces_def tracker_new_def block_torrent_def empty_block_map_def ptb_pieces_def
        bt_empty_def as_u32_def)
  then show "piece_id_to_peers (pr_state demo_unchoked) = [(0, {[1]})]"
    by (simp add: piece_id_to_peers_def Let_def s set_peer_choked_us_facts demo_have_facts peers_that_choke_def
        bt_collect_def bt_empty_def)
qed

text \<open>The wake-up at time 5: the requests go out, and one wake-up is left.\<close>

lemma demo_requested:
  obtains pr' where "demo_ready 1 pr'" "in_flight (started (ts_tracking (pr_state pr'))) \<noteq> {}"
    "fst ` set (expirations (piece_to_blocks_outstanding (ts_tracking (pr_state pr')))) \<subseteq> {5}"
    "pbt_request_timeout (ts_tracking (pr_state pr')) = 10000000000"
proof -
  note d = demo_unchoked_facts
  let ?pr = "demo_unchoked\<lparr>pr_wakeups := [Wakeup]\<rparr>"
  define pr' where "pr' = process_wakeup memory_ops sorted_iter (\<lambda>_. 5) Wakeup ?pr"
  have ready: "demo_reachable demo_unchoked" "pr_loop demo_unchoked = Looping"
    "pr_handlers demo_unchoked = [\<lparr>h_peer = [1], h_conn = 0, h_status = Idle\<rparr>]"
    using d(1) by (simp_all add: demo_ready_def)
  have "demo_step demo_unchoked (WakeReceived (\<lambda>_. 5)) pr'"
    unfolding pr'_def by (rule processor_step.wake_received [OF ready(2) d(2)])
  then have reach: "demo_reachable pr'" by (rule reachable.next_state [OF ready(1)])
  have "processor_inv block_torrent 128 demo_unchoked" by (rule processor.reachable_inv [OF ready(1)])
  then have inv: "processor_inv block_torrent 128 ?pr" by (simp add: processor_inv_def)
  obtain reqs t1 ann served q io where post: "wake_post sorted_iter (\<lambda>_. 5) Wakeup ?pr pr' reqs t1 ann served q io"
    using process_wakeup_spec [OF inv] unfolding pr'_def by blast
  obtain reqs0 t0 where round: "generate_assignments sorted_iter (\<lambda>_. 5) block_torrent [(0, {[1]})]
      (tracker_new 128 (ti_pieces (t_info block_torrent))) = Some (reqs0, t0)" "\<forall>r \<in> set reqs0. req_peer_id r = [1]"
    "in_flight (started t0) \<noteq> {}" "fst ` set (expirations (piece_to_blocks_outstanding t0)) \<subseteq> {5}"
    "pbt_request_timeout t0 = 10000000000"
    by (rule block_round_128)
  let ?txs = "prune_closed_tx (pr_channels demo_unchoked) [([1], 0)]"
  note parts = post [unfolded wake_post_def Let_def]
  have tracker: "ts_tracking (pr_state pr') = drop_requests (filter (\<lambda>r. \<not> sendable ?txs (pr_channels demo_unchoked) r) reqs) t1"
    and gen: "generate_assignments sorted_iter (\<lambda>_. 5) block_torrent [(0, {[1]})] (tracker_new 128 (ti_pieces (t_info block_torrent))) =
      Some (reqs, t1)"
    and same: "pr_loop pr' = Looping" "pr_handlers pr' = pr_handlers demo_unchoked" "pr_wakeups pr' = [Wakeup]"
    using parts by (simp_all add: d(3,5,6,7) ready(2) del: generate_assignments.simps)
  have "reqs = reqs0" "t1 = t0" using gen round(1) by (simp_all del: generate_assignments.simps)
  moreover have "bt_get ?txs [1] = Some 0"
    using d(4) by (subst prune_closed_get(2)) simp_all
  then have "sendable ?txs (pr_channels demo_unchoked) r" if "r \<in> set reqs0" for r
    using round(2) that d(4) by (simp add: sendable_def)
  then have "filter (\<lambda>r. \<not> sendable ?txs (pr_channels demo_unchoked) r) reqs0 = []" by simp
  ultimately have t: "ts_tracking (pr_state pr') = t0" using tracker by (simp add: drop_requests_def)
  have "demo_ready 1 pr'"
    using reach same ready by (simp add: demo_ready_def)
  then show ?thesis using round(3-5) unfolding t [symmetric] by (rule that)
qed

lemma wakeup_deadlock_witness:
  "\<exists>pr pr'. demo_reachable pr \<and> pr_loop pr = Looping \<and> demo_step pr (TimerTicks 10000000005) pr' \<and>
     demo_reachable pr' \<and> pr_loop pr' = Blocked"
proof -
  obtain pr1 where pr1: "demo_ready 1 pr1" "in_flight (started (ts_tracking (pr_state pr1))) \<noteq> {}"
    "fst ` set (expirations (piece_to_blocks_outstanding (ts_tracking (pr_state pr1)))) \<subseteq> {5}"
    "pbt_request_timeout (ts_tracking (pr_state pr1)) = 10000000000"
    by (rule demo_requested)
  obtain pr where pr: "demo_ready wakeup_capacity pr" "ts_tracking (pr_state pr) = ts_tracking (pr_state pr1)"
    using demo_fill [OF pr1(1), of 9] by (auto simp: wakeup_capacity_def)
  have reach: "demo_reachable pr" "pr_loop pr = Looping" "length (pr_wakeups pr) = wakeup_capacity"
    using pr(1) by (simp_all add: demo_ready_def)
  let ?pr' = "timer_tick sorted_iter 10000000005 pr"
  have step: "demo_step pr (TimerTicks 10000000005) ?pr'" by (rule processor_step.timer_ticks [OF reach(2)])
  have "tracker_good block_torrent 128 (ts_tracking (pr_state pr))"
    using processor.reachable_inv [OF reach(1)] by (simp add: processor_inv_def)
  then have "fst (remove_expired 10000000005 (ts_tracking (pr_state pr))) \<noteq> []"
    by (rule everything_expires) (use pr1 pr(2) in \<open>auto simp: expired_def\<close>)
  then have "pr_loop ?pr' = Blocked"
    using wakeup_deadlock [OF sorted_iter.hash_iteration_axioms reach(3), of 10000000005 memory_ops list_bytes "[]" ?pr']
      run_Cons [of demo_step, OF step run_Nil] by blast
  then show ?thesis
    using reach step reachable.next_state [OF reach(1) step] by blast
qed

end
