(* ===== verification/Serving.thy ===== *)
theory Serving
  imports Loop_Outcomes
begin

text \<open>
  The upload side of the loop and the life of a peer: who is served, what dequeuing answers and
  loses, what is left of a peer whose handler returned, and when a piece counts as completed
  and is announced.
\<close>

section \<open>What a wake-up does with the queue\<close>

text \<open>The requests a wake-up finds queued, and what it does with the queue.\<close>

definition asked :: "torrent_state \<Rightarrow> internal_state_message \<Rightarrow> peer_requested_piece list" where
  "asked s msg =
     (case msg of PeerRequestedPiece r \<Rightarrow> if req_peer_id r \<in> peer_set s then [r] else [] | _ \<Rightarrow> [])"

lemma known_state: "state_inv s \<Longrightarrow> get_internal_peer_state p s \<noteq> None \<longleftrightarrow> p \<in> peer_set s"
  using bt_get_None_iff [of "ts_peers s" p] by (auto simp: state_inv_def get_internal_peer_state_def peer_set_def)

lemma wakeup_action_asked:
  assumes "state_inv s"
  shows "\<exists>ys. wakeup_action msg txs (s, chs) = (s\<lparr>ts_outstanding := ts_outstanding s @ asked s msg\<rparr>, send_all ys chs)"
proof (cases msg)
  case (PeerRequestedPiece r)
  then show ?thesis
    using known_state [OF assms, of "req_peer_id r"] by (auto simp: wakeup_action_def queue_requests_def asked_def intro: exI [of _ "[]"])
next
  case (PieceComplete k)
  then show ?thesis by (auto simp: wakeup_action_def asked_def announce_piece_eq)
qed (auto simp: wakeup_action_def asked_def intro: exI [of _ "[]"])

lemma process_wakeup_serves:
  assumes inv: "processor_inv torrent max_out pr"
  obtains ys t io' chs' where
    "serve_requests ops (prune_closed_tx (pr_channels pr) (pr_peer_to_tx pr)) (take 4 (ts_outstanding (pr_state pr) @ asked (pr_state pr) msg))
       (pr_io pr) (send_all ys (pr_channels pr)) = (io', chs')"
    "process_wakeup ops iter now msg pr = pr\<lparr>pr_peer_to_tx := prune_closed_tx (pr_channels pr) (pr_peer_to_tx pr),
       pr_state := (pr_state pr)\<lparr>ts_tracking := t, ts_outstanding := drop 5 (ts_outstanding (pr_state pr) @ asked (pr_state pr) msg)\<rparr>,
       pr_channels := chs', pr_io := io'\<rparr>"
proof -
  let ?txs = "prune_closed_tx (pr_channels pr) (pr_peer_to_tx pr)" and ?s = "pr_state pr"
  let ?q = "ts_outstanding ?s @ asked ?s msg"
  have good: "state_inv ?s" "torrent_ok (pr_torrent pr)" "tracker_inv (length (ti_pieces (t_info (pr_torrent pr)))) (ts_tracking ?s)"
    using inv by (auto simp: processor_inv_def tracker_good_def)
  obtain ys where act: "wakeup_action msg ?txs (?s, pr_channels pr) = (?s\<lparr>ts_outstanding := ?q\<rparr>, send_all ys (pr_channels pr))"
    using wakeup_action_asked [OF good(1)] by blast
  obtain reqs t1 where gen: "generate_assignments iter now (pr_torrent pr) (piece_id_to_peers ?s) (ts_tracking ?s) = Some (reqs, t1)"
    using generate_assignments_spec [OF good(2,3)] by blast
  obtain t zs where comp: "compute_requests_for_download iter now (pr_torrent pr) ?txs (?s\<lparr>ts_outstanding := ?q\<rparr>) (send_all ys (pr_channels pr)) =
      Some (?s\<lparr>ts_outstanding := ?q, ts_tracking := t\<rparr>, send_all (ys @ zs) (pr_channels pr))"
    by (rule that) (simp add: compute_requests_for_download_def gen dispatch_requests_eq)
  obtain io' chs' where serve: "serve_requests ops ?txs (take 4 ?q) (pr_io pr) (send_all (ys @ zs) (pr_channels pr)) = (io', chs')"
    by fastforce
  show ?thesis
    by (rule that [OF serve, of t])
      (simp add: process_wakeup_def Let_def act comp dequeue_requests_def pop_requests_eq serve
        del: send_all_append take_append drop_append)
qed

section \<open>Answering requests\<close>

text \<open>
  With a store that keeps the contract, the loop over the popped requests answers, in order,
  those whose peer has a sender, each with the bytes the store holds there, up to the first
  one the store refuses.
\<close>

definition stored_block :: "('io \<Rightarrow> nat \<Rightarrow> bytes option) \<Rightarrow> 'io option \<Rightarrow> peer_requested_piece \<Rightarrow> bytes" where
  "stored_block piece task r =
     (case task of None \<Rightarrow> []
      | Some io \<Rightarrow> take (unat (req_length r)) (drop (unat (req_begin r)) (the (piece io (unat (req_index r))))))"

definition block_send ::
  "('io \<Rightarrow> nat \<Rightarrow> bytes option) \<Rightarrow> 'io option \<Rightarrow> peer_to_sender \<Rightarrow> peer_requested_piece \<Rightarrow> nat \<times> messages" where
  "block_send piece task peer_to_tx r =
     (the (bt_get peer_to_tx (req_peer_id r)), Piece (req_index r) (req_begin r) (stored_block piece task r))"

definition has_sender :: "peer_to_sender \<Rightarrow> peer_requested_piece \<Rightarrow> bool" where
  "has_sender peer_to_tx r \<longleftrightarrow> bt_get peer_to_tx (req_peer_id r) \<noteq> None"

context torrent_io
begin

lemma handler_read:
  assumes "task_inv task" "io_handler_read ops task i b n = (r, task')"
  shows "task_inv task' \<and>
    (\<forall>bs. r = Ok bs \<longrightarrow> (\<exists>io io' c. task = Some io \<and> task' = Some io' \<and> piece io' = piece io \<and>
      piece io (unat i) = Some c \<and> unat b + unat n \<le> length c \<and> bs = take (unat n) (drop (unat b) c)))"
proof -
  obtain reply task1 where h: "io_handler_task ops task (ReadMessage i b n) = (reply, task1)" by fastforce
  then have "task' = task1" using assms(2) by (auto simp: io_handler_read_def split: io_reply.splits)
  then have "task_inv task'" using task_inv_step [OF assms(1) h] by simp
  moreover have "\<exists>io io' c. task = Some io \<and> task' = Some io' \<and> piece io' = piece io \<and>
      piece io (unat i) = Some c \<and> unat b + unat n \<le> length c \<and> bs = take (unat n) (drop (unat b) c)"
    if ok: "r = Ok bs" for bs
  proof -
    obtain io io' where io: "task = Some io" "read_piece ops io i b n = (Ok bs, io')" "task' = Some io'"
      using assms(2) ok by (auto simp: io_handler_read_def io_handler_task_def handler_exits_def
          split: option.splits prod.splits if_splits)
    have "inv io" using assms(1) io(1) by (simp add: task_inv_def)
    then show ?thesis using io read_Ok [OF _ io(2)] read_keeps [OF _ io(2)] by blast
  qed
  ultimately show ?thesis by blast
qed

lemma serve_requests_eq:
  assumes "task_inv task" "serve_requests ops peer_to_tx deque task chs = (task', chs')"
  shows "\<exists>k \<le> length deque.
    chs' = send_all (map (block_send piece task peer_to_tx) (filter (has_sender peer_to_tx) (take k deque))) chs \<and>
    (k < length deque \<longrightarrow> has_sender peer_to_tx (deque ! k) \<and>
       (\<exists>t. task_inv t \<and> map_option piece t = map_option piece task \<and> \<not> is_ok (fst (io_handler_read ops t (req_index (deque ! k)) (req_begin (deque ! k)) (req_length (deque ! k))))))"
  using assms
proof (induction deque arbitrary: task chs)
  case Nil
  then show ?case by (intro exI [of _ 0]) simp
next
  case (Cons dq deque)
  show ?case
  proof (cases "bt_get peer_to_tx (req_peer_id dq)")
    case None
    then have "serve_requests ops peer_to_tx deque task chs = (task', chs')" using Cons.prems(2) by simp
    from Cons.IH [OF Cons.prems(1) this] obtain k where "k \<le> length deque"
      "chs' = send_all (map (block_send piece task peer_to_tx) (filter (has_sender peer_to_tx) (take k deque))) chs"
      "k < length deque \<longrightarrow> has_sender peer_to_tx (deque ! k) \<and>
       (\<exists>t. task_inv t \<and> map_option piece t = map_option piece task \<and> \<not> is_ok (fst (io_handler_read ops t (req_index (deque ! k)) (req_begin (deque ! k)) (req_length (deque ! k)))))"
      by blast
    moreover have "\<not> has_sender peer_to_tx dq" using None by (simp add: has_sender_def)
    ultimately show ?thesis by (intro exI [of _ "Suc k"]) simp
  next
    case (Some c)
    obtain r task1 where read: "io_handler_read ops task (req_index dq) (req_begin dq) (req_length dq) = (r, task1)"
      by fastforce
    note spec = handler_read [OF Cons.prems(1) read]
    show ?thesis
    proof (cases r)
      case (Ok bs)
      then obtain io io' where io: "task = Some io" "task1 = Some io'" "piece io' = piece io"
        and bs: "bs = stored_block piece task dq"
        using spec by (auto simp: stored_block_def)
      have same: "block_send piece task1 peer_to_tx = block_send piece task peer_to_tx"
        by (intro ext) (simp add: block_send_def stored_block_def io)
      have content: "map_option piece task1 = map_option piece task" by (simp add: io)
      let ?chs = "snd (send c (Piece (req_index dq) (req_begin dq) bs) chs)"
      have "serve_requests ops peer_to_tx deque task1 ?chs = (task', chs')"
        using Cons.prems(2) Some read Ok by simp
      from Cons.IH [OF conjunct1 [OF spec] this] obtain k where "k \<le> length deque"
        "chs' = send_all (map (block_send piece task peer_to_tx) (filter (has_sender peer_to_tx) (take k deque))) ?chs"
        "k < length deque \<longrightarrow> has_sender peer_to_tx (deque ! k) \<and>
         (\<exists>t. task_inv t \<and> map_option piece t = map_option piece task \<and> \<not> is_ok (fst (io_handler_read ops t (req_index (deque ! k)) (req_begin (deque ! k)) (req_length (deque ! k)))))"
        unfolding same content by blast
      moreover have "has_sender peer_to_tx dq"
        "block_send piece task peer_to_tx dq = (c, Piece (req_index dq) (req_begin dq) bs)"
        using Some bs by (simp_all add: has_sender_def block_send_def)
      ultimately show ?thesis by (intro exI [of _ "Suc k"]) simp
    next
      case (Err e)
      then show ?thesis
        using Cons.prems Some read by (intro exI [of _ 0]) (auto simp: has_sender_def)
    next
      case Panic
      then show ?thesis
        using Cons.prems Some read by (intro exI [of _ 0]) (auto simp: has_sender_def)
    qed
  qed
qed

lemma dequeue_requests_eq:
  assumes "task_inv task" "dequeue_requests ops peer_to_tx s task chs = (s', task', chs')"
  shows "s' = s\<lparr>ts_outstanding := drop 5 (ts_outstanding s)\<rparr> \<and>
    (\<exists>k \<le> length (take 4 (ts_outstanding s)).
      chs' = send_all (map (block_send piece task peer_to_tx) (filter (has_sender peer_to_tx) (take k (take 4 (ts_outstanding s))))) chs \<and>
      (k < length (take 4 (ts_outstanding s)) \<longrightarrow>
        (\<exists>t. task_inv t \<and> map_option piece t = map_option piece task \<and> \<not> is_ok (fst (io_handler_read ops t (req_index (ts_outstanding s ! k))
          (req_begin (ts_outstanding s ! k)) (req_length (ts_outstanding s ! k)))))))"
proof -
  have pop: "pop_requests 4 0 (ts_outstanding s) = (take 4 (ts_outstanding s), drop 5 (ts_outstanding s))"
    by (simp add: pop_requests_eq)
  have serve: "serve_requests ops peer_to_tx (take 4 (ts_outstanding s)) task chs = (task', chs')"
    and s': "s' = s\<lparr>ts_outstanding := drop 5 (ts_outstanding s)\<rparr>"
    using assms(2) by (simp_all add: dequeue_requests_def pop)
  show ?thesis
    using serve_requests_eq [OF assms(1) serve] s' by auto
qed

end

section \<open>Who is served\<close>

lemma taken_request_answered:
  assumes r_def: "r = \<lparr>req_peer_id = p, req_index = index, req_begin = off, req_length = len\<rparr>"
    and "torrent_io ops piece ok" and inv: "processor_inv torrent max_out pr" and "p \<in> peer_set (pr_state pr)"
    and tx: "bt_get (pr_peer_to_tx pr) p = Some c" "deliverable (pr_channels pr) c"
    and "ts_outstanding (pr_state pr) = []" and io: "pr_io pr = Some io" "ok io"
    and "is_ok (fst (io_handler_read ops (Some io) index off len))"
    and pr': "pr' = process_wakeup ops iter now (PeerRequestedPiece r) pr"
  shows "pr_handlers pr' = pr_handlers pr \<and> (\<exists>content. piece io (unat index) = Some content \<and> unat off + unat len \<le> length content \<and>
    last (ch_messages (pr_channels pr' ! c)) = Piece index off (take (unat len) (drop (unat off) content)))"
proof -
  let ?txs = "prune_closed_tx (pr_channels pr) (pr_peer_to_tx pr)"
  have asked: "ts_outstanding (pr_state pr) @ asked (pr_state pr) (PeerRequestedPiece r) = [r]"
    using assms(4,7) by (simp add: asked_def r_def)
  obtain ys t io' chs' where serve: "serve_requests ops ?txs (take 4 [r]) (Some io) (send_all ys (pr_channels pr)) = (io', chs')"
    and "pr' = pr\<lparr>pr_peer_to_tx := ?txs,
     pr_state := (pr_state pr)\<lparr>ts_tracking := t, ts_outstanding := drop 5 [r]\<rparr>, pr_channels := chs', pr_io := io'\<rparr>"
    by (rule process_wakeup_serves [OF inv, of ops "PeerRequestedPiece r" iter now, unfolded asked io, folded pr'])
  then have out: "pr_channels pr' = chs'" "pr_handlers pr' = pr_handlers pr" by simp_all
  have tx': "bt_get ?txs p = Some c"
    using prune_closed_get(2) [of "pr_peer_to_tx pr" "pr_channels pr" p c] tx inv by (simp add: processor_inv_def)
  obtain bs io1 where read: "io_handler_read ops (Some io) index off len = (Ok bs, io1)"
    using assms(10) by (cases "io_handler_read ops (Some io) index off len"; cases "fst (io_handler_read ops (Some io) index off len)") auto
  have "torrent_io.task_inv ok (Some io)" using io by (simp add: torrent_io.task_inv_def [OF assms(2)])
  from torrent_io.handler_read [OF assms(2) this read] obtain content where content: "piece io (unat index) = Some content"
    "unat off + unat len \<le> length content" "bs = take (unat len) (drop (unat off) content)" by auto
  have "chs' = send_all (ys @ [(c, Piece index off bs)]) (pr_channels pr)"
    using serve by (simp add: tx' read r_def)
  then have "ch_messages (chs' ! c) = ch_messages (pr_channels pr ! c) @ map snd (filter (\<lambda>x. fst x = c) ys) @ [Piece index off bs]"
    using send_all_messages [of c "pr_channels pr" "ys @ [(c, Piece index off bs)]"] tx(2)
    by (simp add: deliverable_def del: send_all_append)
  then show ?thesis using content out by simp
qed

text \<open>
  C38. Choking is announced and never applied. Every peer with a handler was told \<open>Choke\<close> and is never told
  \<open>Unchoke\<close>, no timer tick changes that; and still its requests are served: when a peer that the state knows asks
  for a range the store can read, and no other request or wake-up is waiting, the block goes out on its channel, with
  the bytes the store holds there, as soon as the loop takes the wake-up. The request of a peer the state does not know
  is dropped.
\<close>

theorem requests_served_while_choked:
  assumes "bytes_laws A" and "hash_iteration iter" and "torrent_io ops piece ok"
    and "reachable (processor_init torrent max_out) (processor_step ops A iter) pr"
    and "i < length (pr_handlers pr)" and "h_peer (pr_handlers pr ! i) = p" and "h_conn (pr_handlers pr ! i) = c"
    and "bt_get (pr_peer_to_tx pr) p = Some c" and "deliverable (pr_channels pr) c"
    and "pr_wakeups pr = []" and "ts_outstanding (pr_state pr) = []"
    and "pr_io pr = Some io" and "ok io" and "is_ok (fst (io_handler_read ops (Some io) index off len))"
    and "processor_step ops A iter pr (PeerSends i (Request index off len)) pr1"
  shows "Flag Choke \<in> set (ch_messages (pr_channels pr ! c)) \<and> Flag Unchoke \<notin> set (ch_messages (pr_channels pr ! c)) \<and>
    compute_unchoke iter (pr_peer_to_tx pr) (pr_state pr) (pr_channels pr) = (pr_state pr, pr_channels pr) \<and>
    (if p \<in> peer_set (pr_state pr)
     then (\<forall>now. \<exists>pr2 pr3. processor_step ops A iter pr1 (WakeSent i) pr2 \<and> processor_step ops A iter pr2 (WakeReceived now) pr3) \<and>
      (\<forall>pr2 now pr3. processor_step ops A iter pr1 (WakeSent i) pr2 \<longrightarrow> processor_step ops A iter pr2 (WakeReceived now) pr3 \<longrightarrow>
       (\<exists>content. piece io (unat index) = Some content \<and> unat off + unat len \<le> length content \<and>
          last (ch_messages (pr_channels pr3 ! c)) = Piece index off (take (unat len) (drop (unat off) content))) \<and>
       Flag Unchoke \<notin> set (ch_messages (pr_channels pr3 ! c)))
     else h_status (pr_handlers pr1 ! i) = Idle \<and> pr_wakeups pr1 = [])"
proof -
  let ?h = "pr_handlers pr ! i" and ?r = "\<lparr>req_peer_id = p, req_index = index, req_begin = off, req_length = len\<rparr>"
  note machine = processor_machine [OF assms(1,2)]
  have inv: "processor_inv torrent max_out pr" by (rule invariant_system.reachable_inv [OF machine assms(4)])
  have pr1: "pr1 = deliver ops i (Request index off len) pr" using assms(15) by (auto elim: step_sendsE)
  have told: "Flag Choke \<in> set (ch_messages (pr_channels q ! c)) \<and> Flag Unchoke \<notin> set (ch_messages (pr_channels q ! c))"
    if "processor_inv torrent max_out q" "pr_handlers q ! i = x" "i < length (pr_handlers q)" "h_conn x = c" for q x
  proof -
    have "greeted (pr_channels q) c" using that nth_mem by (fastforce simp: processor_inv_def)
    then show ?thesis by (fastforce simp: greeted_def list_all_iff)
  qed
  have si: "state_inv (pr_state pr)" using inv by (simp add: processor_inv_def)
  have choked: "(case get_internal_peer_state p (pr_state pr) of Some st \<Rightarrow> ips_choked st | None \<Rightarrow> True) = (p \<notin> peer_set (pr_state pr))"
    using known_state [OF si, of p] si by (auto simp: state_inv_def get_internal_peer_state_def split: option.split)
  have d: "pr1 = set_status i (if p \<in> peer_set (pr_state pr) then Waking (PeerRequestedPiece ?r) else Idle) pr"
    using choked assms(6) by (simp add: pr1 deliver_def Let_def)
  have loop: "pr_loop pr = Looping" using assms(15) by (auto elim: step_sendsE)
  have goes: "\<exists>pr2 pr3. processor_step ops A iter pr1 (WakeSent i) pr2 \<and> processor_step ops A iter pr2 (WakeReceived now) pr3"
    if "p \<in> peer_set (pr_state pr)" for now
  proof -
    have "processor_step ops A iter pr1 (WakeSent i) (set_status i Idle (pr1\<lparr>pr_wakeups := pr_wakeups pr1 @ [PeerRequestedPiece ?r]\<rparr>))"
      by (rule processor_step.wake_sent) (use that in \<open>simp_all add: d set_status_def assms(5,10) loop wakeup_capacity_def\<close>)
    moreover have "pr_wakeups (set_status i Idle (pr1\<lparr>pr_wakeups := pr_wakeups pr1 @ [PeerRequestedPiece ?r]\<rparr>)) = [PeerRequestedPiece ?r]"
      "pr_loop (set_status i Idle (pr1\<lparr>pr_wakeups := pr_wakeups pr1 @ [PeerRequestedPiece ?r]\<rparr>)) = Looping"
      by (simp_all add: d set_status_def assms(10) loop)
    ultimately show ?thesis using processor_step.wake_received by blast
  qed
  have serve: "(\<exists>content. piece io (unat index) = Some content \<and> unat off + unat len \<le> length content \<and>
      last (ch_messages (pr_channels pr3 ! c)) = Piece index off (take (unat len) (drop (unat off) content))) \<and>
      Flag Unchoke \<notin> set (ch_messages (pr_channels pr3 ! c))"
    if known: "p \<in> peer_set (pr_state pr)" and s2: "processor_step ops A iter pr1 (WakeSent i) pr2"
      and s3: "processor_step ops A iter pr2 (WakeReceived now) pr3" for pr2 now pr3
  proof -
    have reach3: "reachable (processor_init torrent max_out) (processor_step ops A iter) pr3"
      using assms(4,15) s2 s3 by (meson reachable.next_state)
    define pr0 where "pr0 = set_status i Idle pr"
    have h1: "h_status (pr_handlers pr1 ! i) = Waking (PeerRequestedPiece ?r)" using known assms(5) by (simp add: d set_status_def)
    have "pr2 = set_status i Idle (pr1\<lparr>pr_wakeups := pr_wakeups pr1 @ [PeerRequestedPiece ?r]\<rparr>)"
      using s2 h1 by cases auto
    then have pr2: "pr2 = pr0\<lparr>pr_wakeups := [PeerRequestedPiece ?r]\<rparr>"
      using assms(5,10) known by (simp add: d pr0_def set_status_def)
    have "pr_wakeups pr0 = []" using assms(10) by (simp add: pr0_def set_status_def)
    then have none: "pr0\<lparr>pr_wakeups := []\<rparr> = pr0" by (cases pr0) simp
    from s3 have pr3: "pr3 = process_wakeup ops iter now (PeerRequestedPiece ?r) pr0"
      by (rule step_wakeE) (simp add: pr2 none)
    have same: "pr_state pr0 = pr_state pr" "pr_channels pr0 = pr_channels pr" "pr_io pr0 = Some io" "pr_peer_to_tx pr0 = pr_peer_to_tx pr"
      "pr_loop pr0 = pr_loop pr" "pr_torrent pr0 = pr_torrent pr"
      by (simp_all add: pr0_def set_status_def assms(12))
    have "\<forall>h \<in> set (pr_handlers pr0). greeted (pr_channels pr) (h_conn h)"
    proof
      fix h assume "h \<in> set (pr_handlers pr0)"
      then have "h \<in> insert (?h\<lparr>h_status := Idle\<rparr>) (set (pr_handlers pr))"
        using set_update_subset_insert by (fastforce simp: pr0_def set_status_def)
      then show "greeted (pr_channels pr) (h_conn h)" using inv assms(5) nth_mem by (auto simp: processor_inv_def)
    qed
    then have inv0: "processor_inv torrent max_out pr0" using inv by (simp add: processor_inv_def same)
    have "pr_handlers pr3 = pr_handlers pr0 \<and> (\<exists>content. piece io (unat index) = Some content \<and> unat off + unat len \<le> length content \<and>
        last (ch_messages (pr_channels pr3 ! c)) = Piece index off (take (unat len) (drop (unat off) content)))"
      by (rule taken_request_answered [OF refl assms(3) inv0 _ _ _ _ _ assms(13,14) pr3]) (simp_all add: same known assms(8,9,11))
    moreover have "Flag Unchoke \<notin> set (ch_messages (pr_channels pr3 ! c))"
      using told [OF invariant_system.reachable_inv [OF machine reach3], of "pr_handlers pr0 ! i"] assms(5,7) calculation
      by (simp add: pr0_def set_status_def)
    ultimately show ?thesis by blast
  qed
  show ?thesis
    using told [OF inv refl assms(5,7)] hash_iteration.compute_unchoke_eq [OF assms(2)] serve goes
    by (auto simp: d set_status_def assms(5,10))
qed

lemma accept_peer_state [simp]:
  "pr_state (accept_peer A p is_open pr) = pr_state pr" "pr_io (accept_peer A p is_open pr) = pr_io pr"
  by (simp_all add: accept_peer_def Let_def split: option.split prod.split bool.split)

lemma demo1_io: "pr_io demo1 = Some [memory_from (replicate 40000 0)]"
  by (simp add: demo1_def demo0_def processor_new_def)

text \<open>The demo's peer, after the loop has taken its first wake-up.\<close>

definition demo_quiet :: "memory_torrent_io processor" where
  "demo_quiet = process_wakeup memory_ops sorted_iter (\<lambda>_. 5) Wakeup (demo_offer\<lparr>pr_wakeups := []\<rparr>)"

lemma demo_quiet_facts:
  "demo_reachable demo_quiet" "pr_handlers demo_quiet = [\<lparr>h_peer = [1], h_conn = 0, h_status = Idle\<rparr>]" "pr_wakeups demo_quiet = []"
  "ts_outstanding (pr_state demo_quiet) = []" "peer_set (pr_state demo_quiet) = {[1]}" "bt_get (pr_peer_to_tx demo_quiet) [1] = Some 0"
  "deliverable (pr_channels demo_quiet) 0" "pr_io demo_quiet = Some [memory_from (replicate 40000 0)]" "pr_loop demo_quiet = Looping"
proof -
  let ?pr = "demo_offer\<lparr>pr_wakeups := []\<rparr>"
  have offer: "demo_reachable demo_offer" "pr_loop demo_offer = Looping" "pr_wakeups demo_offer = [Wakeup]"
    "pr_handlers demo_offer = [\<lparr>h_peer = [1], h_conn = 0, h_status = Idle\<rparr>]"
    using demo_offer_facts by (simp_all add: demo_ready_def)
  have eq: "pr_state demo_offer = pr_state demo_have" "pr_channels demo_offer = pr_channels demo_have"
    "pr_peer_to_tx demo_offer = pr_peer_to_tx demo_have" "pr_io demo_offer = pr_io demo_have"
    by (simp_all add: demo_offer_def set_status_def)
  have "demo_step demo_offer (WakeReceived (\<lambda>_. 5)) demo_quiet"
    unfolding demo_quiet_def using processor_step.wake_received [OF offer(2,3)] by simp
  then show "demo_reachable demo_quiet" by (rule reachable.next_state [OF offer(1)])
  obtain change s' where add: "add_pieces_for_peer [1] [0] (pr_state demo1) = (change, s')" by fastforce
  have kept: "ts_outstanding (pr_state demo_have) = []" "pr_io demo_have = Some [memory_from (replicate 40000 0)]"
  proof -
    have "ts_outstanding s' = []" using add_pieces_spec(2,5) [OF add] by (simp add: demo1_state torrent_state_new_def)
    then show "ts_outstanding (pr_state demo_have) = []" "pr_io demo_have = Some [memory_from (replicate 40000 0)]"
      by (simp_all add: demo_have_def deliver_def Let_def demo1_facts add set_status_def demo1_io split: prod.split)
  qed
  have inv: "processor_inv block_torrent 128 ?pr"
    using processor.reachable_inv [OF offer(1)] by (simp add: processor_inv_def)
  have none: "ts_outstanding (pr_state ?pr) @ asked (pr_state ?pr) Wakeup = []" by (simp add: eq kept asked_def)
  obtain ys t where q: "demo_quiet = ?pr\<lparr>pr_peer_to_tx := prune_closed_tx (pr_channels demo_have) [([1], 0)],
      pr_state := (pr_state demo_have)\<lparr>ts_tracking := t, ts_outstanding := []\<rparr>,
      pr_channels := send_all ys (pr_channels demo_have), pr_io := pr_io demo_have\<rparr>"
    using process_wakeup_serves [OF inv, of memory_ops Wakeup sorted_iter "\<lambda>_. 5"]
    unfolding none demo_quiet_def [symmetric] by (simp add: eq demo_have_facts) metis
  have "bt_wf [([1 :: u8], 0 :: nat)]" by simp
  then have "bt_get (prune_closed_tx (pr_channels demo_have) [([1], 0)]) [1] = Some 0"
    using prune_closed_get(2) [of "[([1], 0)]"] demo_have_facts(5) by simp
  then show "pr_handlers demo_quiet = [\<lparr>h_peer = [1], h_conn = 0, h_status = Idle\<rparr>]" "pr_wakeups demo_quiet = []"
    "ts_outstanding (pr_state demo_quiet) = []" "peer_set (pr_state demo_quiet) = {[1]}"
    "bt_get (pr_peer_to_tx demo_quiet) [1] = Some 0" "deliverable (pr_channels demo_quiet) 0"
    "pr_io demo_quiet = Some [memory_from (replicate 40000 0)]" "pr_loop demo_quiet = Looping"
    by (simp_all add: q offer kept demo_have_facts)
qed

lemma requests_served_while_choked_witness:
  "\<exists>pr1 pr2 pr3. demo_step demo_quiet (PeerSends 0 (Request 0 0 2)) pr1 \<and> demo_step pr1 (WakeSent 0) pr2 \<and>
     demo_step pr2 (WakeReceived (\<lambda>_. 5)) pr3 \<and> Flag Choke \<in> set (ch_messages (pr_channels demo_quiet ! 0)) \<and>
     last (ch_messages (pr_channels pr3 ! 0)) = Piece 0 0 [0, 0]"
proof -
  let ?pr1 = "deliver memory_ops 0 (Request 0 0 2) demo_quiet"
  let ?pr2 = "set_status 0 Idle (?pr1\<lparr>pr_wakeups := pr_wakeups ?pr1 @
    [PeerRequestedPiece \<lparr>req_peer_id = [1], req_index = 0, req_begin = 0, req_length = 2\<rparr>]\<rparr>)"
  let ?pr3 = "process_wakeup memory_ops sorted_iter (\<lambda>_. 5) (PeerRequestedPiece \<lparr>req_peer_id = [1], req_index = 0, req_begin = 0, req_length = 2\<rparr>)
    (?pr2\<lparr>pr_wakeups := []\<rparr>)"
  note q = demo_quiet_facts
  have s1: "demo_step demo_quiet (PeerSends 0 (Request 0 0 2)) ?pr1"
    by (rule processor_step.peer_sends) (simp_all add: q)
  have "state_inv (pr_state demo_quiet)" using processor.reachable_inv [OF q(1)] by (simp add: processor_inv_def)
  then have choked: "(case get_internal_peer_state [1] (pr_state demo_quiet) of Some st \<Rightarrow> ips_choked st | None \<Rightarrow> True) = False"
    using known_state [of "pr_state demo_quiet" "[1]"] q(5)
    by (auto simp: state_inv_def get_internal_peer_state_def split: option.split)
  have pr1: "pr_loop ?pr1 = Looping" "pr_wakeups ?pr1 = []" "length (pr_handlers ?pr1) = 1"
    "h_status (pr_handlers ?pr1 ! 0) = Waking (PeerRequestedPiece \<lparr>req_peer_id = [1], req_index = 0, req_begin = 0, req_length = 2\<rparr>)"
    by (simp_all add: deliver_def Let_def q choked set_status_def)
  have s2: "demo_step ?pr1 (WakeSent 0) ?pr2"
    by (rule processor_step.wake_sent) (simp_all add: pr1 wakeup_capacity_def)
  have "pr_loop ?pr2 = Looping" "pr_wakeups ?pr2 =
      [PeerRequestedPiece \<lparr>req_peer_id = [1], req_index = 0, req_begin = 0, req_length = 2\<rparr>]"
    using pr1 by (simp_all add: set_status_def)
  then have s3: "demo_step ?pr2 (WakeReceived (\<lambda>_. 5)) ?pr3" by (rule processor_step.wake_received)
  have rd: "is_ok (fst (io_handler_read memory_ops (Some [memory_from (replicate 40000 0)]) 0 0 2))"
    by (simp add: io_handler_read_def io_handler_task_def memory_ops_def memory_read_piece_def u32_add_def memory_from_def)
  have inv: "memory_inv [memory_from (replicate 40000 0)]" by (simp add: memory_inv_def memory_from_def)
  have "memory_piece [memory_from (replicate 40000 0)] 0 = Some (replicate 40000 0)"
    by (simp add: memory_piece_def memory_from_def)
  moreover have "take 2 (replicate 40000 (0 :: u8)) = [0, 0]" by (simp add: numeral_2_eq_2)
  moreover have "(0 :: nat) < length (pr_handlers demo_quiet)" "h_peer (pr_handlers demo_quiet ! 0) = [1]"
    "h_conn (pr_handlers demo_quiet ! 0) = 0" by (simp_all add: q)
  note out = requests_served_while_choked [OF list_bytes.bytes_laws_axioms sorted_iter.hash_iteration_axioms memory_io.torrent_io_axioms q(1)
      this q(6,7,3,4,8) inv rd s1]
  ultimately have "last (ch_messages (pr_channels ?pr3 ! 0)) = Piece 0 0 [0, 0]" "Flag Choke \<in> set (ch_messages (pr_channels demo_quiet ! 0))"
    using s2 s3 q(5) by (simp_all add: memory_piece_def memory_from_def)
  then show ?thesis using s1 s2 s3 by blast
qed

text \<open>
  C18. One wake-up answers at most four queued requests: the first four, in order, as far as
  the store serves them, each with exactly the bytes stored there. The fifth is taken off the
  queue and never answered, nor is one behind a request the store refuses.
\<close>

theorem dequeue_answers_four:
  assumes "torrent_io ops piece ok" and "\<forall>io. task = Some io \<longrightarrow> ok io"
    and "dequeue_requests ops peer_to_tx s task chs = (s', task', chs')"
  shows "ts_outstanding s' = drop 5 (ts_outstanding s) \<and>
    (\<exists>k \<le> length (take 4 (ts_outstanding s)).
      chs' = send_all (map (block_send piece task peer_to_tx)
        (filter (has_sender peer_to_tx) (take k (take 4 (ts_outstanding s))))) chs \<and>
      (k < length (take 4 (ts_outstanding s)) \<longrightarrow>
        (\<exists>t. map_option piece t = map_option piece task \<and>
          \<not> is_ok (fst (io_handler_read ops t (req_index (ts_outstanding s ! k))
            (req_begin (ts_outstanding s ! k)) (req_length (ts_outstanding s ! k)))))))"
proof -
  have "torrent_io.task_inv ok task"
    using assms(2) by (simp add: torrent_io.task_inv_def [OF assms(1)] split: option.split)
  from torrent_io.dequeue_requests_eq [OF assms(1) this assms(3)] show ?thesis
    by (elim conjE exE, intro conjI) (simp, blast)
qed

text \<open>Five requests for bytes of a six-byte piece: four are answered, none is left.\<close>

definition five_requests :: "peer_requested_piece list" where
  "five_requests = map (\<lambda>b. \<lparr>req_peer_id = [1], req_index = 0, req_begin = b, req_length = 1\<rparr>) [0, 1, 2, 3, 4]"

definition one_channel :: "channel list" where
  "one_channel = [\<lparr>ch_messages = [], ch_open = True\<rparr>]"

lemma dequeue_answers_four_witness:
  "\<exists>s' task' chs'. dequeue_requests memory_ops [([1], 0)]
       ((torrent_state_new [] 1)\<lparr>ts_outstanding := five_requests\<rparr>) (Some [memory_from [10, 11, 12, 13, 14, 15]]) one_channel =
       (s', task', chs') \<and>
     ts_outstanding s' = [] \<and>
     (\<exists>k \<le> 4. ch_messages (chs' ! 0) =
        map (\<lambda>r. Piece 0 (req_begin r) [10 + ucast (req_begin r)]) (take k five_requests))"
proof -
  let ?s = "(torrent_state_new [] 1)\<lparr>ts_outstanding := five_requests\<rparr>" and ?t = "Some [memory_from [10, 11, 12, 13, 14, 15]]"
  obtain s' task' chs' where d: "dequeue_requests memory_ops [([1], 0)] ?s ?t one_channel = (s', task', chs')"
    by (cases "dequeue_requests memory_ops [([1], 0)] ?s ?t one_channel") auto
  have five: "length five_requests = 5" by (simp add: five_requests_def)
  have inv: "\<forall>io. ?t = Some io \<longrightarrow> memory_inv io"
    by (simp add: memory_inv_def memory_from_def slices_new_def slices_inv_def)
  have out: "ts_outstanding ?s = five_requests" by simp
  obtain k where k: "ts_outstanding s' = drop 5 five_requests" "k \<le> length (take 4 five_requests)"
    "chs' = send_all (map (block_send memory_piece ?t [([1], 0)])
      (filter (has_sender [([1], 0)]) (take k (take 4 five_requests)))) one_channel"
    using dequeue_answers_four [OF memory_io.torrent_io_axioms inv d] unfolding out by blast
  have r: "has_sender [([1], 0)] r \<and> block_send memory_piece ?t [([1], 0)] r = (0, Piece 0 (req_begin r) [10 + ucast (req_begin r)])"
    if "r \<in> set (take 4 five_requests)" for r
    using that by (auto simp: five_requests_def has_sender_def block_send_def stored_block_def memory_piece_def memory_from_def)
  have sub: "set (take k (take 4 five_requests)) \<subseteq> set (take 4 five_requests)" by (rule set_take_subset)
  then have "filter (has_sender [([1], 0)]) (take k (take 4 five_requests)) = take k (take 4 five_requests)"
    using r by (auto simp: filter_id_conv)
  moreover have "map (block_send memory_piece ?t [([1], 0)]) (take k (take 4 five_requests)) =
      map (\<lambda>r. (0, Piece 0 (req_begin r) [10 + ucast (req_begin r)])) (take k (take 4 five_requests))"
    using r sub by (intro map_cong refl) auto
  ultimately have chs': "chs' = send_all (map (\<lambda>r. (0, Piece 0 (req_begin r) [10 + ucast (req_begin r)])) (take k (take 4 five_requests))) one_channel"
    by (simp only: k(3))
  have "ch_messages (chs' ! 0) = map (\<lambda>r. Piece 0 (req_begin r) [10 + ucast (req_begin r)]) (take k (take 4 five_requests))"
    unfolding chs' by (subst send_all_messages) (simp_all add: one_channel_def deliverable_def filter_map comp_def)
  moreover have "take k (take 4 five_requests) = take k five_requests" using k(2) five by (simp add: min_def)
  ultimately show ?thesis using d k(1,2) five by (auto simp del: take_take)
qed

section \<open>A handler returns\<close>

text \<open>
  When a handler returns, its peer is forgotten: it is no longer known, offers no piece,
  has no sender, and is not among those that do not choke us; other peers keep their senders.
  Its requests stay in flight until they expire. This also holds when the peer has a second
  handler: that one goes on without a sender.
\<close>

theorem closed_peer_forgotten:
  assumes "bytes_laws A" and "hash_iteration iter"
    and "reachable (processor_init torrent max_out) (processor_step ops A iter) pr"
    and "processor_step ops A iter pr (HandlerDone i) pr'"
  shows "(let p = h_peer (pr_handlers pr ! i) in
      p \<notin> peer_set (pr_state pr') \<and> p \<notin> ts_peers_not_choking (pr_state pr') \<and>
      (\<forall>x. p \<notin> get_peers_with_piece (ts_block_peer_map (pr_state pr')) x) \<and>
      (\<forall>q. bt_get (pr_peer_to_tx pr') q = (if q = p then None else bt_get (pr_peer_to_tx pr) q))) \<and>
    ts_tracking (pr_state pr') = ts_tracking (pr_state pr) \<and>
    pr_handlers pr' = remove_at i (pr_handlers pr)"
proof -
  have inv: "processor_inv torrent max_out pr"
    by (rule invariant_system.reachable_inv [OF processor_machine [OF assms(1,2)] assms(3)])
  then have "state_inv (pr_state pr)" "bt_wf (pr_peer_to_tx pr)" by (simp_all add: processor_inv_def)
  moreover have "pr' = reap_handler i pr"
    using assms(4) by (auto elim: step_doneE)
  ultimately show ?thesis
    by (simp add: reap_handler_def Let_def state_remove_facts)
qed

lemma closed_peer_forgotten_witness:
  "\<exists>pr'. demo_reachable pr' \<and> pr_peer_to_tx demo1 = [([1], 0)] \<and> bt_get (pr_peer_to_tx pr') [1] = None \<and> pr_handlers pr' = []"
proof -
  let ?pr = "set_status 0 Returned demo1"
  have "demo_step demo1 (PeerHangsUp 0) ?pr"
    by (rule processor_step.peer_hangs_up) (simp_all add: demo1_facts)
  then have reach: "demo_reachable ?pr" by (rule reachable.next_state [OF demo1_facts(1)])
  have h: "pr_handlers ?pr = [\<lparr>h_peer = [1], h_conn = 0, h_status = Returned\<rparr>]"
    by (simp add: set_status_def demo1_facts)
  have step: "demo_step ?pr (HandlerDone 0) (reap_handler 0 ?pr)"
    by (rule processor_step.handler_done) (simp_all add: set_status_def demo1_facts)
  have "bt_get (pr_peer_to_tx (reap_handler 0 ?pr)) [1] = None" "pr_handlers (reap_handler 0 ?pr) = []"
    using closed_peer_forgotten [OF list_bytes.bytes_laws_axioms sorted_iter.hash_iteration_axioms reach step]
    by (simp_all add: h Let_def remove_at_def)
  then show ?thesis using reachable.next_state [OF reach step] demo1_facts(5) by blast
qed

section \<open>Completed pieces\<close>

text \<open>
  A piece becomes completed in exactly one way: a handler gets the answer to its write,
  and the store said the piece is finished.
\<close>

fun completes :: "'io processor \<Rightarrow> event \<Rightarrow> u32 set" where
  "completes pr (WriteAnswered i) =
     (case h_status (pr_handlers pr ! i) of
        Writing index _ res \<Rightarrow> if res = Ok True then {index} else {}
      | _ \<Rightarrow> {})"
| "completes pr _ = {}"

lemma completed_step:
  assumes A: "bytes_laws A" and iter: "hash_iteration iter" and inv: "processor_inv torrent max_out pr"
    and step: "processor_step ops A iter pr ev pr'"
  shows "pieces_completed (ts_tracking (pr_state pr')) =
    completes pr ev \<union> pieces_completed (ts_tracking (pr_state pr))"
  using step
proof cases
  case (peer_starts p is_open)
  then show ?thesis using accept_peer_state by simp
next
  case (peer_sends i msg)
  let ?h = "pr_handlers pr ! i"
  obtain status s chs io where h: "handle_msg ops (h_peer ?h) (h_conn ?h) msg (pr_state pr, pr_channels pr, pr_io pr) =
      (status, s, chs, io)" by (metis prod_cases4)
  then have "ts_tracking s = ts_tracking (pr_state pr)" using handle_msg_spec [OF h] by blast
  then show ?thesis using peer_sends h by (simp add: deliver_def Let_def set_status_def)
next
  case (write_answered i index off res)
  have "pieces_completed (snd (set_request_finished index off (ts_tracking (pr_state pr)))) =
      pieces_completed (ts_tracking (pr_state pr))"
    by (simp add: set_request_finished_def split: prod.split)
  then show ?thesis
    using write_answered by (cases res) (auto simp: write_answered_def finish_write_def set_status_def set_piece_finished_def)
next
  case (handler_done i)
  then show ?thesis
    using inv by (simp add: reap_handler_def Let_def state_remove_facts processor_inv_def)
next
  case (wake_received msg rest now)
  let ?pr = "pr\<lparr>pr_wakeups := rest\<rparr>"
  have inv': "processor_inv torrent max_out ?pr" using inv by (simp add: processor_inv_def)
  obtain reqs t1 ann served q io where post: "wake_post iter now msg ?pr pr' reqs t1 ann served q io"
    using process_wakeup_spec [OF inv'] wake_received by blast
  let ?t = "ts_tracking (pr_state pr)"
  have good: "torrent_ok (pr_torrent pr)" "tracker_inv (length (ti_pieces (t_info (pr_torrent pr)))) ?t"
    "pr_torrent pr = torrent" "pbt_max_outstanding_requests ?t = max_out"
    using inv by (auto simp: processor_inv_def tracker_good_def)
  have gen: "generate_assignments iter now (pr_torrent pr) (piece_id_to_peers (pr_state pr)) ?t = Some (reqs, t1)"
    and pr': "\<exists>rs. ts_tracking (pr_state pr') = drop_requests rs t1"
    using post by (auto simp: wake_post_def Let_def)
  have "pieces_completed t1 = pieces_completed ?t" "tracker_good torrent max_out t1"
    using generate_assignments_spec [OF good(1,2), of iter now "piece_id_to_peers (pr_state pr)"] gen good
    by (auto simp: tracker_good_def)
  then show ?thesis using pr' drop_requests_facts wake_received by fastforce
next
  case (timer_ticks now)
  obtain reqs t where r: "remove_expired now (ts_tracking (pr_state pr)) = (reqs, t)" by fastforce
  have "pieces_completed t = pieces_completed (ts_tracking (pr_state pr))"
    using remove_expired_spec [OF r] inv by (auto simp: processor_inv_def tracker_good_def tracker_inv_def)
  then show ?thesis using timer_ticks r by (simp add: timer_tick_eq [OF iter] Let_def)
qed (auto simp: set_status_def)

theorem completed_only_after_write:
  assumes "bytes_laws A" and "hash_iteration iter"
    and "reachable (processor_init torrent max_out) (processor_step ops A iter) pr"
    and "processor_step ops A iter pr ev pr'"
  shows "pieces_completed (ts_tracking (pr_state pr')) =
    completes pr ev \<union> pieces_completed (ts_tracking (pr_state pr))"
  by (rule completed_step [OF assms(1,2) invariant_system.reachable_inv [OF processor_machine [OF assms(1,2)] assms(3)] assms(4)])

text \<open>No two peers share a channel.\<close>

lemma wakeup_senders:
  assumes "processor_inv torrent max_out pr"
  shows "pr_peer_to_tx (process_wakeup ops iter now msg pr) = prune_closed_tx (pr_channels pr) (pr_peer_to_tx pr)"
proof -
  obtain reqs t1 ann served q io where "wake_post iter now msg pr (process_wakeup ops iter now msg pr) reqs t1 ann served q io"
    using process_wakeup_spec [OF assms] by blast
  then show ?thesis by (simp add: wake_post_def Let_def)
qed

lemma senders_distinct:
  assumes "bytes_laws A" and "hash_iteration iter"
    and "reachable (processor_init torrent max_out) (processor_step ops A iter) pr"
  shows "bt_get (pr_peer_to_tx pr) q = Some c \<Longrightarrow> bt_get (pr_peer_to_tx pr) p = Some c \<Longrightarrow> q = p"
  using assms(3)
proof (induction arbitrary: p q c rule: reachable.induct)
  case (start pr)
  then show ?case by (auto simp: processor_init_def processor_new_def bt_empty_def)
next
  case (next_state pr ev pr')
  have inv: "processor_inv torrent max_out pr"
    by (rule invariant_system.reachable_inv [OF processor_machine [OF assms(1,2)] next_state.hyps(1)])
  have wf: "bt_wf (pr_peer_to_tx pr)" and old: "\<And>p c. bt_get (pr_peer_to_tx pr) p = Some c \<Longrightarrow> c < length (pr_channels pr)"
    using inv by (auto simp: processor_inv_def greeted_def)
  from next_state.hyps(2) show ?case
  proof cases
    case (peer_starts peer is_open)
    then have "pr_peer_to_tx pr' = (if is_open then bt_insert peer (length (pr_channels pr)) (pr_peer_to_tx pr) else pr_peer_to_tx pr)"
      using accept_peer_eq [OF assms(1) inv, of peer is_open] by (auto simp: Let_def simp del: send_all_simps)
    then show ?thesis using next_state.prems next_state.IH by (auto split: if_splits dest: old)
  next
    case (wake_received msg rest now)
    have "processor_inv torrent max_out (pr\<lparr>pr_wakeups := rest\<rparr>)" using inv by (simp add: processor_inv_def)
    from wakeup_senders [OF this] wake_received
    have "pr_peer_to_tx pr' = prune_closed_tx (pr_channels pr) (pr_peer_to_tx pr)" by simp
    then show ?thesis using next_state.prems next_state.IH prune_closed_get(2) [OF wf] by auto
  next
    case (handler_done i)
    then show ?thesis using next_state.prems next_state.IH wf by (auto simp: reap_handler_def Let_def split: if_splits)
  next
    case (timer_ticks now)
    then have "pr_peer_to_tx pr' = pr_peer_to_tx pr" by (simp add: timer_tick_eq [OF assms(2)] Let_def split: prod.split)
    then show ?thesis using next_state.prems next_state.IH by simp
  next
    case (peer_sends i msg)
    then have "pr_peer_to_tx pr' = pr_peer_to_tx pr" by (simp add: deliver_def set_status_def Let_def split: prod.split)
    then show ?thesis using next_state.prems next_state.IH by simp
  next
    case (write_answered i index off res)
    then have "pr_peer_to_tx pr' = pr_peer_to_tx pr" by (simp add: write_answered_def set_status_def split: prod.split)
    then show ?thesis using next_state.prems next_state.IH by simp
  qed (use next_state.prems next_state.IH in \<open>auto simp: set_status_def\<close>)
qed

lemma filter_single:
  assumes "bt_wf m" "\<And>q. bt_get m q = Some c \<longleftrightarrow> q = p"
  shows "filter (\<lambda>x. snd x = c) m = [(p, c)]"
proof -
  let ?f = "filter (\<lambda>x. snd x = c) m"
  have "x \<in> set ?f \<longleftrightarrow> x = (p, c)" for x
    using assms(2) [of "fst x"] bt_get_eq_iff [OF assms(1), of "fst x" c] by (cases x) auto
  then have set: "set ?f = {(p, c)}" by blast
  moreover have "distinct ?f"
    using bt_wf_distinct [OF assms(1)] by (simp add: bt_keys_def distinct_map distinct_filter)
  ultimately have "length ?f = 1" using distinct_card [of ?f] by simp
  then obtain x where "?f = [x]" by (auto simp: length_Suc_conv)
  then show ?thesis using set by simp
qed

text \<open>
  A completed piece is announced: when the loop takes the \<open>PieceComplete\<close> message, every
  peer whose channel is still open is sent \<open>Have\<close> for it, before anything else of that wake-up.
\<close>

theorem completion_announced:
  assumes "bytes_laws A" and "hash_iteration iter"
    and "reachable (processor_init torrent max_out) (processor_step ops A iter) pr"
    and "processor_step ops A iter pr (WakeReceived now) pr'"
    and "hd (pr_wakeups pr) = PieceComplete index"
    and "bt_get (pr_peer_to_tx pr) p = Some c" and "deliverable (pr_channels pr) c"
  shows "\<exists>rest. ch_messages (pr_channels pr' ! c) = ch_messages (pr_channels pr ! c) @ [Have index] @ rest"
proof -
  have inv: "processor_inv torrent max_out pr"
    by (rule invariant_system.reachable_inv [OF processor_machine [OF assms(1,2)] assms(3)])
  obtain rest where w: "pr_wakeups pr = PieceComplete index # rest"
    "pr' = process_wakeup ops iter now (PieceComplete index) (pr\<lparr>pr_wakeups := rest\<rparr>)"
    using assms(4,5) by (auto elim!: step_wakeE)
  let ?pr = "pr\<lparr>pr_wakeups := rest\<rparr>" and ?chs = "pr_channels pr"
  let ?txs = "prune_closed_tx ?chs (pr_peer_to_tx pr)"
  have inv': "processor_inv torrent max_out ?pr" using inv by (simp add: processor_inv_def)
  obtain reqs t1 ann served q io where "wake_post iter now (PieceComplete index) ?pr pr' reqs t1 ann served q io"
    using process_wakeup_spec [OF inv'] w(2) by blast
  then have "pr_channels pr' = send_all (map (\<lambda>(_, c). (c, Have index)) ?txs @
      map (request_send ?txs) (filter (sendable ?txs ?chs) reqs) @ served) ?chs"
    by (simp add: wake_post_def Let_def)
  then obtain more where chs: "pr_channels pr' = send_all (map (\<lambda>(_, c). (c, Have index)) ?txs @ more) ?chs"
    by blast
  have wf: "bt_wf (pr_peer_to_tx pr)" using inv by (simp add: processor_inv_def)
  have only: "bt_get ?txs q = Some c \<longleftrightarrow> q = p" for q
    using prune_closed_get(2) [OF wf, of ?chs q c] assms(6,7) senders_distinct [OF assms(1-3), of q c p] by blast
  have "filter (\<lambda>x. fst x = c) (map (\<lambda>(_, c). (c, Have index)) ?txs) = map (\<lambda>(_, c). (c, Have index)) (filter (\<lambda>x. snd x = c) ?txs)"
    by (simp add: filter_map comp_def case_prod_beta)
  also have "filter (\<lambda>x. snd x = c) ?txs = [(p, c)]"
    by (rule filter_single [OF prune_closed_get(1) [OF wf]]) (use only in auto)
  finally have mine: "filter (\<lambda>x. fst x = c) (map (\<lambda>(_, c). (c, Have index)) ?txs) = [(c, Have index)]" by simp
  have "c < length ?chs" using assms(7) by (simp add: deliverable_def)
  from send_all_messages [OF this, of "map (\<lambda>(_, c). (c, Have index)) ?txs @ more"]
  have "ch_messages (pr_channels pr' ! c) = ch_messages (?chs ! c) @ [Have index] @ map snd (filter (\<lambda>x. fst x = c) more)"
    unfolding chs filter_append mine using assms(7) by simp
  then show ?thesis by blast
qed

text \<open>The example peer sends the whole piece at once, and the store finishes it.\<close>

lemma demo_write: "io_handler_write memory_ops (Some [memory_from (replicate 40000 0)]) 0 0 (replicate 40000 7) =
    (Ok True, Some [\<lparr>mem_memory = overwrite (replicate 40000 0) 0 (replicate 40000 7),
       mem_slices = \<lparr>sl_slices = [(0, 40000)], sl_expected_size = 40000\<rparr>\<rparr>])"
proof -
  have "memory_write_piece [memory_from (replicate 40000 0)] 0 0 (replicate 40000 7) =
    (Ok True, [\<lparr>mem_memory = overwrite (replicate 40000 0) 0 (replicate 40000 7),
       mem_slices = \<lparr>sl_slices = [(0, 40000)], sl_expected_size = 40000\<rparr>\<rparr>])"
    by (simp add: memory_write_Ok_iff memory_from_def slices_new_def slices_insert_def search_start_def
        merge_missing_def insert_at_def is_complete_def u32_add_def usize_max_def as_u32_def)
  then show ?thesis
    by (simp add: io_handler_write_def io_handler_task_def memory_ops_def)
qed

definition demo_delivered :: "memory_torrent_io processor" where
  "demo_delivered = deliver memory_ops 0 (Piece 0 0 (replicate 40000 7)) demo1"

definition demo_written :: "memory_torrent_io processor" where
  "demo_written = write_answered 0 0 0 (Ok True) demo_delivered"

definition demo_done :: "memory_torrent_io processor" where
  "demo_done = set_status 0 Idle (demo_written\<lparr>pr_wakeups := pr_wakeups demo_written @ [PieceComplete 0]\<rparr>)"

lemma demo_delivered_facts: "demo_reachable demo_delivered" "pr_loop demo_delivered = Looping"
  "pr_handlers demo_delivered = [\<lparr>h_peer = [1], h_conn = 0, h_status = Writing 0 0 (Ok True)\<rparr>]"
  "pr_wakeups demo_delivered = []" "pr_peer_to_tx demo_delivered = [([1], 0)]" "pr_channels demo_delivered = pr_channels demo1"
proof -
  have "demo_step demo1 (PeerSends 0 (Piece 0 0 (replicate 40000 7))) demo_delivered"
    unfolding demo_delivered_def by (rule processor_step.peer_sends) (simp_all add: demo1_facts)
  then show "demo_reachable demo_delivered" by (rule reachable.next_state [OF demo1_facts(1)])
qed (simp_all add: demo_delivered_def deliver_def Let_def demo1_facts set_status_def demo1_io demo_write)

lemma demo_written_step: "demo_step demo_delivered (WriteAnswered 0) demo_written"
  unfolding demo_written_def by (rule processor_step.write_answered) (simp_all add: demo_delivered_facts)

lemma completed_only_after_write_witness:
  "pieces_completed (ts_tracking (pr_state demo_written)) = {0} \<union> pieces_completed (ts_tracking (pr_state demo_delivered))"
  using completed_only_after_write [OF list_bytes.bytes_laws_axioms sorted_iter.hash_iteration_axioms demo_delivered_facts(1)
      demo_written_step] by (simp add: demo_delivered_facts)

lemma demo_done_facts: "demo_reachable demo_done" "pr_loop demo_done = Looping" "pr_wakeups demo_done = [PieceComplete 0]"
  "pr_peer_to_tx demo_done = [([1], 0)]" "deliverable (pr_channels demo_done) 0"
proof -
  have w: "pr_loop demo_written = Looping" "pr_handlers demo_written = [\<lparr>h_peer = [1], h_conn = 0, h_status = Waking (PieceComplete 0)\<rparr>]"
    "pr_wakeups demo_written = []" "pr_peer_to_tx demo_written = [([1], 0)]" "pr_channels demo_written = pr_channels demo1"
    by (simp_all add: demo_written_def write_answered_def finish_write_def set_status_def demo_delivered_facts)
  have "demo_step demo_written (WakeSent 0) demo_done"
    unfolding demo_done_def by (rule processor_step.wake_sent) (simp_all add: w wakeup_capacity_def)
  then show "demo_reachable demo_done"
    by (rule reachable.next_state [OF reachable.next_state [OF demo_delivered_facts(1) demo_written_step]])
  show "pr_loop demo_done = Looping" "pr_wakeups demo_done = [PieceComplete 0]" "pr_peer_to_tx demo_done = [([1], 0)]"
    "deliverable (pr_channels demo_done) 0"
    by (simp_all add: demo_done_def set_status_def w demo1_facts(6))
qed

lemma completion_announced_witness:
  "\<exists>pr' rest. demo_step demo_done (WakeReceived (\<lambda>_. 9)) pr' \<and>
     ch_messages (pr_channels pr' ! 0) = ch_messages (pr_channels demo_done ! 0) @ [Have 0] @ rest"
proof -
  note d = demo_done_facts
  have "demo_step demo_done (WakeReceived (\<lambda>_. 9)) (process_wakeup memory_ops sorted_iter (\<lambda>_. 9) (PieceComplete 0) (demo_done\<lparr>pr_wakeups := []\<rparr>))"
    by (rule processor_step.wake_received) (simp_all add: d)
  then obtain pr' where step: "demo_step demo_done (WakeReceived (\<lambda>_. 9)) pr'" by blast
  have "hd (pr_wakeups demo_done) = PieceComplete 0" "bt_get (pr_peer_to_tx demo_done) [1] = Some 0"
    by (simp_all add: d)
  from completion_announced [OF list_bytes.bytes_laws_axioms sorted_iter.hash_iteration_axioms d(1) step this d(5)] step
  show ?thesis by blast
qed

end
