(* ===== verification/File_Io.thy ===== *)
theory File_Io
  imports Torrent_Io Slices Allocation
begin

text \<open>
  \<open>FileTorrentIO\<close> of \<open>src/peer/io/file.rs\<close>: all pieces in one file, each with its expected
  hash, its start offset, its size and its slice tracker. The file system calls (\<open>tokio::fs\<close>),
  SHA-1 and the hex printer are not under \<open>src/\<close>: the file is an abstract value \<open>'f\<close> with a
  record of operations, and \<open>file_laws\<close> says what the code relies on (a successful seek sets
  the position, a successful write stores at the position, a failed one may have stored a
  prefix, a read returns the bytes at the position and changes none).

  The constructor computes the start of piece \<open>i\<close> as its own length times \<open>i\<close>, which is the
  right offset for every piece except a shorter last one. The trait's contract is proved for
  stores whose pieces do not overlap (\<open>file_inv\<close>); \<open>File_Io\<close> also shows when they do.
\<close>

section \<open>Definitions\<close>

record 'f file_api =
  f_seek :: "'f \<Rightarrow> usize \<Rightarrow> (peer_error, unit) res \<times> 'f"
  f_write_all :: "'f \<Rightarrow> bytes \<Rightarrow> (peer_error, unit) res \<times> 'f"
  f_read_exact :: "'f \<Rightarrow> usize \<Rightarrow> (peer_error, bytes) res \<times> 'f"
  f_set_len :: "'f \<Rightarrow> usize \<Rightarrow> (peer_error, unit) res \<times> 'f"

record digest_api =
  sha1 :: "bytes \<Rightarrow> bytes"
  hex_encode :: "bytes \<Rightarrow> bytes"

record file_piece_state =
  fp_hash :: bytes
  fp_slices :: slices
  fp_start_idx :: usize
  fp_size :: usize

definition file_piece_new :: "usize \<Rightarrow> usize \<Rightarrow> bytes \<Rightarrow> file_piece_state" where
  "file_piece_new expected_size start_idx hash =
     \<lparr>fp_hash = hash, fp_slices = slices_new expected_size, fp_start_idx = start_idx, fp_size = expected_size\<rparr>"

definition seek_offset :: "'f file_api \<Rightarrow> file_piece_state \<Rightarrow> 'f \<Rightarrow> u32 \<Rightarrow> (peer_error, unit) res \<times> 'f" where
  "seek_offset F piece f offset =
     (case usize_add (fp_start_idx piece) (unat offset) of
        None \<Rightarrow> (Panic, f)
      | Some off \<Rightarrow> f_seek F f off)"

definition compute_file_sha1_hash ::
  "'f file_api \<Rightarrow> digest_api \<Rightarrow> file_piece_state \<Rightarrow> 'f \<Rightarrow> (peer_error, bytes) res \<times> 'f"
where
  "compute_file_sha1_hash F H piece f =
     st_bind (f_seek F f (fp_start_idx piece)) (\<lambda>_ f.
     st_bind (f_read_exact F f (fp_size piece)) (\<lambda>buf f.
     (Ok (sha1 H buf), f)))"

record 'f file_torrent_io =
  fio_file :: 'f
  fio_pieces :: "file_piece_state list"
  fio_allocation :: torrent_allocation

text \<open>The loop of the constructor: one entry per piece; \<open>None\<close> if an index or a product panics.\<close>

fun build_pieces :: "v1_torrent \<Rightarrow> torrent_allocation \<Rightarrow> usize list \<Rightarrow> file_piece_state list option" where
  "build_pieces torrent a [] = Some []"
| "build_pieces torrent a (idx # idxs) =
     (if idx < length (ti_pieces (t_info torrent)) then
        Option.bind (piece_len a idx) (\<lambda>len.
        Option.bind (usize_mul len idx) (\<lambda>start.
        map_option (\<lambda>ps. file_piece_new len start (piece_hash (ti_pieces (t_info torrent) ! idx)) # ps)
          (build_pieces torrent a idxs)))
      else None)"

text \<open>\<open>new\<close>, given the result of creating the file; choosing its path is not modelled.\<close>

definition file_io_new ::
  "'f file_api \<Rightarrow> v1_torrent \<Rightarrow> (peer_error, 'f) res \<Rightarrow> (peer_error, 'f file_torrent_io) res"
where
  "file_io_new F torrent created =
     res_bind (or_panic (allocate_torrent torrent)) (\<lambda>a.
     res_bind created (\<lambda>f.
     case f_set_len F f (i64_as_usize (ti_length (t_info torrent))) of
       (Ok _, f) \<Rightarrow>
         res_bind (or_panic (build_pieces torrent a [0..<total_pieces a])) (\<lambda>pieces.
         Ok \<lparr>fio_file = f, fio_pieces = pieces, fio_allocation = a\<rparr>)
     | (Err e, _) \<Rightarrow> Err e
     | (Panic, _) \<Rightarrow> Panic))"

definition file_put ::
  "'f file_api \<Rightarrow> file_piece_state \<Rightarrow> 'f \<Rightarrow> u32 \<Rightarrow> bytes \<Rightarrow> (peer_error, unit) res \<times> 'f"
where
  "file_put F piece f begin block = st_bind (seek_offset F piece f begin) (\<lambda>_ f. f_write_all F f block)"

text \<open>What follows a completed piece: hash it from the file and compare.\<close>

definition check_hash ::
  "'f file_api \<Rightarrow> digest_api \<Rightarrow> u32 \<Rightarrow> file_piece_state \<Rightarrow> 'f \<Rightarrow> (peer_error, bool) res \<times> 'f"
where
  "check_hash F H index piece f =
     st_bind (compute_file_sha1_hash F H piece f) (\<lambda>computed_hash f.
     if computed_hash = fp_hash piece then (Ok True, f)
     else (Err (PieceHashMismatch index (hex_encode H computed_hash) (hex_encode H (fp_hash piece))), f))"

text \<open>The tail of \<open>write_piece\<close>, once the guards have passed: store, track, and check when complete.\<close>

definition file_store ::
  "'f file_api \<Rightarrow> digest_api \<Rightarrow> 'f file_torrent_io \<Rightarrow> u32 \<Rightarrow> u32 \<Rightarrow> bytes \<Rightarrow>
     (peer_error, bool) res \<times> 'f file_torrent_io"
where
  "file_store F H io index begin block =
     (let i = unat index; piece = fio_pieces io ! i in
      case file_put F piece (fio_file io) begin block of
        (Err e, f) \<Rightarrow> (Err e, io\<lparr>fio_file := f\<rparr>)
      | (Panic, f) \<Rightarrow> (Panic, io\<lparr>fio_file := f\<rparr>)
      | (Ok _, f) \<Rightarrow>
          (case slices_insert (fp_slices piece) begin (as_u32 (length block)) of
             None \<Rightarrow> (Panic, io\<lparr>fio_file := f\<rparr>)
           | Some (finished, s) \<Rightarrow>
               (let piece' = piece\<lparr>fp_slices := s\<rparr>;
                    io' = io\<lparr>fio_file := f, fio_pieces := (fio_pieces io)[i := piece']\<rparr> in
                if finished then
                  (case check_hash F H index piece' f of (r, f') \<Rightarrow> (r, io'\<lparr>fio_file := f'\<rparr>))
                else (Ok False, io'))))"

definition file_write_piece ::
  "'f file_api \<Rightarrow> digest_api \<Rightarrow> 'f file_torrent_io \<Rightarrow> u32 \<Rightarrow> u32 \<Rightarrow> bytes \<Rightarrow>
     (peer_error, bool) res \<times> 'f file_torrent_io"
where
  "file_write_piece F H io index begin block =
     (let i = unat index in
      if i < length (fio_pieces io) then
        (if is_complete (fp_slices (fio_pieces io ! i)) then (Err (FileAlreadyComplete index), io)
         else
           (case (usize_add (unat begin) (length block), piece_len (fio_allocation io) i) of
              (Some end_pos, Some len) \<Rightarrow>
                if end_pos > len then (Err (BadBounds i end_pos), io)
                else file_store F H io index begin block
            | _ \<Rightarrow> (Panic, io)))
      else (Err (BadPieceIdx i), io))"

definition file_read_piece ::
  "'f file_api \<Rightarrow> 'f file_torrent_io \<Rightarrow> u32 \<Rightarrow> u32 \<Rightarrow> u32 \<Rightarrow> (peer_error, bytes) res \<times> 'f file_torrent_io"
where
  "file_read_piece F io index begin len =
     (let i = unat index in
      if i < length (fio_pieces io) then
        (let piece = fio_pieces io ! i in
         case (usize_add (unat begin) (unat len), piece_len (fio_allocation io) i) of
           (Some end_pos, Some pl) \<Rightarrow>
             if end_pos > pl then (Err (BadBounds i end_pos), io)
             else if \<not> is_complete (fp_slices piece) then (Err (FilePieceNotFinished index), io)
             else
               (case st_bind (seek_offset F piece (fio_file io) begin) (\<lambda>_ f. f_read_exact F f (unat len)) of
                  (r, f) \<Rightarrow> (r, io\<lparr>fio_file := f\<rparr>))
         | _ \<Rightarrow> (Panic, io))
      else (Err (BadPieceIdx i), io))"

definition file_ops :: "'f file_api \<Rightarrow> digest_api \<Rightarrow> 'f file_torrent_io torrent_io_ops" where
  "file_ops F H = \<lparr>write_piece = file_write_piece F H, read_piece = file_read_piece F\<rparr>"

section \<open>What the code relies on in the file system\<close>

text \<open>Storing at a position; a store past the end fills the gap with zeros.\<close>

definition pwrite :: "bytes \<Rightarrow> usize \<Rightarrow> bytes \<Rightarrow> bytes" where
  "pwrite c p b = (if b = [] then c else take p (c @ replicate (p - length c) 0) @ b @ drop (p + length b) c)"

locale file_laws =
  fixes F :: "'f file_api"
    and contents :: "'f \<Rightarrow> bytes"
    and pos :: "'f \<Rightarrow> usize"
  assumes seek_contents: "f_seek F f n = (r, f') \<Longrightarrow> contents f' = contents f"
    and seek_Ok: "f_seek F f n = (Ok u, f') \<Longrightarrow> pos f' = n"
    and write_Ok: "f_write_all F f b = (Ok u, f') \<Longrightarrow> contents f' = pwrite (contents f) (pos f) b"
    and write_fails: "f_write_all F f b = (r, f') \<Longrightarrow>
      \<exists>k \<le> length b. contents f' = pwrite (contents f) (pos f) (take k b)"
    and read_Ok: "f_read_exact F f n = (Ok bs, f') \<Longrightarrow>
      pos f + n \<le> length (contents f) \<and> bs = take n (drop (pos f) (contents f))"
    and read_contents: "f_read_exact F f n = (rb, f') \<Longrightarrow> contents f' = contents f"
    and io_errors: "f_seek F f n = (Err e, f') \<Longrightarrow> \<exists>k. e = IoError k"
      "f_write_all F f b = (Err e, f') \<Longrightarrow> \<exists>k. e = IoError k"
      "f_read_exact F f n = (Err e, f') \<Longrightarrow> \<exists>k. e = IoError k"
    and set_len_Ok: "f_set_len F f n = (Ok u, f') \<Longrightarrow>
      contents f' = take n (contents f) @ replicate (n - length (contents f)) 0"

text \<open>A file kept in memory: its bytes and the position.\<close>

type_synonym list_file = "bytes \<times> usize"

definition list_file_api :: "list_file file_api" where
  "list_file_api = \<lparr>
     f_seek = (\<lambda>(c, _) n. (Ok (), (c, n))),
     f_write_all = (\<lambda>(c, p) b. (Ok (), (pwrite c p b, p + length b))),
     f_read_exact = (\<lambda>(c, p) n. if p + n \<le> length c then (Ok (take n (drop p c)), (c, p + n))
                                 else (Err (IoError 0), (c, p))),
     f_set_len = (\<lambda>(c, p) n. (Ok (), (take n c @ replicate (n - length c) 0, p)))\<rparr>"

interpretation list_file: file_laws list_file_api fst snd
proof unfold_locales
  fix f f' :: list_file and b r
  assume "f_write_all list_file_api f b = (r, f')"
  then show "\<exists>k \<le> length b. fst f' = pwrite (fst f) (snd f) (take k b)"
    by (intro exI [of _ "length b"]) (auto simp: list_file_api_def split: prod.splits)
qed (auto simp: list_file_api_def split: prod.splits if_splits)

section \<open>The contract holds where pieces do not overlap\<close>

definition file_piece :: "('f \<Rightarrow> bytes) \<Rightarrow> 'f file_torrent_io \<Rightarrow> nat \<Rightarrow> bytes option" where
  "file_piece contents io i =
     (if i < length (fio_pieces io)
      then Some (take (fp_size (fio_pieces io ! i)) (drop (fp_start_idx (fio_pieces io ! i)) (contents (fio_file io))))
      else None)"

definition pieces_apart :: "file_piece_state list \<Rightarrow> bool" where
  "pieces_apart ps \<longleftrightarrow> sorted_wrt (\<lambda>p q. fp_start_idx p + fp_size p \<le> fp_start_idx q) ps"

definition piece_inv :: "torrent_allocation \<Rightarrow> usize \<Rightarrow> nat \<Rightarrow> file_piece_state \<Rightarrow> bool" where
  "piece_inv a len i p \<longleftrightarrow>
     piece_len a i = Some (fp_size p) \<and> fp_start_idx p + fp_size p \<le> len \<and>
     sl_expected_size (fp_slices p) = fp_size p \<and> slices_inv (fp_slices p)"

definition file_inv :: "('f \<Rightarrow> bytes) \<Rightarrow> 'f file_torrent_io \<Rightarrow> bool" where
  "file_inv contents io \<longleftrightarrow>
     pieces_apart (fio_pieces io) \<and>
     (\<forall>i < length (fio_pieces io).
        piece_inv (fio_allocation io) (length (contents (fio_file io))) i (fio_pieces io ! i))"

lemma pwrite_overwrite: "p + length b \<le> length c \<Longrightarrow> pwrite c p b = overwrite c p b"
  by (cases "b = []") (simp_all add: pwrite_def overwrite_def)

lemma pieces_apart_nth:
  assumes "pieces_apart ps" "i < length ps" "j < length ps" "i \<noteq> j"
  shows "fp_start_idx (ps ! i) + fp_size (ps ! i) \<le> fp_start_idx (ps ! j) \<or>
    fp_start_idx (ps ! j) + fp_size (ps ! j) \<le> fp_start_idx (ps ! i)"
  using assms by (auto simp: pieces_apart_def sorted_wrt_iff_nth_less neq_iff)

text \<open>Storing into one piece changes that piece's window and no other.\<close>

lemma file_piece_overwrite:
  assumes inv: "file_inv contents io" and i: "i < length (fio_pieces io)"
    and fit: "b + length blk \<le> fp_size (fio_pieces io ! i)"
    and stored: "contents f = overwrite (contents (fio_file io)) (fp_start_idx (fio_pieces io ! i) + b) blk"
    and ps: "length ps = length (fio_pieces io)"
      "map fp_start_idx ps = map fp_start_idx (fio_pieces io)" "map fp_size ps = map fp_size (fio_pieces io)"
  shows "file_piece contents (io\<lparr>fio_file := f, fio_pieces := ps\<rparr>) =
    (file_piece contents io)(i \<mapsto> overwrite (the (file_piece contents io i)) b blk)"
proof
  fix j
  let ?c = "contents (fio_file io)" and ?s = "fp_start_idx (fio_pieces io ! i)"
  have in_file: "?s + fp_size (fio_pieces io ! i) \<le> length ?c"
    using inv i by (simp add: file_inv_def piece_inv_def)
  have same: "fp_start_idx (ps ! j) = fp_start_idx (fio_pieces io ! j)" "fp_size (ps ! j) = fp_size (fio_pieces io ! j)"
    if "j < length (fio_pieces io)" for j
    using ps that by (metis length_map nth_map)+
  show "file_piece contents (io\<lparr>fio_file := f, fio_pieces := ps\<rparr>) j =
    ((file_piece contents io)(i \<mapsto> overwrite (the (file_piece contents io i)) b blk)) j"
  proof (cases "j = i")
    case True
    then show ?thesis
      using i fit in_file same ps(1) by (simp add: file_piece_def stored overwrite_window)
  next
    case False
    show ?thesis
    proof (cases "j < length (fio_pieces io)")
      case True
      have "fp_start_idx (fio_pieces io ! j) + fp_size (fio_pieces io ! j) \<le> ?s + b \<or>
          ?s + b + length blk \<le> fp_start_idx (fio_pieces io ! j)"
        using pieces_apart_nth [of "fio_pieces io" i j] inv i True False fit by (auto simp: file_inv_def)
      then have "take (fp_size (fio_pieces io ! j)) (drop (fp_start_idx (fio_pieces io ! j)) (contents f)) =
          take (fp_size (fio_pieces io ! j)) (drop (fp_start_idx (fio_pieces io ! j)) ?c)"
        unfolding stored using fit in_file by (intro slice_overwrite_other) auto
      then show ?thesis
        using True False same ps(1) by (simp add: file_piece_def)
    qed (use False i ps(1) in \<open>simp add: file_piece_def\<close>)
  qed
qed

lemma file_inv_update:
  assumes "file_inv contents io" "i < length (fio_pieces io)"
    and "length (contents f) = length (contents (fio_file io))"
    and "fp_start_idx p = fp_start_idx (fio_pieces io ! i)" "fp_size p = fp_size (fio_pieces io ! i)"
    and "sl_expected_size (fp_slices p) = fp_size p" "slices_inv (fp_slices p)"
  shows "file_inv contents (io\<lparr>fio_file := f, fio_pieces := (fio_pieces io)[i := p]\<rparr>)"
  using assms
  by (auto simp: file_inv_def piece_inv_def pieces_apart_def sorted_wrt_iff_nth_less nth_list_update)

lemma file_inv_file:
  "file_inv contents io \<Longrightarrow> length (contents f) = length (contents (fio_file io)) \<Longrightarrow>
     file_inv contents (io\<lparr>fio_file := f\<rparr>)"
  by (simp add: file_inv_def)

context file_laws
begin

lemma seek_offset_contents: "seek_offset F p f off = (r, f') \<Longrightarrow> contents f' = contents f"
  by (auto simp: seek_offset_def split: option.splits dest: seek_contents)

lemma file_put_effect:
  assumes put: "file_put F p f off blk = (r, f')"
    and fit: "fp_start_idx p + unat off + length blk \<le> length (contents f)"
  shows "\<exists>k \<le> length blk. contents f' = overwrite (contents f) (fp_start_idx p + unat off) (take k blk) \<and>
    (is_ok r \<longrightarrow> k = length blk)"
proof -
  obtain r1 f1 where seek: "seek_offset F p f off = (r1, f1)" by fastforce
  note c1 = seek_offset_contents [OF seek]
  show ?thesis
  proof (cases r1)
    case (Ok u)
    then have pos: "pos f1 = fp_start_idx p + unat off"
      using seek by (auto simp: seek_offset_def usize_add_def split: option.splits if_splits dest: seek_Ok)
    have w: "f_write_all F f1 blk = (r, f')" using put seek Ok by (simp add: file_put_def)
    show ?thesis
    proof (cases r)
      case (Ok u')
      then show ?thesis
        using write_Ok w c1 pos fit by (intro exI [of _ "length blk"]) (simp add: pwrite_overwrite)
    qed (use write_fails [OF w] c1 pos fit in \<open>auto simp: pwrite_overwrite\<close>)
  qed (use put seek c1 in \<open>auto simp: file_put_def intro!: exI [of _ 0]\<close>)
qed

lemma compute_hash_contents: "compute_file_sha1_hash F H p f = (r, f') \<Longrightarrow> contents f' = contents f"
  unfolding compute_file_sha1_hash_def
  by (cases "f_seek F f (fp_start_idx p)"; cases "fst (f_seek F f (fp_start_idx p))";
      cases "f_read_exact F (snd (f_seek F f (fp_start_idx p))) (fp_size p)";
      cases "fst (f_read_exact F (snd (f_seek F f (fp_start_idx p))) (fp_size p))")
    (auto dest!: seek_contents read_contents)

lemma compute_hash_Ok:
  assumes "compute_file_sha1_hash F H p f = (Ok h, f')"
  shows "h = sha1 H (take (fp_size p) (drop (fp_start_idx p) (contents f)))"
  using assms
  by (auto simp: compute_file_sha1_hash_def st_bind_Ok_iff dest!: read_Ok)
    (metis seek_contents seek_Ok)

lemma check_hash_contents: "check_hash F H i p f = (r, f') \<Longrightarrow> contents f' = contents f"
  unfolding check_hash_def
  by (cases "compute_file_sha1_hash F H p f"; cases "fst (compute_file_sha1_hash F H p f)")
    (auto dest!: compute_hash_contents split: if_splits)

lemma check_hash_Ok:
  assumes "check_hash F H i p f = (Ok b, f')"
  shows "b \<and> fp_hash p = sha1 H (take (fp_size p) (drop (fp_start_idx p) (contents f)))"
  using assms by (auto simp: check_hash_def st_bind_Ok_iff dest!: compute_hash_Ok split: if_splits)

text \<open>Every way a store can go: the file call failed, or the block is in place and tracked.\<close>

lemma file_store_cases:
  assumes "file_store F H io index off blk = (r, io')" "unat index < length (fio_pieces io)"
  obtains (failed) r1 f where "file_put F (fio_pieces io ! unat index) (fio_file io) off blk = (r1, f)"
      "io' = io\<lparr>fio_file := f\<rparr>" "\<not> is_ok r" "r = Panic \<or> (\<exists>e. r1 = Err e \<and> r = Err e)"
  | (stored) u f1 fin s f2 where
      "file_put F (fio_pieces io ! unat index) (fio_file io) off blk = (Ok u, f1)"
      "slices_insert (fp_slices (fio_pieces io ! unat index)) off (as_u32 (length blk)) = Some (fin, s)"
      "io' = io\<lparr>fio_file := f2,
        fio_pieces := (fio_pieces io)[unat index := (fio_pieces io ! unat index)\<lparr>fp_slices := s\<rparr>]\<rparr>"
      "if fin then check_hash F H index ((fio_pieces io ! unat index)\<lparr>fp_slices := s\<rparr>) f1 = (r, f2)
       else r = Ok False \<and> f2 = f1"
proof -
  obtain r1 f1 where put: "file_put F (fio_pieces io ! unat index) (fio_file io) off blk = (r1, f1)"
    by fastforce
  show ?thesis
  proof (cases r1)
    case (Ok u)
    show ?thesis
    proof (cases "slices_insert (fp_slices (fio_pieces io ! unat index)) off (as_u32 (length blk))")
      case None
      with Ok put assms show ?thesis by (intro failed [of r1 f1]) (auto simp: file_store_def)
    next
      case (Some fs)
      obtain fin s where fs: "fs = (fin, s)" by fastforce
      obtain r2 f2 where check:
        "check_hash F H index ((fio_pieces io ! unat index)\<lparr>fp_slices := s\<rparr>) f1 = (r2, f2)" by fastforce
      show ?thesis
        using Ok put assms Some fs check stored [of u f1 fin s "if fin then f2 else f1"]
        by (cases fin) (auto simp: file_store_def Let_def)
    qed
  qed (use assms put failed in \<open>auto simp: file_store_def\<close>)
qed

lemma file_write_cases:
  assumes "file_write_piece F H io index off blk = (r, io')"
  obtains (refused) "io' = io" "\<not> is_ok r" "\<And>i c e. r \<noteq> Err (PieceHashMismatch i c e)"
  | (store) len where "unat index < length (fio_pieces io)" "\<not> is_complete (fp_slices (fio_pieces io ! unat index))"
      "piece_len (fio_allocation io) (unat index) = Some len" "unat off + length blk \<le> len"
      "file_store F H io index off blk = (r, io')"
proof (cases "unat index < length (fio_pieces io) \<and> \<not> is_complete (fp_slices (fio_pieces io ! unat index))")
  case False
  then show ?thesis
    using assms by (intro refused) (auto simp: file_write_piece_def Let_def split: if_splits)
next
  case guard: True
  show ?thesis
  proof (cases "piece_len (fio_allocation io) (unat index)")
    case (Some len)
    show ?thesis
    proof (cases "unat off + length blk \<le> len \<and> unat off + length blk \<le> usize_max")
      case True
      then have "file_store F H io index off blk = (r, io')"
        using assms guard Some by (simp add: file_write_piece_def usize_add_def)
      then show ?thesis using guard Some True by (intro store) auto
    next
      case False
      then show ?thesis
        using assms guard Some
        by (intro refused) (auto simp: file_write_piece_def usize_add_def split: if_splits)
    qed
  qed (use assms guard in \<open>intro refused, auto simp: file_write_piece_def usize_add_def split: if_splits\<close>)
qed

text \<open>A store under the invariant: the piece's window gets a prefix of the block, all of it on success.\<close>

lemma file_store_effect:
  assumes inv: "file_inv contents io" and i: "unat index < length (fio_pieces io)"
    and fit: "unat off + length blk \<le> fp_size (fio_pieces io ! unat index)"
    and store: "file_store F H io index off blk = (r, io')"
  shows "file_inv contents io' \<and>
    (\<exists>k \<le> length blk. (is_ok r \<longrightarrow> k = length blk) \<and>
       file_piece contents io' = (file_piece contents io)(unat index \<mapsto>
         overwrite (the (file_piece contents io (unat index))) (unat off) (take k blk)))"
proof -
  let ?p = "fio_pieces io ! unat index"
  have p: "fp_start_idx ?p + fp_size ?p \<le> length (contents (fio_file io))"
    "sl_expected_size (fp_slices ?p) = fp_size ?p" "slices_inv (fp_slices ?p)"
    using inv i by (auto simp: file_inv_def piece_inv_def)
  show ?thesis
    using store i
  proof (cases rule: file_store_cases)
    case (failed r1 f)
    then obtain k where k: "k \<le> length blk"
      "contents f = overwrite (contents (fio_file io)) (fp_start_idx ?p + unat off) (take k blk)"
      using file_put_effect [OF failed(1)] fit p by auto
    then show ?thesis
      using failed fit p file_piece_overwrite [OF inv i, of "unat off" "take k blk" f "fio_pieces io"]
        file_inv_file [OF inv, of f] by auto
  next
    case (stored u f1 fin s f2)
    then have f1: "contents f1 = overwrite (contents (fio_file io)) (fp_start_idx ?p + unat off) blk"
      using file_put_effect [OF stored(1)] fit p by fastforce
    have f2: "contents f2 = contents f1"
      using stored(4) check_hash_contents by (auto split: if_splits)
    have "map g ((fio_pieces io)[unat index := ?p\<lparr>fp_slices := s\<rparr>]) = map g (fio_pieces io)"
      if "g (?p\<lparr>fp_slices := s\<rparr>) = g ?p" for g :: "file_piece_state \<Rightarrow> nat"
      using that i by (simp add: map_update) (metis list_update_id length_map nth_map)
    then have "file_piece contents io' = (file_piece contents io)(unat index \<mapsto>
         overwrite (the (file_piece contents io (unat index))) (unat off) blk)"
      unfolding stored(3) using f1 f2 fit by (intro file_piece_overwrite [OF inv i]) auto
    moreover have "file_inv contents io'"
      unfolding stored(3) using f1 f2 fit p slices_insert_Some(3) [OF stored(2)] slices_insert_inv [OF stored(2)]
      by (intro file_inv_update [OF inv i]) auto
    ultimately show ?thesis by auto
  qed
qed

lemma file_read_cases:
  assumes "file_read_piece F io index off n = (r, io')"
  obtains (refused) "io' = io" "\<not> is_ok r"
  | (fetch) len f where "unat index < length (fio_pieces io)" "is_complete (fp_slices (fio_pieces io ! unat index))"
      "piece_len (fio_allocation io) (unat index) = Some len" "unat off + unat n \<le> len"
      "st_bind (seek_offset F (fio_pieces io ! unat index) (fio_file io) off) (\<lambda>_ f. f_read_exact F f (unat n)) = (r, f)"
      "io' = io\<lparr>fio_file := f\<rparr>"
proof (cases "unat index < length (fio_pieces io)")
  case guard: True
  show ?thesis
  proof (cases "piece_len (fio_allocation io) (unat index)")
    case (Some len)
    show ?thesis
    proof (cases "unat off + unat n \<le> len \<and> unat off + unat n \<le> usize_max \<and>
        is_complete (fp_slices (fio_pieces io ! unat index))")
      case True
      then have "(case st_bind (seek_offset F (fio_pieces io ! unat index) (fio_file io) off)
          (\<lambda>_ f. f_read_exact F f (unat n)) of (r, f) \<Rightarrow> (r, io\<lparr>fio_file := f\<rparr>)) = (r, io')"
        using assms guard Some by (simp add: file_read_piece_def Let_def usize_add_def)
      then show ?thesis using guard Some True fetch by (auto split: prod.splits)
    next
      case False
      then show ?thesis
        using assms guard Some
        by (intro refused) (auto simp: file_read_piece_def Let_def usize_add_def split: if_splits)
    qed
  qed (use assms guard in \<open>intro refused, auto simp: file_read_piece_def Let_def split: option.splits\<close>)
qed (use assms in \<open>intro refused, auto simp: file_read_piece_def Let_def\<close>)

lemma fetch_contents:
  "st_bind (seek_offset F p f off) (\<lambda>_ f. f_read_exact F f n) = (r, f') \<Longrightarrow> contents f' = contents f"
  by (cases "seek_offset F p f off"; cases "fst (seek_offset F p f off)")
    (auto dest!: read_contents seek_offset_contents)

lemma fetch_Ok:
  assumes "st_bind (seek_offset F p f off) (\<lambda>_ f. f_read_exact F f n) = (Ok bs, f')"
  shows "fp_start_idx p + unat off + n \<le> length (contents f) \<and>
    bs = take n (drop (fp_start_idx p + unat off) (contents f))"
proof -
  obtain u f1 where f1: "seek_offset F p f off = (Ok u, f1)" "f_read_exact F f1 n = (Ok bs, f')"
    using assms by (auto simp: st_bind_Ok_iff)
  then have "pos f1 = fp_start_idx p + unat off"
    by (auto simp: seek_offset_def usize_add_def split: option.splits if_splits dest: seek_Ok)
  then show ?thesis
    using read_Ok [OF f1(2)] seek_offset_contents [OF f1(1)] by simp
qed

text \<open>The effect of a whole write, and of a read, on the pieces.\<close>

lemma file_write_effect:
  assumes inv: "file_inv contents io" and w: "file_write_piece F H io i b blk = (r, io')"
  shows "io' = io \<and> \<not> is_ok r \<or> file_inv contents io' \<and>
    (\<exists>c k. file_piece contents io (unat i) = Some c \<and> k \<le> length blk \<and> unat b + length blk \<le> length c \<and>
       (is_ok r \<longrightarrow> k = length blk) \<and>
       file_piece contents io' = (file_piece contents io)(unat i \<mapsto> overwrite c (unat b) (take k blk)))"
  using w
proof (cases rule: file_write_cases)
  case (store len)
  let ?p = "fio_pieces io ! unat i"
  have "len = fp_size ?p" "fp_start_idx ?p + fp_size ?p \<le> length (contents (fio_file io))"
    using inv store by (auto simp: file_inv_def piece_inv_def)
  then have fit: "unat b + length blk \<le> fp_size ?p"
    "\<exists>c. file_piece contents io (unat i) = Some c \<and> length c = fp_size ?p"
    using store by (auto simp: file_piece_def)
  then obtain c where c: "file_piece contents io (unat i) = Some c" "length c = fp_size ?p" by blast
  then show ?thesis
    using file_store_effect [OF inv store(1) fit(1) store(5)] fit(1) by auto
qed simp

lemma file_read_effect:
  assumes inv: "file_inv contents io" and rd: "file_read_piece F io i b n = (r, io')"
  shows "file_inv contents io' \<and> file_piece contents io' = file_piece contents io \<and>
    (\<forall>bs. r = Ok bs \<longrightarrow> (\<exists>c. file_piece contents io (unat i) = Some c \<and> unat b + unat n \<le> length c \<and>
      bs = take (unat n) (drop (unat b) c)))"
  using rd
proof (cases rule: file_read_cases)
  case (fetch len f)
  let ?p = "fio_pieces io ! unat i"
  have in_file: "len = fp_size ?p" "fp_start_idx ?p + fp_size ?p \<le> length (contents (fio_file io))"
    using inv fetch by (auto simp: file_inv_def piece_inv_def)
  have "\<exists>c. file_piece contents io (unat i) = Some c \<and> unat b + unat n \<le> length c \<and>
      bs = take (unat n) (drop (unat b) c)" if "r = Ok bs" for bs
    using fetch_Ok [of ?p "fio_file io" b "unat n" bs f] fetch that in_file
    by (simp add: file_piece_def drop_take add.commute)
  then show ?thesis
    using inv fetch_contents [OF fetch(5)] fetch(6) by (auto simp: file_inv_def file_piece_def)
qed (use inv in auto)

lemma contract: "torrent_io (file_ops F H) (file_piece contents) (file_inv contents)"
proof
  fix io io' :: "'f file_torrent_io" and i b blk f
  assume inv: "file_inv contents io" and "write_piece (file_ops F H) io i b blk = (Ok f, io')"
  then show "\<exists>c. file_piece contents io (unat i) = Some c \<and> unat b + length blk \<le> length c \<and>
      file_piece contents io' = (file_piece contents io)(unat i \<mapsto> overwrite c (unat b) blk)"
    using file_write_effect [OF inv, of H i b blk "Ok f" io'] by (auto simp: file_ops_def)
next
  fix io io' :: "'f file_torrent_io" and i b blk r
  assume inv: "file_inv contents io" and w: "write_piece (file_ops F H) io i b blk = (r, io')"
  note effect = file_write_effect [OF inv, of H i b blk r io']
  show "file_inv contents io'" using effect inv w by (auto simp: file_ops_def)
  show "file_piece contents io' = file_piece contents io \<or>
      (\<exists>c k. file_piece contents io (unat i) = Some c \<and> k \<le> length blk \<and> unat b + length blk \<le> length c \<and>
        file_piece contents io' = (file_piece contents io)(unat i \<mapsto> overwrite c (unat b) (take k blk)))"
    using effect w by (auto simp: file_ops_def)
qed (use file_read_effect in \<open>fastforce simp: file_ops_def\<close>)+

text \<open>A piece is reported finished only with the hash the torrent gives for it.\<close>

lemma file_write_finished:
  assumes "file_write_piece F H io index off blk = (Ok True, io')"
  shows "\<exists>c. file_piece contents io' (unat index) = Some c \<and>
    sha1 H c = fp_hash (fio_pieces io ! unat index) \<and>
    is_complete (fp_slices (fio_pieces io' ! unat index)) \<and>
    recorded (fp_slices (fio_pieces io' ! unat index)) \<subseteq>
      recorded (fp_slices (fio_pieces io ! unat index)) \<union> block_range (off, as_u32 (length blk))"
  using assms
proof (cases rule: file_write_cases)
  case (store len)
  show ?thesis
    using store(5,1)
  proof (cases rule: file_store_cases)
    case (stored u f1 fin s f2)
    let ?p = "(fio_pieces io ! unat index)\<lparr>fp_slices := s\<rparr>"
    have fin: "fin" and check: "check_hash F H index ?p f1 = (Ok True, f2)"
      using stored(4) by (auto split: if_splits)
    have "fp_hash ?p = sha1 H (take (fp_size ?p) (drop (fp_start_idx ?p) (contents f2)))"
      using check_hash_Ok [OF check] check_hash_contents [OF check] by simp
    then show ?thesis
      using stored(2,3) store(1) fin slices_insert_Some(2) [OF stored(2)] slices_insert_recorded [OF stored(2)]
      by (auto simp: file_piece_def)
  qed simp
qed simp

text \<open>
  After a hash mismatch the piece stays complete in the tracker: no later write to it is
  accepted, and no later read of it is refused for being unfinished.
\<close>

lemma file_put_errors: "file_put F p f off blk = (Err e, f') \<Longrightarrow> \<exists>k. e = IoError k"
  by (cases "seek_offset F p f off"; cases "fst (seek_offset F p f off)")
    (auto simp: file_put_def seek_offset_def split: option.splits dest!: io_errors)

lemma file_store_mismatch:
  assumes "file_store F H io index off blk = (Err (PieceHashMismatch i c e), io')"
    and "unat index < length (fio_pieces io)"
  shows "is_complete (fp_slices (fio_pieces io' ! unat index)) \<and> length (fio_pieces io') = length (fio_pieces io)"
  using assms
proof (cases rule: file_store_cases)
  case (failed r1 f)
  then show ?thesis
    using file_put_errors by blast
next
  case (stored u f1 fin s f2)
  then show ?thesis
    using assms(2) slices_insert_Some(2) [OF stored(2)] by (auto split: if_splits)
qed

lemma fetch_errors:
  "st_bind (seek_offset F p f off) (\<lambda>_ f. f_read_exact F f n) = (Err e, f') \<Longrightarrow> \<exists>k. e = IoError k"
  by (cases "seek_offset F p f off"; cases "fst (seek_offset F p f off)")
    (auto simp: seek_offset_def split: option.splits dest!: io_errors)

lemma file_write_mismatch:
  assumes i: "unat index < length (fio_pieces io)"
    and w: "file_write_piece F H io index off blk = (Err (PieceHashMismatch i c e), io')"
  shows "fst (file_write_piece F H io' index off' blk') = Err (FileAlreadyComplete index) \<and>
    fst (file_read_piece F io' index off' n) \<noteq> Err (FilePieceNotFinished index)"
  using w
proof (cases rule: file_write_cases)
  case (store len)
  then have "is_complete (fp_slices (fio_pieces io' ! unat index))" "length (fio_pieces io') = length (fio_pieces io)"
    using file_store_mismatch [OF store(5) i] by blast+
  then show ?thesis
    using i
    by (auto simp: file_write_piece_def file_read_piece_def Let_def split: option.splits prod.splits if_splits
        dest!: fetch_errors)
qed blast

lemma store_read_your_writes:
  assumes "file_inv contents io0"
    and "io_run (file_ops F H) (Some io0) before = (replies0, t0)"
    and "io_handler_write (file_ops F H) t0 i b blk = (Ok f, t1)"
    and "\<forall>m \<in> set msgs. leaves_alone (unat i) (unat b) (unat b + length blk) m"
    and "io_run (file_ops F H) t1 msgs = (replies, t2)"
    and "io_handler_read (file_ops F H) t2 i b n = (Ok bs, t3)" and "unat n = length blk"
  shows "bs = blk"
proof -
  have "torrent_io.task_inv (file_inv contents) (Some io0)"
    using assms(1) by (simp add: torrent_io.task_inv_def [OF contract])
  then have "torrent_io.task_inv (file_inv contents) t0"
    by (rule torrent_io.task_inv_run [OF contract _ assms(2)])
  then show ?thesis
    by (rule torrent_io.read_your_writes [OF contract _ io_handler_write_Ok [OF assms(3)] assms(4,5)
          io_handler_read_Ok [OF assms(6)] assms(7)])
qed

end

interpretation file_io: torrent_io "file_ops list_file_api H" "file_piece fst" "file_inv fst" for H
  by (rule list_file.contract)

section \<open>The constructor\<close>

text \<open>Each piece starts at its own length times its index.\<close>

lemma build_pieces_Some:
  assumes "build_pieces torrent a idxs = Some ps"
  shows "length ps = length idxs \<and> (\<forall>n < length idxs. \<exists>len.
    piece_len a (idxs ! n) = Some len \<and>
    ps ! n = file_piece_new len (len * (idxs ! n)) (piece_hash (ti_pieces (t_info torrent) ! (idxs ! n))))"
  using assms
proof (induction idxs arbitrary: ps)
  case (Cons i idxs)
  then obtain len ps' where *: "piece_len a i = Some len" "build_pieces torrent a idxs = Some ps'"
    "ps = file_piece_new len (len * i) (piece_hash (ti_pieces (t_info torrent) ! i)) # ps'"
    by (auto simp: bind_eq_Some_conv usize_mul_Some split: if_splits)
  then show ?case using Cons.IH [OF *(2)] by (auto simp: less_Suc_eq_0_disj)
qed simp

lemma file_io_new_Ok:
  assumes "file_io_new F torrent created = Ok io"
  shows "allocate_torrent torrent = Some (fio_allocation io)"
    "length (fio_pieces io) = total_pieces (fio_allocation io)"
    "i < total_pieces (fio_allocation io) \<Longrightarrow> \<exists>len. piece_len (fio_allocation io) i = Some len \<and>
       fio_pieces io ! i = file_piece_new len (len * i) (piece_hash (ti_pieces (t_info torrent) ! i))"
    "\<exists>f u f'. created = Ok f \<and> f_set_len F f (i64_as_usize (ti_length (t_info torrent))) = (Ok u, f') \<and> fio_file io = f'"
proof -
  obtain a f where af: "allocate_torrent torrent = Some a" "created = Ok f"
    using assms by (auto simp: file_io_new_def res_bind_Ok_iff)
  obtain r f' where set_len: "f_set_len F f (i64_as_usize (ti_length (t_info torrent))) = (r, f')"
    by fastforce
  obtain u ps where *: "allocate_torrent torrent = Some a" "created = Ok f"
    "f_set_len F f (i64_as_usize (ti_length (t_info torrent))) = (Ok u, f')"
    "build_pieces torrent a [0..<total_pieces a] = Some ps"
    "io = \<lparr>fio_file = f', fio_pieces = ps, fio_allocation = a\<rparr>"
    using assms af set_len by (cases r) (auto simp: file_io_new_def res_bind_Ok_iff)
  then show "allocate_torrent torrent = Some (fio_allocation io)"
    "length (fio_pieces io) = total_pieces (fio_allocation io)"
    "i < total_pieces (fio_allocation io) \<Longrightarrow> \<exists>len. piece_len (fio_allocation io) i = Some len \<and>
       fio_pieces io ! i = file_piece_new len (len * i) (piece_hash (ti_pieces (t_info torrent) ! i))"
    "\<exists>f u f'. created = Ok f \<and> f_set_len F f (i64_as_usize (ti_length (t_info torrent))) = (Ok u, f') \<and> fio_file io = f'"
    using build_pieces_Some [OF *(4)] by auto
qed

lemma file_io_new_nth:
  assumes "file_io_new F torrent created = Ok io" and "i < total_pieces (fio_allocation io)"
  defines "len \<equiv> (if i = total_pieces (fio_allocation io) - 1 then last_piece_size (fio_allocation io)
                  else max_piece_size (fio_allocation io))"
  shows "fp_start_idx (fio_pieces io ! i) = len * i" "fp_size (fio_pieces io ! i) = len"
    "piece_len (fio_allocation io) i = Some len"
    "sl_expected_size (fp_slices (fio_pieces io ! i)) = len" "slices_inv (fp_slices (fio_pieces io ! i))"
    "fp_hash (fio_pieces io ! i) = piece_hash (ti_pieces (t_info torrent) ! i)"
  using file_io_new_Ok(3) [OF assms(1,2)] piece_len_eq [OF allocate_ok [OF file_io_new_Ok(1) [OF assms(1)]], of i]
  by (auto simp: file_piece_new_def len_def)

text \<open>When the last piece is as long as the others the pieces tile the file.\<close>

context file_laws
begin

lemma file_io_new_inv [inv_intros]:
  assumes new: "file_io_new F torrent created = Ok io"
    and even: "last_piece_size (fio_allocation io) = max_piece_size (fio_allocation io)"
  shows "file_inv contents io"
proof -
  let ?a = "fio_allocation io" and ?n = "total_pieces (fio_allocation io)"
  note facts = file_io_new_nth [OF new] and len = file_io_new_Ok(2) [OF new]
  have start: "fp_start_idx (fio_pieces io ! i) = max_piece_size ?a * i \<and> fp_size (fio_pieces io ! i) = max_piece_size ?a"
    if "i < ?n" for i using facts [OF that] even by simp
  have fits: "max_piece_size ?a * i + max_piece_size ?a \<le> max_piece_size ?a * j" if "i < j" for i j
    using that by (metis Suc_leI add.commute mult_Suc_right mult_le_mono2)
  obtain f u where set_len: "f_set_len F f (i64_as_usize (ti_length (t_info torrent))) = (Ok u, fio_file io)"
    using file_io_new_Ok(4) [OF new] by blast
  have alloc: "0 < ?n" "(?n - 1) * max_piece_size ?a \<le> i64_as_usize (ti_length (t_info torrent))"
    "last_piece_size ?a = i64_as_usize (ti_length (t_info torrent)) - (?n - 1) * max_piece_size ?a"
    using file_io_new_Ok(1) [OF new] by (auto simp: allocate_torrent_Some_iff Let_def)
  then have "length (contents (fio_file io)) = (?n - 1) * max_piece_size ?a + max_piece_size ?a"
    using set_len_Ok [OF set_len] even by simp
  then have total: "length (contents (fio_file io)) = max_piece_size ?a * ?n"
    using alloc(1) by (cases ?n) (auto simp: algebra_simps)
  show ?thesis
    unfolding file_inv_def pieces_apart_def sorted_wrt_iff_nth_less piece_inv_def len total
    using start facts fits even by (auto simp: len)
qed

end

text \<open>A shorter last piece starts inside an earlier one.\<close>

lemma file_io_new_overlap:
  assumes new: "file_io_new F torrent created = Ok io"
    and n: "2 \<le> total_pieces (fio_allocation io)"
    and short: "0 < last_piece_size (fio_allocation io)"
      "last_piece_size (fio_allocation io) < max_piece_size (fio_allocation io)"
  defines "last_start \<equiv> fp_start_idx (fio_pieces io ! (total_pieces (fio_allocation io) - 1))"
  shows "\<exists>j < total_pieces (fio_allocation io) - 1.
    fp_start_idx (fio_pieces io ! j) \<le> last_start \<and>
    last_start < fp_start_idx (fio_pieces io ! j) + fp_size (fio_pieces io ! j)"
proof -
  let ?n = "total_pieces (fio_allocation io)" and ?m = "max_piece_size (fio_allocation io)"
  let ?j = "last_start div ?m"
  have m: "0 < ?m" using short by simp
  have "last_start = last_piece_size (fio_allocation io) * (?n - 1)"
    using file_io_new_nth(1) [OF new, of "?n - 1"] n by (simp add: last_start_def)
  also have "\<dots> < ?m * (?n - 1)" using short n by simp
  finally have j: "?j < ?n - 1" using m by (simp add: div_less_iff_less_mult mult.commute)
  then have "fp_start_idx (fio_pieces io ! ?j) = ?m * ?j" "fp_size (fio_pieces io ! ?j) = ?m"
    using file_io_new_nth(1,2) [OF new, of ?j] by auto
  moreover have "?m * ?j \<le> last_start" "last_start < ?m * ?j + ?m"
    using m by (simp, metis add.commute dividend_less_times_div mult_Suc_right)
  ultimately show ?thesis using j by auto
qed

section \<open>Properties\<close>

text \<open>
  A write to the file store answers "finished" only when the tracker shows the piece
  complete and the SHA-1 of the bytes that are then in the file at the piece's place is the
  hash the store was built with.
\<close>

theorem finished_piece_has_hash:
  assumes "file_laws F contents pos" and "file_write_piece F H io index off blk = (Ok True, io')"
  shows "\<exists>c. file_piece contents io' (unat index) = Some c \<and>
    sha1 H c = fp_hash (fio_pieces io ! unat index) \<and>
    is_complete (fp_slices (fio_pieces io' ! unat index))"
  using file_laws.file_write_finished [OF assms] by blast

text \<open>A store of one three-byte piece with a toy digest, for the witnesses.\<close>

definition toy_digest :: digest_api where
  "toy_digest = \<lparr>sha1 = (\<lambda>b. [foldr (+) b 0]), hex_encode = (\<lambda>b. b)\<rparr>"

definition toy_store :: "bytes \<Rightarrow> slice list \<Rightarrow> list_file file_torrent_io" where
  "toy_store c xs = \<lparr>fio_file = (c, 0),
     fio_pieces = [\<lparr>fp_hash = [6], fp_slices = \<lparr>sl_slices = xs, sl_expected_size = 3\<rparr>, fp_start_idx = 0, fp_size = 3\<rparr>],
     fio_allocation = \<lparr>total_pieces = 1, max_piece_size = 3, last_piece_size = 3\<rparr>\<rparr>"

lemmas file_eval =
  file_write_piece_def toy_store_def is_complete_def usize_add_def usize_sub_def usize_max_def piece_len_def
  file_store_def file_put_def seek_offset_def list_file_api_def pwrite_def slices_insert_def search_start_def
  merge_missing_def insert_at_def u32_add_def check_hash_def compute_file_sha1_hash_def toy_digest_def as_u32_Suc

lemma finished_piece_has_hash_witness:
  "\<exists>io'. file_write_piece list_file_api toy_digest (toy_store [0, 0, 0] []) 0 0 [1, 2, 3] = (Ok True, io') \<and>
     (\<exists>c. file_piece fst io' 0 = Some c \<and> sha1 toy_digest c = [6])"
proof -
  let ?r = "file_write_piece list_file_api toy_digest (toy_store [0, 0, 0] []) 0 0 [1, 2, 3]"
  have w: "?r = (Ok True, snd ?r)"
    by (simp add: file_eval)
  show ?thesis
    using finished_piece_has_hash [OF list_file.file_laws_axioms w] w by (auto simp: toy_store_def)
qed

text \<open>
  A piece whose bytes do not have the expected hash is stuck: the write that completes it
  fails with the mismatch, every later write to it is refused as already complete, and a read
  of it is answered from the bad bytes.
\<close>

theorem mismatch_is_final:
  assumes "file_laws F contents pos" and "unat index < length (fio_pieces io)"
    and "file_write_piece F H io index off blk = (Err (PieceHashMismatch i c e), io')"
  shows "fst (file_write_piece F H io' index off' blk') = Err (FileAlreadyComplete index) \<and>
    fst (file_read_piece F io' index off' n) \<noteq> Err (FilePieceNotFinished index)"
  by (rule file_laws.file_write_mismatch [OF assms])

lemma mismatch_is_final_witness:
  "\<exists>c io'. file_write_piece list_file_api toy_digest (toy_store [0, 0, 0] []) 0 0 [1, 2, 4] =
       (Err (PieceHashMismatch 0 c [6]), io') \<and>
     fst (file_write_piece list_file_api toy_digest io' 0 0 [1, 2, 3]) = Err (FileAlreadyComplete 0)"
proof -
  let ?r = "file_write_piece list_file_api toy_digest (toy_store [0, 0, 0] []) 0 0 [1, 2, 4]"
  have w: "?r = (Err (PieceHashMismatch 0 [7] [6]), snd ?r)"
    by (simp add: file_eval)
  have "unat 0 < length (fio_pieces (toy_store [0, 0, 0] []))" by (simp add: toy_store_def)
  then show ?thesis
    using mismatch_is_final [OF list_file.file_laws_axioms _ w] w by blast
qed

text \<open>
  C32. Read your writes, for the file store behind its task, when the torrent's last piece is as
  long as the others: a successful read of a range that was successfully written returns the
  written block, with any messages in between that do not write into the range.
\<close>

theorem file_read_your_writes:
  assumes "file_laws F contents pos"
    and "file_io_new F torrent created = Ok io0"
    and "last_piece_size (fio_allocation io0) = max_piece_size (fio_allocation io0)"
    and "io_run (file_ops F H) (Some io0) before = (replies0, t0)"
    and "io_handler_write (file_ops F H) t0 i b blk = (Ok f, t1)"
    and "\<forall>m \<in> set msgs. leaves_alone (unat i) (unat b) (unat b + length blk) m"
    and "io_run (file_ops F H) t1 msgs = (replies, t2)"
    and "io_handler_read (file_ops F H) t2 i b n = (Ok bs, t3)" and "unat n = length blk"
  shows "bs = blk"
  by (rule file_laws.store_read_your_writes [OF assms(1) file_laws.file_io_new_inv [OF assms(1-3)] assms(4-)])

text \<open>A torrent of one three-byte piece, stored and read back.\<close>

definition tiny_torrent :: v1_torrent where
  "tiny_torrent = \<lparr>t_info = \<lparr>ti_length = 3, ti_piece_length = 3, ti_pieces = [\<lparr>piece_hash = [6]\<rparr>],
     ti_name = [], ti_info_hash = []\<rparr>, t_announce = [], t_announce_list = []\<rparr>"

lemma tiny_store_new: "file_io_new list_file_api tiny_torrent (Ok ([], 0)) = Ok (toy_store [0, 0, 0] [])"
proof -
  have rep: "replicate 3 (0 :: u8) = [0, 0, 0]" by (simp add: numeral_3_eq_3)
  have "allocate_torrent tiny_torrent = Some \<lparr>total_pieces = 1, max_piece_size = 3, last_piece_size = 3\<rparr>"
    by (simp add: tiny_torrent_def allocate_torrent_def i64_as_usize_def usize_mul_def usize_sub_def)
  then show ?thesis
    by (simp add: file_io_new_def tiny_torrent_def i64_as_usize_def usize_mul_def
        file_eval upt_rec file_piece_new_def slices_new_def rep)
qed

lemma file_read_your_writes_witness:
  "\<exists>t1 t3 bs. io_handler_write (file_ops list_file_api toy_digest) (Some (toy_store [0, 0, 0] [])) 0 0 [1, 2, 3] = (Ok True, t1) \<and>
     io_handler_read (file_ops list_file_api toy_digest) t1 0 0 3 = (Ok bs, t3) \<and> bs = [1, 2, 3]"
proof -
  let ?ops = "file_ops list_file_api toy_digest"
  let ?w = "io_handler_write ?ops (Some (toy_store [0, 0, 0] [])) 0 0 [1, 2, 3]"
  let ?r = "io_handler_read ?ops (snd ?w) 0 0 3"
  note new = tiny_store_new
  have w: "?w = (Ok True, snd ?w)"
    by (simp add: io_handler_write_def io_handler_task_def file_ops_def file_eval)
  have r: "?r = (Ok (res_val (fst ?r)), snd ?r)"
    by (simp add: io_handler_write_def io_handler_read_def io_handler_task_def file_ops_def file_eval file_read_piece_def)
  have "res_val (fst ?r) = [1, 2, 3]"
    by (rule file_read_your_writes [OF list_file.file_laws_axioms new _ _ w _ _ r, of "[]" "[]" "[]" "[]"])
      (simp_all add: toy_store_def)
  then show ?thesis using w r by metis
qed

text \<open>
  Where the pieces lie in the file: with equal piece lengths they tile it, and with a
  shorter last piece, of at least two, that piece's place begins inside an earlier piece.
\<close>

theorem last_piece_overlaps:
  assumes "file_io_new F torrent created = Ok io"
    and "2 \<le> total_pieces (fio_allocation io)"
    and "0 < last_piece_size (fio_allocation io)"
    and "last_piece_size (fio_allocation io) < max_piece_size (fio_allocation io)"
  shows "\<exists>j < total_pieces (fio_allocation io) - 1.
    fp_start_idx (fio_pieces io ! j) \<le> fp_start_idx (fio_pieces io ! (total_pieces (fio_allocation io) - 1)) \<and>
    fp_start_idx (fio_pieces io ! (total_pieces (fio_allocation io) - 1)) <
      fp_start_idx (fio_pieces io ! j) + fp_size (fio_pieces io ! j)"
  by (rule file_io_new_overlap [OF assms])

lemma last_piece_overlaps_witness:
  "\<exists>io. file_io_new list_file_api small_torrent (Ok ([], 0)) = Ok io \<and>
     (\<exists>j < 1. fp_start_idx (fio_pieces io ! j) \<le> fp_start_idx (fio_pieces io ! 1) \<and>
       fp_start_idx (fio_pieces io ! 1) < fp_start_idx (fio_pieces io ! j) + fp_size (fio_pieces io ! j))"
proof -
  let ?io = "res_val (file_io_new list_file_api small_torrent (Ok ([], 0)))"
  have new: "file_io_new list_file_api small_torrent (Ok ([], 0)) = Ok ?io"
    by (simp add: file_io_new_def small_torrent_allocation file_eval usize_mul_def upt_rec small_torrent_info i64_as_usize_def)
  moreover have "fio_allocation ?io = \<lparr>total_pieces = 2, max_piece_size = 8, last_piece_size = 3\<rparr>"
    using file_io_new_Ok(1) [OF new] by (simp add: small_torrent_allocation)
  ultimately show ?thesis
    using last_piece_overlaps [OF new] by auto
qed

end
