(* ===== verification/Client.thy ===== *)
theory Client
  imports Serving File_Io
begin

text \<open>
  The program put together, as \<open>start_processing\<close> of \<open>src/peer/mod.rs\<close> does it: one of the two
  stores, chosen by the configuration, boxed behind the trait, and the processor that drives
  it. With the file store a piece that the tracker counts as completed has, at any later time,
  the bytes whose hash the torrent gives: the store refuses to write to a complete piece, and
  no other write touches it.
\<close>

section \<open>The boxed store\<close>

text \<open>\<open>Box<dyn TorrentIO>\<close>: a value of one of the two implementations, with its methods.\<close>

datatype 'f boxed_io = FileIo "'f file_torrent_io" | MemoryIo memory_torrent_io

definition boxed_ops :: "'f file_api \<Rightarrow> digest_api \<Rightarrow> 'f boxed_io torrent_io_ops" where
  "boxed_ops F H =
     \<lparr>write_piece = (\<lambda>io index begin block.
        case io of
          FileIo f \<Rightarrow> map_prod id FileIo (file_write_piece F H f index begin block)
        | MemoryIo m \<Rightarrow> map_prod id MemoryIo (memory_write_piece m index begin block)),
      read_piece = (\<lambda>io index begin len.
        case io of
          FileIo f \<Rightarrow> map_prod id FileIo (file_read_piece F f index begin len)
        | MemoryIo m \<Rightarrow> map_prod id MemoryIo (memory_read_piece m index begin len))\<rparr>"

text \<open>The start of the program, up to the two tasks it spawns; creating the file is the caller's.\<close>

definition start_processing ::
  "'f file_api \<Rightarrow> (peer_error, 'f) res \<Rightarrow> v1_torrent \<Rightarrow> config \<Rightarrow> (peer_error, 'f boxed_io processor) res"
where
  "start_processing F created torrent cfg =
     res_bind
       (if use_file_writer cfg then res_bind (file_io_new F torrent created) (\<lambda>io. Ok (FileIo io))
        else res_bind (or_panic (memory_new torrent)) (\<lambda>io. Ok (MemoryIo io)))
       (\<lambda>io. Ok (processor_new cfg torrent io))"

section \<open>The contract of the boxed store\<close>

definition boxed_piece :: "('f \<Rightarrow> bytes) \<Rightarrow> 'f boxed_io \<Rightarrow> nat \<Rightarrow> bytes option" where
  "boxed_piece contents io = (case io of FileIo f \<Rightarrow> file_piece contents f | MemoryIo m \<Rightarrow> memory_piece m)"

definition boxed_inv :: "('f \<Rightarrow> bytes) \<Rightarrow> 'f boxed_io \<Rightarrow> bool" where
  "boxed_inv contents io = (case io of FileIo f \<Rightarrow> file_inv contents f | MemoryIo m \<Rightarrow> memory_inv m)"

lemma boxed_write_cases:
  assumes "write_piece (boxed_ops F H) io i b blk = (r, io')"
  obtains (on_file) f f' where "io = FileIo f" "io' = FileIo f'" "write_piece (file_ops F H) f i b blk = (r, f')"
  | (in_memory) m m' where "io = MemoryIo m" "io' = MemoryIo m'" "write_piece memory_ops m i b blk = (r, m')"
  using assms by (cases io) (auto simp: boxed_ops_def file_ops_def memory_ops_def map_prod_def split: prod.splits)

lemma boxed_read_cases:
  assumes "read_piece (boxed_ops F H) io i b n = (r, io')"
  obtains (on_file) f f' where "io = FileIo f" "io' = FileIo f'" "read_piece (file_ops F H) f i b n = (r, f')"
  | (in_memory) m m' where "io = MemoryIo m" "io' = MemoryIo m'" "read_piece memory_ops m i b n = (r, m')"
  using assms by (cases io) (auto simp: boxed_ops_def file_ops_def memory_ops_def map_prod_def split: prod.splits)

lemma boxed_simps [simp]:
  "boxed_piece contents (FileIo f) = file_piece contents f" "boxed_piece contents (MemoryIo m) = memory_piece m"
  "boxed_inv contents (FileIo f) = file_inv contents f" "boxed_inv contents (MemoryIo m) = memory_inv m"
  by (simp_all add: boxed_piece_def boxed_inv_def fun_eq_iff)

context file_laws
begin

lemma boxed_contract: "torrent_io (boxed_ops F H) (boxed_piece contents) (boxed_inv contents)"
proof
  fix io io' :: "'f boxed_io" and i b blk f
  assume inv: "boxed_inv contents io" and w: "write_piece (boxed_ops F H) io i b blk = (Ok f, io')"
  from w show "\<exists>c. boxed_piece contents io (unat i) = Some c \<and> unat b + length blk \<le> length c \<and>
      boxed_piece contents io' = (boxed_piece contents io)(unat i \<mapsto> overwrite c (unat b) blk)"
    by (cases rule: boxed_write_cases) (use inv torrent_io.write_Ok [OF contract] memory_io.write_Ok in auto)
next
  fix io io' :: "'f boxed_io" and i b blk r
  assume inv: "boxed_inv contents io" and w: "write_piece (boxed_ops F H) io i b blk = (r, io')"
  from w show "boxed_inv contents io'"
    by (cases rule: boxed_write_cases) (use inv torrent_io.write_inv [OF contract] memory_io.write_inv in auto)
  assume bad: "\<not> is_ok r"
  from w show "boxed_piece contents io' = boxed_piece contents io \<or>
      (\<exists>c k. boxed_piece contents io (unat i) = Some c \<and> k \<le> length blk \<and> unat b + length blk \<le> length c \<and>
        boxed_piece contents io' = (boxed_piece contents io)(unat i \<mapsto> overwrite c (unat b) (take k blk)))"
  proof (cases rule: boxed_write_cases)
    case (on_file f f')
    then show ?thesis using torrent_io.write_fails [OF contract _ on_file(3) bad] inv by simp
  next
    case (in_memory m m')
    then show ?thesis using memory_io.write_fails [OF _ in_memory(3) bad] inv by simp
  qed
next
  fix io io' :: "'f boxed_io" and i b n r
  assume inv: "boxed_inv contents io" and w: "read_piece (boxed_ops F H) io i b n = (r, io')"
  from w show "boxed_inv contents io' \<and> boxed_piece contents io' = boxed_piece contents io"
  proof (cases rule: boxed_read_cases)
    case (on_file f f')
    then show ?thesis using torrent_io.read_keeps [OF contract _ on_file(3)] inv by simp
  next
    case (in_memory m m')
    then show ?thesis using memory_io.read_keeps [OF _ in_memory(3)] inv by simp
  qed
next
  fix io io' :: "'f boxed_io" and i b n bs
  assume inv: "boxed_inv contents io" and w: "read_piece (boxed_ops F H) io i b n = (Ok bs, io')"
  from w show "\<exists>c. boxed_piece contents io (unat i) = Some c \<and> unat b + unat n \<le> length c \<and>
      bs = take (unat n) (drop (unat b) c)"
  proof (cases rule: boxed_read_cases)
    case (on_file f f')
    then show ?thesis using torrent_io.read_Ok [OF contract _ on_file(3)] inv by simp
  next
    case (in_memory m m')
    then show ?thesis using memory_io.read_Ok [OF _ in_memory(3)] inv by simp
  qed
qed

end

interpretation boxed: torrent_io "boxed_ops list_file_api H" "boxed_piece fst" "boxed_inv fst" for H
  by (rule list_file.boxed_contract)

section \<open>Verified pieces stay verified\<close>

text \<open>A piece that is complete in the file store and whose bytes have the expected hash.\<close>

definition verified :: "('f \<Rightarrow> bytes) \<Rightarrow> digest_api \<Rightarrow> 'f file_torrent_io \<Rightarrow> u32 \<Rightarrow> bool" where
  "verified contents H io index \<longleftrightarrow>
     unat index < length (fio_pieces io) \<and> is_complete (fp_slices (fio_pieces io ! unat index)) \<and>
     (\<exists>c. file_piece contents io (unat index) = Some c \<and> sha1 H c = fp_hash (fio_pieces io ! unat index))"

text \<open>The hashes a store compares with, which no operation changes.\<close>

abbreviation hashes :: "'f file_torrent_io \<Rightarrow> bytes list" where
  "hashes io \<equiv> map fp_hash (fio_pieces io)"

context file_laws
begin

lemma write_verified:
  assumes inv: "file_inv contents io" and w: "file_write_piece F H io index off blk = (r, io')"
  shows "hashes io' = hashes io \<and> (verified contents H io k \<longrightarrow> verified contents H io' k) \<and>
    (r = Ok True \<longrightarrow> verified contents H io' index)"
proof -
  have same: "hashes io' = hashes io \<and>
      (unat k \<noteq> unat index \<longrightarrow> fio_pieces io' ! unat k = fio_pieces io ! unat k) \<and>
      (io' \<noteq> io \<longrightarrow> unat index < length (fio_pieces io) \<and> \<not> is_complete (fp_slices (fio_pieces io ! unat index)))"
    using w
  proof (cases rule: file_write_cases)
    case (store len)
    from store(5,1) show ?thesis
    proof (cases rule: file_store_cases)
      case (stored u f1 fin s f2)
      then have "hashes io' = hashes io" using store(1) by (simp add: map_update) (metis list_update_id nth_map length_map)
      then show ?thesis using stored store by simp
    qed (use store in simp)
  qed simp
  note effect = file_write_effect [OF inv w]
  have piece: "unat k \<noteq> unat index \<Longrightarrow> file_piece contents io' (unat k) = file_piece contents io (unat k)"
    using effect by auto
  have keep: "verified contents H io' k" if v: "verified contents H io k"
  proof (cases "io' = io")
    case False
    then have "unat k \<noteq> unat index" using v same by (auto simp: verified_def)
    moreover have "length (fio_pieces io') = length (fio_pieces io)"
      using arg_cong [OF conjunct1 [OF same], of length] by simp
    ultimately show ?thesis using v same piece by (simp add: verified_def)
  qed (use v in simp)
  have new: "verified contents H io' index" if "r = Ok True"
  proof -
    have w': "file_write_piece F H io index off blk = (Ok True, io')" using w that by simp
    obtain c where c: "file_piece contents io' (unat index) = Some c" "sha1 H c = fp_hash (fio_pieces io ! unat index)"
      "is_complete (fp_slices (fio_pieces io' ! unat index))"
      using file_write_finished [OF w'] by blast
    then have "unat index < length (fio_pieces io')" by (auto simp: file_piece_def split: if_splits)
    moreover from this same have "fp_hash (fio_pieces io' ! unat index) = fp_hash (fio_pieces io ! unat index)"
      by (metis length_map nth_map)
    ultimately show ?thesis using c by (simp add: verified_def)
  qed
  show ?thesis using same keep new by blast
qed

lemma read_verified:
  assumes inv: "file_inv contents io" and rd: "file_read_piece F io index off n = (r, io')"
  shows "hashes io' = hashes io \<and> (verified contents H io k \<longrightarrow> verified contents H io' k)"
proof -
  have "fio_pieces io' = fio_pieces io"
    using rd by (cases rule: file_read_cases) auto
  then show ?thesis
    using file_read_effect [OF inv rd] by (simp add: verified_def)
qed

end

section \<open>The processor over the file store\<close>

text \<open>
  A predicate on the I/O task that a write of a handler and any read keep: it holds along every
  step of the processor. Handlers are the only writers.
\<close>

lemma serve_requests_io:
  assumes "\<And>t i b n. P t \<Longrightarrow> P (snd (io_handler_read ops t i b n))"
  shows "P io \<Longrightarrow> P (fst (serve_requests ops peer_to_tx deque io chs))"
proof (induction deque arbitrary: io chs)
  case (Cons dq deque)
  obtain r io' where read: "io_handler_read ops io (req_index dq) (req_begin dq) (req_length dq) = (r, io')"
    by fastforce
  then have "P io'" using assms [OF Cons.prems, of "req_index dq" "req_begin dq" "req_length dq"] by simp
  then show ?case using Cons read by (cases r) (auto split: option.split)
qed simp

lemma process_wakeup_io:
  assumes "\<And>t i b n. P t \<Longrightarrow> P (snd (io_handler_read ops t i b n))" and "P (pr_io pr)"
  shows "P (pr_io (process_wakeup ops iter now msg pr))"
  using assms(2) serve_requests_io [of P ops, OF assms]
  by (auto simp: process_wakeup_def dequeue_requests_def Let_def split: prod.splits option.splits)
    (metis fst_conv)

lemma handle_msg_io:
  assumes "handle_msg ops p tx msg (s, chs, io) = (status, s', chs', io')"
  shows "(\<exists>index off blk r. io_handler_write ops io index off blk = (r, io') \<and> status = Writing index off r) \<or>
    (io' = io \<and> (\<forall>index off r. status \<noteq> Writing index off r))"
  using assms
  by (cases msg) (auto simp: Let_def tell_interest_def split: prod.splits option.splits bool.splits if_splits)

text \<open>The pieces that are completed, or that a handler was just told are finished.\<close>

definition finished_writes :: "handler list \<Rightarrow> u32 set" where
  "finished_writes hs = {index. \<exists>h \<in> set hs. \<exists>off. h_status h = Writing index off (Ok True)}"

definition claimed :: "'io processor \<Rightarrow> u32 set" where
  "claimed pr = pieces_completed (ts_tracking (pr_state pr)) \<union> finished_writes (pr_handlers pr)"

lemma finished_writes_update:
  "finished_writes (hs[i := h\<lparr>h_status := status\<rparr>]) \<subseteq>
     finished_writes hs \<union> {index. \<exists>off. status = Writing index off (Ok True)}"
  by (auto simp: finished_writes_def dest!: set_update_subset_insert [THEN subsetD])

lemma finished_writes_append:
  "finished_writes (hs @ [\<lparr>h_peer = p, h_conn = c, h_status = Idle\<rparr>]) = finished_writes hs"
  by (simp add: finished_writes_def)

lemma accept_peer_handlers:
  "pr_handlers (accept_peer A p is_open pr) = pr_handlers pr \<or>
   (\<exists>c. pr_handlers (accept_peer A p is_open pr) = pr_handlers pr @ [\<lparr>h_peer = p, h_conn = c, h_status = Idle\<rparr>])"
  by (simp add: accept_peer_def Let_def split: option.split prod.split bool.split)

text \<open>What a step adds to the claimed pieces: only a write that the store answered so.\<close>

lemma claimed_step:
  assumes A: "bytes_laws A" and iter: "hash_iteration iter" and inv: "processor_inv torrent max_out pr"
    and step: "processor_step ops A iter pr ev pr'"
    and reads: "\<And>t i b n. P (claimed pr) t \<Longrightarrow> P (claimed pr) (snd (io_handler_read ops t i b n))"
    and writes: "\<And>t i b blk. P (claimed pr) t \<Longrightarrow>
      P (claimed pr \<union> (if fst (io_handler_write ops t i b blk) = Ok True then {i} else {})) (snd (io_handler_write ops t i b blk))"
    and mono: "\<And>S S' t. P S t \<Longrightarrow> S' \<subseteq> S \<Longrightarrow> P S' t"
    and old: "P (claimed pr) (pr_io pr)"
  shows "P (claimed pr') (pr_io pr')"
proof -
  note completed = completed_step [OF A iter inv step]
  from step show ?thesis
  proof cases
    case (peer_starts p is_open)
    have "finished_writes (pr_handlers pr') = finished_writes (pr_handlers pr)"
      using accept_peer_handlers [of A p is_open pr] peer_starts
      by (auto simp: finished_writes_append)
    then show ?thesis using old completed peer_starts by (simp add: claimed_def)
  next
    case (peer_sends i msg)
    let ?h = "pr_handlers pr ! i"
    obtain status s chs io where h: "handle_msg ops (h_peer ?h) (h_conn ?h) msg (pr_state pr, pr_channels pr, pr_io pr) =
        (status, s, chs, io)" by (metis prod_cases4)
    have pr': "pr_io pr' = io" "pr_handlers pr' = (pr_handlers pr)[i := ?h\<lparr>h_status := status\<rparr>]"
      using peer_sends h by (simp_all add: deliver_def set_status_def Let_def)
    have new: "claimed pr' \<subseteq> claimed pr \<union> {index. \<exists>off. status = Writing index off (Ok True)}"
      using completed peer_sends pr'(2) finished_writes_update [of "pr_handlers pr" i status ?h] by (auto simp: claimed_def)
    from handle_msg_io [OF h] show ?thesis
    proof (elim disjE exE conjE)
      fix index off blk r
      assume w: "io_handler_write ops (pr_io pr) index off blk = (r, io)" "status = Writing index off r"
      have "claimed pr' \<subseteq> claimed pr \<union> (if r = Ok True then {index} else {})" using new w(2) by auto
      then show ?thesis
        using mono [OF writes [OF old, of index off blk]] unfolding w(1) pr'(1) by simp
    next
      assume "io = pr_io pr" "\<forall>index off r. status \<noteq> Writing index off r"
      then show ?thesis using mono [OF old] new pr'(1) by auto
    qed
  next
    case (write_answered i index off res)
    let ?h = "pr_handlers pr ! i"
    obtain status s where f: "finish_write index off res (pr_state pr) = (status, s)" by fastforce
    then have quiet: "\<forall>index off r. status \<noteq> Writing index off r"
      by (auto simp: finish_write_def split: res.splits if_splits)
    have pr': "pr_io pr' = pr_io pr" "pr_handlers pr' = (pr_handlers pr)[i := ?h\<lparr>h_status := status\<rparr>]"
      using write_answered f by (simp_all add: write_answered_def set_status_def)
    have "completes pr ev \<subseteq> finished_writes (pr_handlers pr)"
      using write_answered nth_mem [OF write_answered(4)] by (auto simp: finished_writes_def)
    then have "claimed pr' \<subseteq> claimed pr"
      using completed pr'(2) finished_writes_update [of "pr_handlers pr" i status ?h] quiet by (auto simp: claimed_def)
    then show ?thesis using mono [OF old] pr'(1) by simp
  next
    case (wake_received msg rest now)
    have "P (claimed pr) (pr_io pr')"
      using process_wakeup_io [of "P (claimed pr)" ops "pr\<lparr>pr_wakeups := rest\<rparr>", OF reads] old wake_received by simp
    moreover have "processor_inv torrent max_out (pr\<lparr>pr_wakeups := rest\<rparr>)" using inv by (simp add: processor_inv_def)
    from process_wakeup_spec [OF this, of iter now msg ops] have "pr_handlers pr' = pr_handlers pr"
      using wake_received by (auto simp: wake_post_def Let_def)
    ultimately show ?thesis using completed wake_received by (simp add: claimed_def)
  next
    case (timer_ticks now)
    then have "pr_handlers pr' = pr_handlers pr" "pr_io pr' = pr_io pr"
      by (simp_all add: timer_tick_eq [OF iter] Let_def split: prod.split)
    then show ?thesis using old completed timer_ticks by (simp add: claimed_def)
  next
    case (handler_done i)
    have "set (remove_at i (pr_handlers pr)) \<subseteq> set (pr_handlers pr)"
      unfolding remove_at_def using set_take_subset [of i] set_drop_subset [of "Suc i"] by fastforce
    then have "finished_writes (pr_handlers pr') \<subseteq> finished_writes (pr_handlers pr)" "pr_io pr' = pr_io pr"
      using handler_done by (auto simp: finished_writes_def reap_handler_def Let_def)
    then show ?thesis using mono [OF old, of "claimed pr'"] completed handler_done by (auto simp: claimed_def)
  next
    case (peer_hangs_up i)
    then have "claimed pr' \<subseteq> claimed pr" "pr_io pr' = pr_io pr"
      using completed finished_writes_update [of "pr_handlers pr" i Returned "pr_handlers pr ! i"]
      by (auto simp: claimed_def set_status_def)
    then show ?thesis using mono [OF old] by simp
  next
    case (wake_sent i msg)
    then have "claimed pr' \<subseteq> claimed pr" "pr_io pr' = pr_io pr"
      using completed finished_writes_update [of "pr_handlers pr" i Idle "pr_handlers pr ! i"]
      by (auto simp: claimed_def set_status_def)
    then show ?thesis using mono [OF old] by simp
  next
    case (channel_closes c)
    then show ?thesis using old by (simp add: claimed_def)
  qed
qed

text \<open>For the boxed file store: its invariant, its hashes, and the claimed pieces verified.\<close>

definition store_ok ::
  "('f \<Rightarrow> bytes) \<Rightarrow> digest_api \<Rightarrow> bytes list \<Rightarrow> u32 set \<Rightarrow> 'f boxed_io option \<Rightarrow> bool"
where
  "store_ok contents H hs S task \<longleftrightarrow>
     (case task of
        None \<Rightarrow> True
      | Some (MemoryIo m) \<Rightarrow> False
      | Some (FileIo io) \<Rightarrow> file_inv contents io \<and> hashes io = hs \<and> (\<forall>k \<in> S. verified contents H io k))"

lemma store_ok_mono: "store_ok contents H hs S t \<Longrightarrow> S' \<subseteq> S \<Longrightarrow> store_ok contents H hs S' t"
  by (auto simp: store_ok_def split: option.splits boxed_io.splits)

context file_laws
begin

lemma store_ok_write:
  assumes "store_ok contents H hs S t"
  shows "store_ok contents H hs (S \<union> (if fst (io_handler_write (boxed_ops F H) t i b blk) = Ok True then {i} else {}))
    (snd (io_handler_write (boxed_ops F H) t i b blk))"
proof (cases t)
  case None
  then show ?thesis by (simp add: io_handler_write_def io_handler_task_def store_ok_def)
next
  case (Some io)
  then obtain f where f: "io = FileIo f" "file_inv contents f" "hashes f = hs" "\<forall>k \<in> S. verified contents H f k"
    using assms by (auto simp: store_ok_def split: boxed_io.splits)
  obtain r f' where w: "file_write_piece F H f i b blk = (r, f')" by fastforce
  have "file_inv contents f'" using file_write_effect [OF f(2) w] f(2) by auto
  moreover have "hashes f' = hs" "\<forall>k \<in> S. verified contents H f' k" "r = Ok True \<Longrightarrow> verified contents H f' i"
    using write_verified [OF f(2) w] f(3,4) by auto
  moreover have "io_handler_write (boxed_ops F H) t i b blk =
      (if answer r then (r, Some (FileIo f')) else (Err handler_exits, None))"
    by (simp add: Some f(1) io_handler_write_def io_handler_task_def boxed_ops_def w)
  ultimately show ?thesis by (simp add: store_ok_def)
qed

lemma store_ok_read:
  assumes "store_ok contents H hs S t"
  shows "store_ok contents H hs S (snd (io_handler_read (boxed_ops F H) t i b n))"
proof (cases t)
  case None
  then show ?thesis by (simp add: io_handler_read_def io_handler_task_def store_ok_def)
next
  case (Some io)
  then obtain f where f: "io = FileIo f" "file_inv contents f" "hashes f = hs" "\<forall>k \<in> S. verified contents H f k"
    using assms by (auto simp: store_ok_def split: boxed_io.splits)
  obtain r f' where w: "file_read_piece F f i b n = (r, f')" by fastforce
  have "file_inv contents f'" using file_read_effect [OF f(2) w] by simp
  moreover have "hashes f' = hs" "\<forall>k \<in> S. verified contents H f' k"
    using read_verified [OF f(2) w] f(3,4) by auto
  moreover have "io_handler_read (boxed_ops F H) t i b n =
      (if answer r then (r, Some (FileIo f')) else (Err handler_exits, None))"
    by (simp add: Some f(1) io_handler_read_def io_handler_task_def boxed_ops_def w)
  ultimately show ?thesis by (simp add: store_ok_def)
qed

end

text \<open>The runs of the program with a given start.\<close>

definition started_as :: "('e, 'io processor) res \<Rightarrow> v1_torrent \<Rightarrow> 'io processor \<Rightarrow> bool" where
  "started_as start torrent pr \<longleftrightarrow> torrent_ok torrent \<and> start = Ok pr"

lemma started_reachable:
  assumes "reachable (started_as (start_processing F created torrent cfg) torrent) step pr"
  shows "reachable (processor_init torrent (max_outstanding_requests cfg)) step pr"
  using assms
proof (induction rule: reachable.induct)
  case (start pr)
  then have "processor_init torrent (max_outstanding_requests cfg) pr"
    unfolding processor_init_def
    by (auto simp: started_as_def start_processing_def res_bind_Ok_iff split: if_splits)
  then show ?case by (rule reachable.start)
qed (rule reachable.next_state)

lemma file_laws_download:
  assumes F: "file_laws F contents pos" and A: "bytes_laws A" and iter: "hash_iteration iter"
    and cfg: "use_file_writer cfg" and new: "file_io_new F torrent created = Ok io0"
    and even: "last_piece_size (fio_allocation io0) = max_piece_size (fio_allocation io0)"
    and reach: "reachable (started_as (start_processing F created torrent cfg) torrent)
      (processor_step (boxed_ops F H) A iter) pr"
  shows "store_ok contents H (hashes io0) (claimed pr) (pr_io pr)"
  using reach
proof (induction rule: reachable.induct)
  case (start pr)
  then have "pr = processor_new cfg torrent (FileIo io0)"
    using new cfg by (simp add: started_as_def start_processing_def)
  then show ?case
    using file_laws.file_io_new_inv [OF F new even]
    by (simp add: store_ok_def claimed_def finished_writes_def processor_new_def torrent_state_new_def tracker_new_def)
next
  case (next_state pr ev pr')
  have inv: "processor_inv torrent (max_outstanding_requests cfg) pr"
    by (rule invariant_system.reachable_inv [OF processor_machine [OF A iter] started_reachable [OF next_state.hyps(1)]])
  show ?case
    by (rule claimed_step [OF A iter inv next_state.hyps(2) file_laws.store_ok_read [OF F] file_laws.store_ok_write [OF F]
          store_ok_mono next_state.IH])
qed

text \<open>
  C3. End to end, with the file store and a torrent whose last piece is as long as the others:
  in every state the program can reach while its I/O task lives, each piece the tracker counts
  as completed is a piece of the torrent, and the bytes at its place in the file have the hash
  the torrent gives for it.
\<close>

theorem downloaded_pieces_verified:
  assumes "file_laws F contents pos" and "bytes_laws A" and "hash_iteration iter"
    and "use_file_writer cfg" and "file_io_new F torrent created = Ok io0"
    and "last_piece_size (fio_allocation io0) = max_piece_size (fio_allocation io0)"
    and "reachable (started_as (start_processing F created torrent cfg) torrent)
      (processor_step (boxed_ops F H) A iter) pr"
    and "pr_io pr = Some task" and "index \<in> pieces_completed (ts_tracking (pr_state pr))"
  shows "unat index < length (ti_pieces (t_info torrent)) \<and>
    (\<exists>c. boxed_piece contents task (unat index) = Some c \<and>
      sha1 H c = piece_hash (ti_pieces (t_info torrent) ! unat index))"
proof -
  have ok: "store_ok contents H (hashes io0) (claimed pr) (Some task)"
    using file_laws_download [OF assms(1-7)] assms(8) by simp
  then obtain io where io: "task = FileIo io" "hashes io = hashes io0" "verified contents H io index"
    using assms(9) by (auto simp: store_ok_def claimed_def split: boxed_io.splits)
  note facts = file_io_new_Ok [OF assms(5)]
  have len: "length (fio_pieces io) = length (fio_pieces io0)" using arg_cong [OF io(2), of length] by simp
  have total: "total_pieces (fio_allocation io0) = length (ti_pieces (t_info torrent))"
    using facts(1) by (auto simp: allocate_torrent_Some_iff Let_def)
  then have i: "unat index < length (ti_pieces (t_info torrent))"
    using io(3) len facts(2) by (simp add: verified_def)
  then have "fp_hash (fio_pieces io ! unat index) = fp_hash (fio_pieces io0 ! unat index)"
    using len facts(2) total by (metis io(2) nth_map)
  also have "\<dots> = piece_hash (ti_pieces (t_info torrent) ! unat index)"
    using file_io_new_nth(6) [OF assms(5)] i total by simp
  finally show ?thesis using i io(1,3) by (auto simp: verified_def)
qed

text \<open>One peer sends the only piece of a three-byte torrent.\<close>

lemma first_peer:
  assumes "processor_inv torrent n pr" "pr_handlers pr = []" "pr_channels pr = []"
  shows "pr_handlers (accept_peer list_bytes p True pr) = [\<lparr>h_peer = p, h_conn = 0, h_status = Idle\<rparr>]"
    "pr_loop (accept_peer list_bytes p True pr) = pr_loop pr"
  using accept_peer_eq [OF list_bytes.bytes_laws_axioms assms(1), of p True] assms(2,3)
  by (auto simp: Let_def simp del: send_all_simps)

lemma tiny_torrent_ok: "torrent_ok tiny_torrent"
  by (simp add: torrent_ok_def tiny_torrent_def torrent_wf_def Let_def i64_as_usize_def)

abbreviation tiny_step :: "list_file boxed_io processor \<Rightarrow> event \<Rightarrow> list_file boxed_io processor \<Rightarrow> bool" where
  "tiny_step \<equiv> processor_step (boxed_ops list_file_api toy_digest) list_bytes sorted_iter"

abbreviation tiny_reachable :: "list_file boxed_io processor \<Rightarrow> bool" where
  "tiny_reachable \<equiv> reachable (started_as (start_processing list_file_api (Ok ([], 0)) tiny_torrent default_config) tiny_torrent) tiny_step"

definition tiny0 :: "list_file boxed_io processor" where
  "tiny0 = processor_new default_config tiny_torrent (FileIo (toy_store [0, 0, 0] []))"

definition tiny1 :: "list_file boxed_io processor" where
  "tiny1 = accept_peer list_bytes [1] True tiny0"

definition tiny2 :: "list_file boxed_io processor" where
  "tiny2 = deliver (boxed_ops list_file_api toy_digest) 0 (Piece 0 0 [1, 2, 3]) tiny1"

definition tiny3 :: "list_file boxed_io processor" where
  "tiny3 = write_answered 0 0 0 (Ok True) tiny2"

lemma tiny_start: "started_as (start_processing list_file_api (Ok ([], 0)) tiny_torrent default_config) tiny_torrent tiny0"
  by (simp add: started_as_def start_processing_def default_config_def tiny_store_new tiny_torrent_ok tiny0_def)

lemma tiny0_reachable: "tiny_reachable tiny0"
  by (rule reachable.start) (rule tiny_start)

lemma tiny0_facts: "pr_loop tiny0 = Looping" "pr_handlers tiny0 = []" "pr_channels tiny0 = []"
  by (simp_all add: tiny0_def processor_new_def)

lemma tiny1_facts: "pr_handlers tiny1 = [\<lparr>h_peer = [1], h_conn = 0, h_status = Idle\<rparr>]" "pr_loop tiny1 = Looping"
  "pr_io tiny1 = Some (FileIo (toy_store [0, 0, 0] []))"
proof -
  have inv: "processor_inv tiny_torrent (max_outstanding_requests default_config) tiny0"
    by (rule processor.reachable_inv [OF started_reachable [OF tiny0_reachable]])
  show "pr_handlers tiny1 = [\<lparr>h_peer = [1], h_conn = 0, h_status = Idle\<rparr>]" "pr_loop tiny1 = Looping"
    "pr_io tiny1 = Some (FileIo (toy_store [0, 0, 0] []))"
    using first_peer [OF inv tiny0_facts(2,3), of "[1]"] by (simp_all add: tiny1_def tiny0_def processor_new_def)
qed

lemma tiny2_facts: "pr_handlers tiny2 = [\<lparr>h_peer = [1], h_conn = 0, h_status = Writing 0 0 (Ok True)\<rparr>]"
  "pr_loop tiny2 = Looping" "pr_io tiny2 \<noteq> None"
proof -
  let ?w = "io_handler_write (boxed_ops list_file_api toy_digest) (pr_io tiny1) 0 0 [1, 2, 3]"
  have "?w = (Ok True, snd ?w)" "snd ?w \<noteq> None"
    by (simp_all add: tiny1_facts io_handler_write_def io_handler_task_def boxed_ops_def file_eval)
  then obtain io where io: "?w = (Ok True, io)" "io \<noteq> None" by metis
  show "pr_handlers tiny2 = [\<lparr>h_peer = [1], h_conn = 0, h_status = Writing 0 0 (Ok True)\<rparr>]"
    "pr_loop tiny2 = Looping" "pr_io tiny2 \<noteq> None"
    using io(2) by (simp_all add: tiny2_def deliver_def Let_def tiny1_facts(1,2) io(1) set_status_def)
qed

lemma tiny_steps: "tiny_step tiny0 (PeerStarts [1] True) tiny1"
  "tiny_step tiny1 (PeerSends 0 (Piece 0 0 [1, 2, 3])) tiny2" "tiny_step tiny2 (WriteAnswered 0) tiny3"
proof -
  show "tiny_step tiny0 (PeerStarts [1] True) tiny1"
    unfolding tiny1_def by (rule processor_step.peer_starts [OF tiny0_facts(1)])
  show "tiny_step tiny1 (PeerSends 0 (Piece 0 0 [1, 2, 3])) tiny2"
    unfolding tiny2_def by (rule processor_step.peer_sends) (simp_all add: tiny1_facts)
  show "tiny_step tiny2 (WriteAnswered 0) tiny3"
    unfolding tiny3_def by (rule processor_step.write_answered) (simp_all add: tiny2_facts)
qed

lemma tiny_run: "tiny_reachable tiny3" "0 \<in> pieces_completed (ts_tracking (pr_state tiny3))" "pr_io tiny3 \<noteq> None"
  "pr_handlers tiny3 \<noteq> []"
proof -
  show "tiny_reachable tiny3"
    using tiny0_reachable tiny_steps by (blast intro: reachable.next_state)
  show "0 \<in> pieces_completed (ts_tracking (pr_state tiny3))" "pr_io tiny3 \<noteq> None" "pr_handlers tiny3 \<noteq> []"
    using tiny2_facts by (simp_all add: tiny3_def write_answered_def finish_write_def set_status_def set_piece_finished_def)
qed

lemma downloaded_pieces_verified_witness:
  "\<exists>task c. tiny_reachable tiny3 \<and> pr_io tiny3 = Some task \<and> 0 \<in> pieces_completed (ts_tracking (pr_state tiny3)) \<and>
     boxed_piece fst task 0 = Some c \<and> sha1 toy_digest c = [6]"
proof -
  obtain task where task: "pr_io tiny3 = Some task" using tiny_run(3) by auto
  have "use_file_writer default_config" by (simp add: default_config_def)
  from downloaded_pieces_verified [OF list_file.file_laws_axioms list_bytes.bytes_laws_axioms
      sorted_iter.hash_iteration_axioms this tiny_store_new _ tiny_run(1) task tiny_run(2)]
  show ?thesis using tiny_run(1,2) task by (simp add: toy_store_def tiny_torrent_def)
qed

end
