(* ===== verification/Bencode.thy ===== *)
theory Bencode
  imports Ordered_Map Model_Types "HOL-Library.List_Lexorder"
begin

text \<open>
  The values and the encoder of \<open>src/file/bencode.rs\<close>, and the decimal numbers that
  \<open>format!\<close> prints. A \<open>ByteString\<close> derives its order from the bytes, so the library's
  class \<open>linorder\<close> is instantiated with the lexicographic order and a dictionary is a
  \<open>BTreeMap\<close> over it (\<open>Ordered_Map\<close>).
\<close>

section \<open>Values\<close>

datatype byte_string = Byte_string (elements: bytes)

instantiation byte_string :: linorder
begin

definition less_eq_byte_string :: "byte_string \<Rightarrow> byte_string \<Rightarrow> bool" where
  "less_eq_byte_string x y = (elements x \<le> elements y)"

definition less_byte_string :: "byte_string \<Rightarrow> byte_string \<Rightarrow> bool" where
  "less_byte_string x y = (elements x < elements y)"

instance
proof
  fix x y z :: byte_string
  show "(x < y) = (x \<le> y \<and> \<not> y \<le> x)" "x \<le> x" "x \<le> y \<or> y \<le> x"
    by (auto simp: less_eq_byte_string_def less_byte_string_def)
  show "x \<le> y \<Longrightarrow> y \<le> z \<Longrightarrow> x \<le> z" by (auto simp: less_eq_byte_string_def)
  show "x \<le> y \<Longrightarrow> y \<le> x \<Longrightarrow> x = y" by (simp add: less_eq_byte_string_def byte_string.expand)
qed

end

datatype bencode =
    Int_value i64
  | ByteString byte_string
  | List "bencode list"
  | Dictionary "(byte_string \<times> bencode) list"

type_synonym dict_t = "(byte_string, bencode) btree"

section \<open>Decimal numbers\<close>

text \<open>What \<open>format!\<close> prints for an integer.\<close>

fun nat_text :: "nat \<Rightarrow> bytes" where
  "nat_text n = (if n < 10 then [of_nat (48 + n)] else nat_text (n div 10) @ [of_nat (48 + n mod 10)])"

declare nat_text.simps [simp del]

definition int_text :: "int \<Rightarrow> bytes" where
  "int_text k = (if k < 0 then 45 # nat_text (nat (- k)) else nat_text (nat k))"

text \<open>And what a string of digits means.\<close>

definition is_digit :: "u8 \<Rightarrow> bool" where
  "is_digit b \<longleftrightarrow> 48 \<le> b \<and> b \<le> 57"

definition number :: "bytes \<Rightarrow> nat" where
  "number ds = foldl (\<lambda>n d. 10 * n + (unat d - 48)) 0 ds"

section \<open>The encoder\<close>

definition encode_int :: "i64 \<Rightarrow> bytes" where
  "encode_int i = ascii ''i'' @ int_text (sint i) @ ascii ''e''"

definition encode_bs :: "byte_string \<Rightarrow> bytes" where
  "encode_bs bs = nat_text (length (elements bs)) @ ascii '':'' @ elements bs"

fun encode :: "bencode \<Rightarrow> bytes" and encode_list :: "bencode list \<Rightarrow> bytes"
  and encode_dictionary :: "(byte_string \<times> bencode) list \<Rightarrow> bytes"
where
  "encode (Int_value i) = encode_int i"
| "encode (ByteString bs) = encode_bs bs"
| "encode (List l) = ascii ''l'' @ encode_list l @ ascii ''e''"
| "encode (Dictionary d) = ascii ''d'' @ encode_dictionary d @ ascii ''e''"
| "encode_list [] = []"
| "encode_list (x # xs) = encode x @ encode_list xs"
| "encode_dictionary [] = []"
| "encode_dictionary ((k, v) # d) = encode_bs k @ encode v @ encode_dictionary d"

section \<open>Facts about decimal numbers\<close>

lemma digit_byte: "n < 10 \<Longrightarrow> is_digit (of_nat (48 + n)) \<and> unat (of_nat (48 + n) :: u8) = 48 + n"
proof -
  assume "n < 10"
  then have u: "unat (of_nat (48 + n) :: u8) = 48 + n" by (subst unat_of_nat) (simp add: take_bit_nat_def)
  then have "is_digit (of_nat (48 + n))"
    using \<open>n < 10\<close> unfolding is_digit_def word_le_nat_alt u by simp
  then show ?thesis using u by blast
qed

lemma nat_text_facts: "nat_text n \<noteq> [] \<and> list_all is_digit (nat_text n) \<and> number (nat_text n) = n"
proof (induction n rule: nat_text.induct)
  case (1 n)
  show ?case
  proof (cases "n < 10")
    case True
    then show ?thesis
      using digit_byte [of n] by (subst (1 2 3) nat_text.simps) (simp add: number_def)
  next
    case False
    have "number (nat_text (n div 10)) = n div 10" "list_all is_digit (nat_text (n div 10))"
      using 1 False by simp_all
    then show ?thesis
      using False digit_byte [of "n mod 10"] by (subst (1 2 3) nat_text.simps) (simp add: number_def)
  qed
qed

lemma nat_text_digits: "nat_text n \<noteq> []" "list_all is_digit (nat_text n)" "number (nat_text n) = n"
  using nat_text_facts by simp_all

lemma digit_bytes: "\<not> is_digit 58" "\<not> is_digit 101" "\<not> is_digit 105" "\<not> is_digit 108" "\<not> is_digit 100" "\<not> is_digit 45"
  by (simp_all add: is_digit_def)

lemma ascii_bytes: "ascii ''i'' = [105]" "ascii ''e'' = [101]" "ascii ''l'' = [108]" "ascii ''d'' = [100]" "ascii '':'' = [58]"
  by (simp_all add: ascii_def)

end
