(* ===== verification/Bencode_Parse.thy ===== *)
theory Bencode_Parse
  imports Bencode
begin

text \<open>
  The parser of \<open>src/file/bencode.rs\<close>. The combinators come from the crate \<open>nom\<close>, which is
  not under \<open>src/\<close>: they are a record of functions, and the locale \<open>nom_laws\<close> states what
  its documentation says of each. \<open>nom_instance\<close> is an implementation of the record that
  satisfies the laws and evaluates.

  The parser of values calls itself through \<open>many_till\<close>, so its depth is bounded by the
  thread's stack. The fuel counts that depth, and running out of it is the outcome
  \<open>Overflow\<close>, which no combinator recovers from. \<open>Bencode_Properties\<close> shows that an
  input of \<open>n\<close> bytes never needs more than \<open>n + 1\<close>.
\<close>

section \<open>The combinators\<close>

datatype 'a parsed =
    Parsed (leftover: bytes) (parsed_value: 'a)
  | Parse_error
  | Overflow

fun and_then :: "'a parsed \<Rightarrow> (bytes \<Rightarrow> 'a \<Rightarrow> 'b parsed) \<Rightarrow> 'b parsed" where
  "and_then (Parsed rest x) f = f rest x"
| "and_then Parse_error f = Parse_error"
| "and_then Overflow f = Overflow"

record nom_api =
  nom_tag :: "bytes \<Rightarrow> bytes \<Rightarrow> bytes parsed"
  nom_take :: "u32 \<Rightarrow> bytes \<Rightarrow> bytes parsed"
  nom_i64 :: "bytes \<Rightarrow> i64 parsed"
  nom_u32 :: "bytes \<Rightarrow> u32 parsed"
  nom_delimited :: "(bytes \<Rightarrow> bytes parsed) \<Rightarrow> (bytes \<Rightarrow> i64 parsed) \<Rightarrow> (bytes \<Rightarrow> bytes parsed) \<Rightarrow> bytes \<Rightarrow> i64 parsed"
  nom_alt :: "(bytes \<Rightarrow> bencode parsed) list \<Rightarrow> bytes \<Rightarrow> bencode parsed"
  nom_many_till_values :: "(bytes \<Rightarrow> bencode parsed) \<Rightarrow> (bytes \<Rightarrow> bytes parsed) \<Rightarrow> bytes \<Rightarrow> bencode list parsed"
  nom_many_till_pairs ::
    "(bytes \<Rightarrow> (byte_string \<times> bencode) parsed) \<Rightarrow> (bytes \<Rightarrow> bytes parsed) \<Rightarrow> bytes \<Rightarrow>
       (byte_string \<times> bencode) list parsed"
  nom_error_text :: "bytes \<Rightarrow> bytes"

section \<open>The parser\<close>

definition parse_int :: "nom_api \<Rightarrow> bytes \<Rightarrow> bencode parsed" where
  "parse_int N i =
     and_then (nom_delimited N (nom_tag N (ascii ''i'')) (nom_i64 N) (nom_tag N (ascii ''e'')) i)
       (\<lambda>leftover number. Parsed leftover (Int_value number))"

definition inner_parse_bytestring :: "nom_api \<Rightarrow> bytes \<Rightarrow> byte_string parsed" where
  "inner_parse_bytestring N i =
     and_then (nom_u32 N i) (\<lambda>leftover len.
     and_then (nom_tag N (ascii '':'') leftover) (\<lambda>leftover _.
     and_then (nom_take N len leftover) (\<lambda>leftover bs.
     Parsed leftover (Byte_string bs))))"

definition parse_bytestring :: "nom_api \<Rightarrow> bytes \<Rightarrow> bencode parsed" where
  "parse_bytestring N i =
     and_then (inner_parse_bytestring N i) (\<lambda>leftover bs. Parsed leftover (ByteString bs))"

text \<open>The three that call \<open>parse_type\<close> take it as an argument; \<open>parse_type\<close> ties the knot.\<close>

definition parse_list :: "nom_api \<Rightarrow> (bytes \<Rightarrow> bencode parsed) \<Rightarrow> bytes \<Rightarrow> bencode parsed" where
  "parse_list N value i =
     and_then (nom_tag N (ascii ''l'') i) (\<lambda>leftover _.
     and_then (nom_many_till_values N value (nom_tag N (ascii ''e'')) leftover) (\<lambda>leftover eles.
     Parsed leftover (List eles)))"

definition parse_pair ::
  "nom_api \<Rightarrow> (bytes \<Rightarrow> bencode parsed) \<Rightarrow> bytes \<Rightarrow> (byte_string \<times> bencode) parsed" where
  "parse_pair N value i =
     and_then (inner_parse_bytestring N i) (\<lambda>leftover k.
     and_then (value leftover) (\<lambda>leftover v.
     Parsed leftover (k, v)))"

definition parse_dictionary :: "nom_api \<Rightarrow> (bytes \<Rightarrow> bencode parsed) \<Rightarrow> bytes \<Rightarrow> bencode parsed" where
  "parse_dictionary N value i =
     and_then (nom_tag N (ascii ''d'') i) (\<lambda>leftover _.
     and_then (nom_many_till_pairs N (parse_pair N value) (nom_tag N (ascii ''e'')) leftover) (\<lambda>leftover eles.
     Parsed leftover (Dictionary (bt_collect eles))))"

primrec parse_type :: "nom_api \<Rightarrow> nat \<Rightarrow> bytes \<Rightarrow> bencode parsed" where
  "parse_type N 0 = (\<lambda>i. Overflow)"
| "parse_type N (Suc depth) =
     nom_alt N [parse_int N, parse_list N (parse_type N depth), parse_dictionary N (parse_type N depth), parse_bytestring N]"

text \<open>\<open>src/file/error.rs\<close>. Exhausting the stack ends the process, which counts as a panic.\<close>

datatype file_error =
    Missing bytes
  | V1PiecesByteLenWrong
  | WrongType
  | BencodeParse bytes

definition parse_bencode :: "nom_api \<Rightarrow> nat \<Rightarrow> bytes \<Rightarrow> (file_error, bencode) res" where
  "parse_bencode N depth i =
     (case parse_type N depth i of
        Parsed _ bc \<Rightarrow> Ok bc
      | Parse_error \<Rightarrow> Err (BencodeParse (nom_error_text N i))
      | Overflow \<Rightarrow> Panic)"

section \<open>What the combinators promise\<close>

text \<open>One turn of \<open>many_till\<close>: the end, one more element, or the failure of either parser.\<close>

definition many_till_turn ::
  "((bytes \<Rightarrow> 'a parsed) \<Rightarrow> (bytes \<Rightarrow> bytes parsed) \<Rightarrow> bytes \<Rightarrow> 'a list parsed) \<Rightarrow>
     (bytes \<Rightarrow> 'a parsed) \<Rightarrow> (bytes \<Rightarrow> bytes parsed) \<Rightarrow> bytes \<Rightarrow> 'a list parsed"
where
  "many_till_turn again p q i =
     (case q i of
        Parsed rest _ \<Rightarrow> Parsed rest []
      | Overflow \<Rightarrow> Overflow
      | Parse_error \<Rightarrow>
          and_then (p i) (\<lambda>rest x.
            if length rest < length i then and_then (again p q rest) (\<lambda>rest xs. Parsed rest (x # xs))
            else Parse_error))"

definition no_digit :: "bytes \<Rightarrow> bool" where
  "no_digit i \<longleftrightarrow> i = [] \<or> \<not> is_digit (hd i)"

text \<open>
  The laws are those of the crate's documentation: \<open>tag\<close> matches a prefix, \<open>take\<close> splits off
  a number of bytes, the number parsers read the longest string of digits when its value fits,
  and otherwise fail, \<open>delimited\<close> is a sequence, \<open>alt\<close> tries the next parser after an error,
  and \<open>many_till\<close> repeats one parser until the other matches, failing if it does not advance.
\<close>

locale nom_laws =
  fixes N :: nom_api
  assumes tag: "nom_tag N t i = (if take (length t) i = t then Parsed (drop (length t) i) t else Parse_error)"
    and take: "nom_take N n i =
      (if unat n \<le> length i then Parsed (drop (unat n) i) (take (unat n) i) else Parse_error)"
    and u32_number: "ds \<noteq> [] \<Longrightarrow> list_all is_digit ds \<Longrightarrow> no_digit rest \<Longrightarrow> number ds < 2 ^ 32 \<Longrightarrow>
      nom_u32 N (ds @ rest) = Parsed rest (of_nat (number ds))"
    and u32_error: "no_digit i \<Longrightarrow> nom_u32 N i = Parse_error"
    and u32_advances: "nom_u32 N i = Parsed rest n \<Longrightarrow> length rest < length i"
    and u32_no_overflow: "nom_u32 N i \<noteq> Overflow"
    and i64_number: "ds \<noteq> [] \<Longrightarrow> list_all is_digit ds \<Longrightarrow> no_digit rest \<Longrightarrow> int (number ds) < 2 ^ 63 \<Longrightarrow>
      nom_i64 N (ds @ rest) = Parsed rest (of_nat (number ds))"
    and i64_negative: "ds \<noteq> [] \<Longrightarrow> list_all is_digit ds \<Longrightarrow> no_digit rest \<Longrightarrow> int (number ds) \<le> 2 ^ 63 \<Longrightarrow>
      nom_i64 N (45 # ds @ rest) = Parsed rest (- of_nat (number ds))"
    and i64_advances: "nom_i64 N i = Parsed rest k \<Longrightarrow> length rest < length i"
    and i64_no_overflow: "nom_i64 N i \<noteq> Overflow"
    and delimited: "nom_delimited N opening middle closing i =
      and_then (opening i) (\<lambda>rest _. and_then (middle rest) (\<lambda>rest x. and_then (closing rest) (\<lambda>rest _. Parsed rest x)))"
    and alt: "nom_alt N (v # vs) i =
      (if v i = Parse_error \<and> vs \<noteq> [] then nom_alt N vs i else v i)"
    and many_till_values: "nom_many_till_values N pv q i = many_till_turn (nom_many_till_values N) pv q i"
    and many_till_pairs: "nom_many_till_pairs N pp q i = many_till_turn (nom_many_till_pairs N) pp q i"

section \<open>An implementation of the combinators\<close>

definition instance_tag :: "bytes \<Rightarrow> bytes \<Rightarrow> bytes parsed" where
  "instance_tag t i = (if take (length t) i = t then Parsed (drop (length t) i) t else Parse_error)"

definition instance_take :: "u32 \<Rightarrow> bytes \<Rightarrow> bytes parsed" where
  "instance_take n i = (if unat n \<le> length i then Parsed (drop (unat n) i) (take (unat n) i) else Parse_error)"

definition instance_u32 :: "bytes \<Rightarrow> u32 parsed" where
  "instance_u32 i =
     (let ds = takeWhile is_digit i in
      if ds = [] \<or> number ds \<ge> 2 ^ 32 then Parse_error
      else Parsed (dropWhile is_digit i) (of_nat (number ds)))"

definition instance_i64 :: "bytes \<Rightarrow> i64 parsed" where
  "instance_i64 i =
     (let neg = (i \<noteq> [] \<and> hd i = 45); j = (if neg then tl i else i); ds = takeWhile is_digit j in
      if ds = [] \<or> int (number ds) > 2 ^ 63 \<or> (\<not> neg \<and> int (number ds) = 2 ^ 63) then Parse_error
      else Parsed (dropWhile is_digit j) (if neg then - of_nat (number ds) else of_nat (number ds)))"

definition instance_delimited ::
  "(bytes \<Rightarrow> bytes parsed) \<Rightarrow> (bytes \<Rightarrow> i64 parsed) \<Rightarrow> (bytes \<Rightarrow> bytes parsed) \<Rightarrow> bytes \<Rightarrow> i64 parsed" where
  "instance_delimited p q r i =
     and_then (p i) (\<lambda>rest _. and_then (q rest) (\<lambda>rest x. and_then (r rest) (\<lambda>rest _. Parsed rest x)))"

fun instance_alt :: "(bytes \<Rightarrow> bencode parsed) list \<Rightarrow> bytes \<Rightarrow> bencode parsed" where
  "instance_alt [] i = Parse_error"
| "instance_alt (v # vs) i = (if v i = Parse_error \<and> vs \<noteq> [] then instance_alt vs i else v i)"

function instance_many_till ::
  "(bytes \<Rightarrow> 'a parsed) \<Rightarrow> (bytes \<Rightarrow> bytes parsed) \<Rightarrow> bytes \<Rightarrow> 'a list parsed" where
  "instance_many_till p q i =
     (case q i of
        Parsed rest _ \<Rightarrow> Parsed rest []
      | Overflow \<Rightarrow> Overflow
      | Parse_error \<Rightarrow>
          (case p i of
             Parsed rest x \<Rightarrow>
               if length rest < length i
               then (case instance_many_till p q rest of
                       Parsed rest xs \<Rightarrow> Parsed rest (x # xs)
                     | Parse_error \<Rightarrow> Parse_error
                     | Overflow \<Rightarrow> Overflow)
               else Parse_error
           | Parse_error \<Rightarrow> Parse_error
           | Overflow \<Rightarrow> Overflow))"
  by pat_completeness auto
termination by (relation "measure (\<lambda>(p, q, i). length i)") auto

declare instance_many_till.simps [simp del]

definition nom_instance :: nom_api where
  "nom_instance =
     \<lparr>nom_tag = instance_tag, nom_take = instance_take, nom_i64 = instance_i64, nom_u32 = instance_u32,
      nom_delimited = instance_delimited, nom_alt = instance_alt, nom_many_till_values = instance_many_till,
      nom_many_till_pairs = instance_many_till, nom_error_text = (\<lambda>i. i)\<rparr>"

lemma many_till_instance: "instance_many_till p q i = many_till_turn instance_many_till p q i"
  by (subst instance_many_till.simps) (auto simp: many_till_turn_def split: parsed.splits)

lemma digits_then: "list_all is_digit ds \<Longrightarrow> no_digit rest \<Longrightarrow>
    takeWhile is_digit (ds @ rest) = ds \<and> dropWhile is_digit (ds @ rest) = rest"
  by (induction ds) (cases rest; auto simp: no_digit_def)+

lemma dropWhile_shorter: "takeWhile P xs \<noteq> [] \<Longrightarrow> length (dropWhile P xs) < length xs"
  by (metis length_append length_greater_0_conv less_add_same_cancel2 takeWhile_dropWhile_id)

interpretation nom_list: nom_laws nom_instance
proof
  show "nom_u32 nom_instance (ds @ rest) = Parsed rest (of_nat (number ds))"
    if "ds \<noteq> []" "list_all is_digit ds" "no_digit rest" "number ds < 2 ^ 32" for ds rest
    using that digits_then [OF that(2,3)] by (simp add: nom_instance_def instance_u32_def Let_def)
  show "nom_i64 nom_instance (ds @ rest) = Parsed rest (of_nat (number ds))"
    if "ds \<noteq> []" "list_all is_digit ds" "no_digit rest" "int (number ds) < 2 ^ 63" for ds rest
  proof -
    have "hd (ds @ rest) \<noteq> 45" using that(1,2) by (cases ds) (auto simp: is_digit_def)
    then show ?thesis
      using that digits_then [OF that(2,3)] by (simp add: nom_instance_def instance_i64_def Let_def)
  qed
  show "nom_i64 nom_instance (45 # ds @ rest) = Parsed rest (- of_nat (number ds))"
    if "ds \<noteq> []" "list_all is_digit ds" "no_digit rest" "int (number ds) \<le> 2 ^ 63" for ds rest
    using that digits_then [OF that(2,3)] by (simp add: nom_instance_def instance_i64_def Let_def)
  show "nom_u32 nom_instance i = Parse_error" if "no_digit i" for i
    using that by (cases i) (auto simp: nom_instance_def instance_u32_def no_digit_def)
  show "length rest < length i" if "nom_u32 nom_instance i = Parsed rest n" for i rest n
    using that dropWhile_shorter [of is_digit i] by (auto simp: nom_instance_def instance_u32_def Let_def split: if_splits)
  show "length rest < length i" if "nom_i64 nom_instance i = Parsed rest n" for i rest n
    using that dropWhile_shorter [of is_digit i] dropWhile_shorter [of is_digit "tl i"]
    by (cases i) (auto simp: nom_instance_def instance_i64_def Let_def split: if_splits)
  show "nom_u32 nom_instance i \<noteq> Overflow" "nom_i64 nom_instance i \<noteq> Overflow" for i
    by (simp_all add: nom_instance_def instance_u32_def instance_i64_def Let_def)
qed (simp_all add: nom_instance_def instance_tag_def instance_take_def instance_delimited_def many_till_instance)

end
