(* ===== verification/Bencode_Properties.thy ===== *)
theory Bencode_Properties
  imports Bencode_Parse
begin

text \<open>
  The parser reads back what the encoder writes, whatever follows it, needs no more depth than
  the input is long, and never returns more than it was given. The lemmas are proved in
  \<open>nom_laws\<close>, for any implementation of the combinators.
\<close>

section \<open>Values that can be written\<close>

fun depth :: "bencode \<Rightarrow> nat" and depth_list :: "bencode list \<Rightarrow> nat"
  and depth_entries :: "(byte_string \<times> bencode) list \<Rightarrow> nat"
where
  "depth (Int_value i) = 1"
| "depth (ByteString bs) = 1"
| "depth (List l) = Suc (depth_list l)"
| "depth (Dictionary d) = Suc (depth_entries d)"
| "depth_list [] = 0"
| "depth_list (x # xs) = max (depth x) (depth_list xs)"
| "depth_entries [] = 0"
| "depth_entries ((k, v) # d) = max (depth v) (depth_entries d)"

text \<open>Byte strings whose length fits the parser's \<open>u32\<close>, dictionaries in the order of a \<open>BTreeMap\<close>.\<close>

definition short :: "byte_string \<Rightarrow> bool" where
  "short bs \<longleftrightarrow> length (elements bs) < 2 ^ 32"

fun writable :: "bencode \<Rightarrow> bool" and writable_list :: "bencode list \<Rightarrow> bool"
  and writable_entries :: "(byte_string \<times> bencode) list \<Rightarrow> bool"
where
  "writable (Int_value i) = True"
| "writable (ByteString bs) = short bs"
| "writable (List l) = writable_list l"
| "writable (Dictionary d) = (bt_wf d \<and> writable_entries d)"
| "writable_list [] = True"
| "writable_list (x # xs) = (writable x \<and> writable_list xs)"
| "writable_entries [] = True"
| "writable_entries ((k, v) # d) = (short k \<and> writable v \<and> writable_entries d)"

lemma encode_bs_first: "encode_bs bs = [] \<longleftrightarrow> False" "is_digit (hd (encode_bs bs @ rest))"
  using nat_text_digits [of "length (elements bs)"] by (auto simp: encode_bs_def list_all_iff)

text \<open>What an encoding starts with: never the end marker.\<close>

lemma encode_first: "encode b \<noteq> [] \<and> hd (encode b) \<noteq> 101"
proof (cases b)
  case (ByteString bs)
  then show ?thesis
    using encode_bs_first(1) [of bs] encode_bs_first(2) [of bs "[]"] by (auto simp: is_digit_def)
qed (simp_all add: encode_int_def ascii_bytes)

context nom_laws
begin

lemma tag_single: "nom_tag N [c] i = (if i \<noteq> [] \<and> hd i = c then Parsed (tl i) [c] else Parse_error)"
  by (cases i) (simp_all add: tag)

lemma tag_char: "nom_tag N [c] (c # i) = Parsed i [c]"
  by (simp add: tag)

lemma read_bytestring:
  assumes "short bs"
  shows "inner_parse_bytestring N (encode_bs bs @ rest) = Parsed rest bs"
proof -
  let ?n = "length (elements bs)"
  have n: "?n < 2 ^ 32" using assms by (simp add: short_def)
  have "nom_u32 N (nat_text ?n @ 58 # elements bs @ rest) = Parsed (58 # elements bs @ rest) (of_nat ?n)"
    using u32_number [of "nat_text ?n" "58 # elements bs @ rest"] nat_text_digits [of ?n] n
    by (simp add: no_digit_def digit_bytes)
  moreover have "unat (of_nat ?n :: u32) = ?n" using n by (subst unat_of_nat) (simp add: take_bit_nat_def)
  ultimately show ?thesis
    by (simp add: inner_parse_bytestring_def encode_bs_def ascii_bytes tag_char take)
qed

lemma read_int: "parse_int N (encode_int k @ rest) = Parsed rest (Int_value k)"
proof -
  have "nom_i64 N (int_text (sint k) @ 101 # rest) = Parsed (101 # rest) k"
  proof (cases "sint k < 0")
    case True
    let ?n = "nat (- sint k)"
    have "- (2 ^ 63) \<le> sint k" using sint_ge [of k] by simp
    then have "nom_i64 N (45 # nat_text ?n @ 101 # rest) = Parsed (101 # rest) (- of_nat ?n)"
      using i64_negative [of "nat_text ?n" "101 # rest"] nat_text_digits [of ?n] True
      by (simp add: no_digit_def digit_bytes)
    moreover have "of_nat ?n = (of_int (- sint k) :: i64)"
      using True by (metis int_nat_eq less_imp_le neg_0_le_iff_le of_int_of_nat_eq)
    ultimately show ?thesis using True by (simp add: int_text_def)
  next
    case False
    let ?n = "nat (sint k)"
    have "sint k < 2 ^ 63" using sint_lt [of k] by simp
    then have "nom_i64 N (nat_text ?n @ 101 # rest) = Parsed (101 # rest) (of_nat ?n)"
      using i64_number [of "nat_text ?n" "101 # rest"] nat_text_digits [of ?n] False
      by (simp add: no_digit_def digit_bytes)
    moreover have "of_nat ?n = (of_int (sint k) :: i64)"
      using False by (metis int_nat_eq linorder_not_le of_int_of_nat_eq)
    ultimately show ?thesis using False by (simp add: int_text_def)
  qed
  then show ?thesis
    by (simp add: parse_int_def delimited encode_int_def ascii_bytes tag_char)
qed

text \<open>Which alternative applies is decided by the first byte.\<close>

lemma alternatives:
  "parse_type N (Suc n) i =
    (if i = [] then parse_bytestring N i
     else if hd i = 105 then (if parse_int N i = Parse_error then parse_bytestring N i else parse_int N i)
     else if hd i = 108 then
       (if parse_list N (parse_type N n) i = Parse_error then parse_bytestring N i else parse_list N (parse_type N n) i)
     else if hd i = 100 then
       (if parse_dictionary N (parse_type N n) i = Parse_error then parse_bytestring N i
        else parse_dictionary N (parse_type N n) i)
     else parse_bytestring N i)"
proof -
  have "i = [] \<or> hd i \<noteq> 105 \<Longrightarrow> parse_int N i = Parse_error"
    by (auto simp: parse_int_def delimited ascii_bytes tag_single)
  moreover have "i = [] \<or> hd i \<noteq> 108 \<Longrightarrow> parse_list N (parse_type N n) i = Parse_error"
    by (auto simp: parse_list_def ascii_bytes tag_single)
  moreover have "i = [] \<or> hd i \<noteq> 100 \<Longrightarrow> parse_dictionary N (parse_type N n) i = Parse_error"
    by (auto simp: parse_dictionary_def ascii_bytes tag_single)
  ultimately show ?thesis by (auto simp: alt)
qed

lemma many_till_list:
  assumes "\<And>x rest. x \<in> set xs \<Longrightarrow> p (enc x @ rest) = Parsed rest x"
    and "\<And>x. x \<in> set xs \<Longrightarrow> enc x \<noteq> [] \<and> hd (enc x) \<noteq> 101"
    and turn: "\<And>i. again p (nom_tag N [101]) i = many_till_turn again p (nom_tag N [101]) i"
  shows "again p (nom_tag N [101]) (concat (map enc xs) @ 101 # rest) = Parsed rest xs"
  using assms(1,2)
proof (induction xs)
  case Nil
  show ?case by (subst turn) (simp add: many_till_turn_def tag_char)
next
  case (Cons x xs)
  let ?rest = "concat (map enc xs) @ 101 # rest"
  have "nom_tag N [101] (enc x @ ?rest) = Parse_error" "p (enc x @ ?rest) = Parsed ?rest x" "length ?rest < length (enc x @ ?rest)"
    using Cons.prems(1) [of x ?rest] Cons.prems(2) [of x] by (simp_all add: tag_single)
  moreover have "again p (nom_tag N [101]) ?rest = Parsed rest xs"
    using Cons.IH Cons.prems by simp
  ultimately have "many_till_turn again p (nom_tag N [101]) (enc x @ ?rest) = Parsed rest (x # xs)"
    by (simp add: many_till_turn_def)
  then show ?case by (subst turn) simp
qed

end

lemma encode_list_concat: "encode_list l = concat (map encode l)"
  by (induction l) auto

lemma encode_dictionary_concat: "encode_dictionary d = concat (map (\<lambda>(k, v). encode_bs k @ encode v) d)"
  by (induction d) auto

lemma writable_list_iff: "writable_list l \<longleftrightarrow> (\<forall>x \<in> set l. writable x)"
  by (induction l) auto

lemma writable_entries_iff: "writable_entries d \<longleftrightarrow> (\<forall>(k, v) \<in> set d. short k \<and> writable v)"
  by (induction d) auto

lemma depth_list_le: "x \<in> set l \<Longrightarrow> depth x \<le> depth_list l"
  by (induction l) auto

lemma depth_entries_le: "(k, v) \<in> set d \<Longrightarrow> depth v \<le> depth_entries d"
  by (induction d) auto

context nom_laws
begin

lemma read_value: "writable b \<Longrightarrow> depth b \<le> n \<Longrightarrow> parse_type N n (encode b @ rest) = Parsed rest b"
proof (induction n arbitrary: b rest)
  case 0
  then show ?case by (cases b) auto
next
  case (Suc n)
  show ?case
  proof (cases b)
    case (Int_value k)
    have "parse_int N (105 # int_text (sint k) @ 101 # rest) = Parsed rest (Int_value k)"
      using read_int [of k rest] by (simp add: encode_int_def ascii_bytes)
    then show ?thesis unfolding alternatives Int_value by (simp add: encode_int_def ascii_bytes)
  next
    case (ByteString bs)
    have d: "is_digit (hd (encode_bs bs @ rest))" by (rule encode_bs_first)
    have "parse_bytestring N (encode_bs bs @ rest) = Parsed rest (ByteString bs)"
      using Suc.prems ByteString by (simp add: parse_bytestring_def read_bytestring)
    moreover have "hd (encode_bs bs @ rest) \<notin> {105, 108, 100}" using d by (auto simp: is_digit_def)
    ultimately show ?thesis unfolding alternatives ByteString by (simp add: encode_bs_first(1))
  next
    case (List l)
    have items: "parse_type N n (encode x @ r) = Parsed r x" if "x \<in> set l" for x r
      using Suc List that depth_list_le [OF that] by (intro Suc.IH) (auto simp: writable_list_iff)
    have "nom_many_till_values N (parse_type N n) (nom_tag N [101]) (concat (map encode l) @ 101 # rest) = Parsed rest l"
      by (rule many_till_list [OF items encode_first many_till_values])
    then have "parse_list N (parse_type N n) (108 # encode_list l @ 101 # rest) = Parsed rest (List l)"
      by (simp add: parse_list_def ascii_bytes tag_char encode_list_concat)
    then show ?thesis unfolding alternatives List by (simp add: ascii_bytes)
  next
    case (Dictionary d)
    have wf: "bt_wf d" and ok: "\<forall>(k, v) \<in> set d. short k \<and> writable v"
      using Suc.prems Dictionary by (auto simp: writable_entries_iff)
    let ?enc = "\<lambda>(k, v). encode_bs k @ encode v" and ?p = "parse_pair N (parse_type N n)"
    have items: "?p (?enc x @ r) = Parsed r x" if x: "x \<in> set d" for x r
    proof -
      obtain k v where kv: "x = (k, v)" by fastforce
      then have "depth v \<le> n" "writable v" "short k"
        using Suc.prems Dictionary depth_entries_le [of k v d] ok x by auto
      then show ?thesis using Suc.IH [of v r] by (simp add: kv parse_pair_def read_bytestring)
    qed
    have first: "?enc x \<noteq> [] \<and> hd (?enc x) \<noteq> 101" for x
      using encode_bs_first(2) [of "fst x" "encode (snd x)"] encode_bs_first(1) [of "fst x"]
      by (auto simp: is_digit_def split: prod.split)
    have "nom_many_till_pairs N ?p (nom_tag N [101]) (concat (map ?enc d) @ 101 # rest) = Parsed rest d"
      by (rule many_till_list [OF items first many_till_pairs])
    then have "parse_dictionary N (parse_type N n) (100 # encode_dictionary d @ 101 # rest) = Parsed rest (Dictionary d)"
      by (simp add: parse_dictionary_def ascii_bytes tag_char encode_dictionary_concat bt_collect_id [OF wf])
    then show ?thesis unfolding alternatives Dictionary by (simp add: ascii_bytes)
  qed
qed

end

section \<open>What the parser returns\<close>

lemma collect_entries: "(k, v) \<in> set (bt_collect kvs) \<Longrightarrow> (k, v) \<in> set kvs"
  using bt_get_eq_iff [OF bt_wf_collect, of kvs k v] bt_get_collect [of kvs k] by (auto dest: map_of_SomeD)

lemma and_then_Parsed: "and_then r f = Parsed rest x \<longleftrightarrow> (\<exists>rest' y. r = Parsed rest' y \<and> f rest' y = Parsed rest x)"
  by (cases r) auto

lemma and_then_Overflow: "and_then r f = Overflow \<longleftrightarrow> r = Overflow \<or> (\<exists>rest y. r = Parsed rest y \<and> f rest y = Overflow)"
  by (cases r) auto

lemma depth_entries_bound: "\<forall>(k, v) \<in> set d. depth v \<le> n \<Longrightarrow> depth_entries d \<le> n"
  by (induction d) auto

context nom_laws
begin

lemma tag_advances: "nom_tag N [c] i = Parsed rest t \<Longrightarrow> length rest < length i"
  by (cases i) (auto simp: tag_single split: if_splits)

lemma tag_no_overflow: "nom_tag N t i \<noteq> Overflow"
  by (simp add: tag)

lemma many_till_all:
  assumes turn: "\<And>i. again p (nom_tag N [101]) i = many_till_turn again p (nom_tag N [101]) i"
    and elem: "\<And>i rest x. p i = Parsed rest x \<Longrightarrow> Q x"
  shows "again p (nom_tag N [101]) i = Parsed rest xs \<Longrightarrow> (\<forall>x \<in> set xs. Q x) \<and> length rest < length i"
proof (induction "length i" arbitrary: i xs rule: less_induct)
  case less
  from less.prems have "many_till_turn again p (nom_tag N [101]) i = Parsed rest xs"
    using turn by simp
  then consider (end_marker) t where "nom_tag N [101] i = Parsed rest t" "xs = []"
    | (element) r x ys where "p i = Parsed r x" "length r < length i" "again p (nom_tag N [101]) r = Parsed rest ys" "xs = x # ys"
    by (auto simp: many_till_turn_def and_then_Parsed split: parsed.splits if_splits)
  then show ?case
  proof cases
    case end_marker
    then show ?thesis using tag_advances by auto
  next
    case element
    then show ?thesis using less.hyps [OF element(2,3)] elem by auto
  qed
qed

lemma many_till_no_overflow:
  assumes turn: "\<And>i. again p (nom_tag N [101]) i = many_till_turn again p (nom_tag N [101]) i"
    and elem: "\<And>i. length i \<le> m \<Longrightarrow> p i \<noteq> Overflow"
  shows "length i \<le> m \<Longrightarrow> again p (nom_tag N [101]) i \<noteq> Overflow"
proof (induction "length i" arbitrary: i rule: less_induct)
  case less
  have "many_till_turn again p (nom_tag N [101]) i \<noteq> Overflow"
    using tag_no_overflow elem [OF less.prems] less
    by (auto simp: many_till_turn_def and_then_Overflow split: parsed.split)
  then show ?case using turn by simp
qed

lemma bytestring_parsed:
  assumes "inner_parse_bytestring N i = Parsed rest bs"
  shows "short bs \<and> length rest < length i"
proof -
  obtain r1 n r2 t where p: "nom_u32 N i = Parsed r1 n" "nom_tag N [58] r1 = Parsed r2 t"
    "nom_take N n r2 = Parsed rest (elements bs)"
    using assms by (auto simp: inner_parse_bytestring_def and_then_Parsed ascii_bytes)
  have "unat n < 2 ^ 32" using unsigned_less [of n] by simp
  moreover have "length (elements bs) = unat n" "length rest \<le> length r2"
    using p(3) by (auto simp: take split: if_splits dest!: sym [of "List.take _ _"])
  ultimately have "short bs" "length rest \<le> length r2" by (simp_all add: short_def)
  then show ?thesis using u32_advances [OF p(1)] tag_advances [OF p(2)] by simp
qed

lemma bytestring_no_overflow: "inner_parse_bytestring N i \<noteq> Overflow"
  by (auto simp: inner_parse_bytestring_def and_then_Overflow u32_no_overflow tag_no_overflow take)

lemma int_parsed: "parse_int N i = Parsed rest b \<Longrightarrow> (\<exists>k. b = Int_value k) \<and> length rest < length i"
  by (auto simp: parse_int_def delimited and_then_Parsed ascii_bytes dest!: tag_advances i64_advances)

lemma int_no_overflow: "parse_int N i \<noteq> Overflow"
  by (auto simp: parse_int_def delimited and_then_Overflow tag_no_overflow i64_no_overflow)

lemma list_parsed:
  assumes "\<And>i rest x. p i = Parsed rest x \<Longrightarrow> writable x \<and> depth x \<le> n"
    and "parse_list N p i = Parsed rest b"
  shows "writable b \<and> depth b \<le> Suc n \<and> length rest < length i"
proof -
  obtain r t l where l: "nom_tag N [108] i = Parsed r t" "nom_many_till_values N p (nom_tag N [101]) r = Parsed rest l" "b = List l"
    using assms(2) by (auto simp: parse_list_def and_then_Parsed ascii_bytes)
  have "(\<forall>x \<in> set l. writable x \<and> depth x \<le> n) \<and> length rest < length r"
    by (rule many_till_all [where Q = "\<lambda>x. writable x \<and> depth x \<le> n", OF many_till_values assms(1) l(2)])
  moreover from this have "depth_list l \<le> n" by (induction l) auto
  ultimately show ?thesis using l(3) tag_advances [OF l(1)] by (simp add: writable_list_iff)
qed

lemma dictionary_parsed:
  assumes "\<And>i rest x. p i = Parsed rest x \<Longrightarrow> writable x \<and> depth x \<le> n"
    and "parse_dictionary N p i = Parsed rest b"
  shows "writable b \<and> depth b \<le> Suc n \<and> length rest < length i"
proof -
  obtain r t d where d: "nom_tag N [100] i = Parsed r t"
    "nom_many_till_pairs N (parse_pair N p) (nom_tag N [101]) r = Parsed rest d" "b = Dictionary (bt_collect d)"
    using assms(2) by (auto simp: parse_dictionary_def and_then_Parsed ascii_bytes)
  let ?Q = "\<lambda>(k, v). short k \<and> writable v \<and> depth v \<le> n"
  have pair: "parse_pair N p i = Parsed rest x \<Longrightarrow> ?Q x" for i rest x
    using assms(1) bytestring_parsed by (fastforce simp: parse_pair_def and_then_Parsed)
  have all: "(\<forall>x \<in> set d. ?Q x) \<and> length rest < length r"
    by (rule many_till_all [where Q = ?Q, OF many_till_pairs pair d(2)])
  then have "\<forall>x \<in> set (bt_collect d). ?Q x" using collect_entries by fast
  moreover from this have "depth_entries (bt_collect d) \<le> n" by (intro depth_entries_bound) auto
  ultimately show ?thesis
    using all d(3) tag_advances [OF d(1)] by (auto simp: writable_entries_iff)
qed

lemma value_parsed: "parse_type N n i = Parsed rest b \<Longrightarrow> writable b \<and> depth b \<le> n \<and> length rest < length i"
proof (induction n arbitrary: i rest b)
  case (Suc n)
  have bytes: "parse_bytestring N i = Parsed rest b \<Longrightarrow> writable b \<and> depth b \<le> Suc n \<and> length rest < length i"
    using bytestring_parsed by (fastforce simp: parse_bytestring_def and_then_Parsed)
  have int: "parse_int N i = Parsed rest b \<Longrightarrow> writable b \<and> depth b \<le> Suc n \<and> length rest < length i"
    using int_parsed by fastforce
  have inner: "parse_type N n i = Parsed rest x \<Longrightarrow> writable x \<and> depth x \<le> n" for i rest x
    using Suc.IH by blast
  show ?case
    using Suc.prems bytes int list_parsed [where p = "parse_type N n" and n = n and i = i, OF inner]
      dictionary_parsed [where p = "parse_type N n" and n = n and i = i, OF inner] unfolding alternatives by (auto split: if_splits)
qed simp

lemma enough_depth: "length i < n \<Longrightarrow> parse_type N n i \<noteq> Overflow"
proof (induction n arbitrary: i)
  case (Suc n)
  have bytes: "parse_bytestring N i \<noteq> Overflow"
    by (simp add: parse_bytestring_def and_then_Overflow bytestring_no_overflow)
  have inner: "parse_type N n r \<noteq> Overflow" if "length r < length i" for r
    using Suc that by (intro Suc.IH) simp
  have "parse_list N (parse_type N n) i \<noteq> Overflow"
  proof
    assume "parse_list N (parse_type N n) i = Overflow"
    then obtain r t where r: "nom_tag N [108] i = Parsed r t"
      "nom_many_till_values N (parse_type N n) (nom_tag N [101]) r = Overflow"
      by (auto simp: parse_list_def and_then_Overflow ascii_bytes tag_no_overflow)
    have "nom_many_till_values N (parse_type N n) (nom_tag N [101]) r \<noteq> Overflow"
      by (rule many_till_no_overflow [where m = "length r", OF many_till_values])
        (use inner tag_advances [OF r(1)] in auto)
    then show False using r(2) by simp
  qed
  moreover have "parse_dictionary N (parse_type N n) i \<noteq> Overflow"
  proof
    assume "parse_dictionary N (parse_type N n) i = Overflow"
    then obtain r t where r: "nom_tag N [100] i = Parsed r t"
      "nom_many_till_pairs N (parse_pair N (parse_type N n)) (nom_tag N [101]) r = Overflow"
      by (auto simp: parse_dictionary_def and_then_Overflow ascii_bytes tag_no_overflow)
    have "parse_pair N (parse_type N n) j \<noteq> Overflow" if "length j \<le> length r" for j
      using inner tag_advances [OF r(1)] that bytestring_parsed [of j]
      by (auto simp: parse_pair_def and_then_Overflow bytestring_no_overflow)
    then have "nom_many_till_pairs N (parse_pair N (parse_type N n)) (nom_tag N [101]) r \<noteq> Overflow"
      by (intro many_till_no_overflow [where m = "length r", OF many_till_pairs]) auto
    then show False using r(2) by simp
  qed
  ultimately show ?case
    using bytes int_no_overflow unfolding alternatives by auto
qed simp

lemma too_deep: "parse_type N n (replicate (Suc n) 108 @ rest) = Overflow"
proof (induction n)
  case (Suc n)
  let ?i = "replicate (Suc n) 108 @ rest"
  have "nom_tag N [101] ?i = Parse_error" by (simp add: tag_single)
  then have "many_till_turn (nom_many_till_values N) (parse_type N n) (nom_tag N [101]) ?i = Overflow"
    using Suc.IH by (simp add: many_till_turn_def del: replicate_Suc append_Cons)
  then have "nom_many_till_values N (parse_type N n) (nom_tag N [101]) ?i = Overflow"
    by (subst many_till_values)
  then have "parse_list N (parse_type N n) (108 # ?i) = Overflow"
    by (simp add: parse_list_def ascii_bytes tag_char)
  then show ?case unfolding alternatives by simp
qed simp

lemma reparsed:
  assumes "parse_bencode N n i = Ok b"
  shows "writable b \<and> parse_bencode N n (encode b @ rest) = Ok b"
proof -
  obtain r where "parse_type N n i = Parsed r b"
    using assms by (auto simp: parse_bencode_def split: parsed.splits)
  then have "writable b" "depth b \<le> n" using value_parsed by blast+
  then show ?thesis using read_value by (simp add: parse_bencode_def)
qed

end

section \<open>Properties\<close>

text \<open>
  C12. Parsing what the encoder wrote gives the value back and leaves exactly what follows it,
  for every value whose byte strings are shorter than 4 GiB and whose dictionaries are ordered
  as a \<open>BTreeMap\<close> is, given a stack of its depth.
\<close>

theorem bencode_roundtrip:
  assumes "nom_laws N" and "writable b" and "depth b \<le> n"
  shows "parse_type N n (encode b @ rest) = Parsed rest b \<and> parse_bencode N n (encode b @ rest) = Ok b"
  using nom_laws.read_value [OF assms] by (simp add: parse_bencode_def)

text \<open>The dictionary of the unit test: a number and a byte string under two keys.\<close>

definition sample_dict :: bencode where
  "sample_dict = Dictionary [(Byte_string (ascii ''meaning''), Int_value 42),
     (Byte_string (ascii ''wiki''), ByteString (Byte_string (ascii ''bencode'')))]"

lemma sample_dict_writable: "writable sample_dict" "depth sample_dict = 2"
  by (simp_all add: sample_dict_def short_def ascii_def less_byte_string_def)

lemma bencode_roundtrip_witness:
  "encode sample_dict = ascii ''d7:meaningi42e4:wiki7:bencodee'' \<and>
   parse_bencode nom_instance 2 (ascii ''d7:meaningi42e4:wiki7:bencodee'' @ [0]) = Ok sample_dict"
proof -
  have "encode sample_dict = ascii ''d7:meaningi42e4:wiki7:bencodee''"
    by (simp add: sample_dict_def ascii_def encode_int_def encode_bs_def int_text_def nat_text.simps)
  then show ?thesis
    using bencode_roundtrip [OF nom_list.nom_laws_axioms sample_dict_writable(1), of 2 "[0]"] sample_dict_writable(2)
    by simp
qed

text \<open>
  C34. How deep the parser recurses: a stack of one more than the length of the input is always
  enough, the parser then returns a value or an error; and no smaller bound will do, because
  \<open>n + 1\<close> bytes that open lists need more than \<open>n\<close>, which ends the process.
\<close>

theorem bencode_depth:
  assumes "nom_laws N"
  shows "(length i < n \<longrightarrow> (\<exists>b. parse_bencode N n i = Ok b) \<or> parse_bencode N n i = Err (BencodeParse (nom_error_text N i))) \<and>
    parse_bencode N n (replicate (Suc n) 108 @ rest) = Panic"
  using nom_laws.enough_depth [OF assms, of i n] nom_laws.too_deep [OF assms, of n rest]
  by (auto simp: parse_bencode_def split: parsed.split)

lemma bencode_depth_witness: "parse_bencode nom_instance 1000 (replicate (Suc 1000) 108 @ []) = Panic"
  using bencode_depth [OF nom_list.nom_laws_axioms, of "[]" 1000 "[]"] by (rule conjunct2)

text \<open>
  What the parser accepts is a proper value: dictionaries in key order without duplicates,
  byte strings that fit 32 bits. Encoding it again gives a canonical file, which parses to the
  same value.
\<close>

theorem reencoding_is_canonical:
  assumes "nom_laws N" and "parse_bencode N n i = Ok b"
  shows "writable b \<and> parse_bencode N n (encode b @ rest) = Ok b"
  using nom_laws.reparsed [OF assms] by blast

text \<open>The number of this list has a leading zero, and a byte follows the list.\<close>

lemma reencoding_is_canonical_witness:
  "\<exists>b. parse_bencode nom_instance 2 (ascii ''li07ee!'') = Ok b \<and> encode b = ascii ''li7ee'' \<and>
     parse_bencode nom_instance 2 (ascii ''li7ee'') = Ok b"
proof -
  have n: "parse_type nom_instance (Suc 0) (105 # 48 # 55 # 101 # i) = Parsed i (Int_value 7)" for i
    by (simp add: nom_list.alternatives parse_int_def nom_instance_def instance_delimited_def
        instance_tag_def instance_i64_def is_digit_def number_def ascii_def)
  have "parse_type nom_instance (Suc (Suc 0)) (108 # 105 # 48 # 55 # 101 # 101 # i) = Parsed i (List [Int_value 7])" for i
    using n [of "101 # i"]
    by (simp add: nom_list.alternatives [of "Suc 0"] parse_list_def nom_list.tag_char ascii_bytes
        nom_list.many_till_values [of _ _ "105 # _"] nom_list.many_till_values [of _ _ "101 # _"]
        many_till_turn_def nom_list.tag_single del: parse_type.simps)
  then have p: "parse_bencode nom_instance 2 (ascii ''li07ee!'') = Ok (List [Int_value 7])"
    by (simp add: parse_bencode_def numeral_2_eq_2 ascii_def del: parse_type.simps)
  have e: "encode (List [Int_value 7]) = ascii ''li7ee''"
    by (simp add: ascii_def encode_int_def int_text_def nat_text.simps)
  show ?thesis
    using reencoding_is_canonical [OF nom_list.nom_laws_axioms p, of "[]"] p e by auto
qed

end
