(* ===== verification/Std_Text.thy ===== *)
theory Std_Text
  imports Bencode
begin

text \<open>
  What the sources use of the standard library's text functions: \<open>String::from_utf8_lossy\<close> and
  \<open>IpAddr::from_str\<close>, byte by byte as the library has them. A \<open>String\<close> is the list of its
  UTF-8 bytes. The lemmas show that a lossy conversion gives well-formed UTF-8 and leaves
  well-formed UTF-8 alone, and that the dotted form of an IPv4 address is read back.
\<close>

section \<open>UTF-8\<close>

definition continuation :: "u8 \<Rightarrow> bool" where
  "continuation b \<longleftrightarrow> 128 \<le> b \<and> b \<le> 191"

text \<open>How many bytes a character with this first byte has; 0 for a byte that cannot be first.\<close>

definition utf8_width :: "u8 \<Rightarrow> nat" where
  "utf8_width b =
     (if b < 128 then 1 else if b < 194 then 0 else if b < 224 then 2 else if b < 240 then 3
      else if b < 245 then 4 else 0)"

text \<open>The second byte, which rules out overlong forms, surrogates and too large code points.\<close>

definition second_ok :: "u8 \<Rightarrow> u8 \<Rightarrow> bool" where
  "second_ok a b =
     (if a = 224 then 160 \<le> b \<and> b \<le> 191
      else if a = 237 then 128 \<le> b \<and> b \<le> 159
      else if a = 240 then 144 \<le> b \<and> b \<le> 191
      else if a = 244 then 128 \<le> b \<and> b \<le> 143
      else continuation b)"

text \<open>
  The first character: how many bytes belong to it, and whether it is complete. Of a broken one
  these are the bytes up to the first that does not fit.
\<close>

fun inspect :: "bytes \<Rightarrow> nat \<times> bool" where
  "inspect [] = (0, False)"
| "inspect (a # r) =
     (if utf8_width a = 0 then (1, False)
      else if utf8_width a = 1 then (1, True)
      else if r = [] \<or> \<not> second_ok a (hd r) then (1, False)
      else let m = utf8_width a - 2; n = length (takeWhile continuation (take m (tl r)))
           in (2 + n, n = m))"

lemma inspect_pos: "i \<noteq> [] \<Longrightarrow> 0 < fst (inspect i)"
  by (cases i) (auto simp: Let_def)

lemma inspect_le: "fst (inspect i) \<le> length i"
proof (cases i)
  case (Cons a r)
  have "length (takeWhile continuation (take m (tl r))) \<le> length (tl r)" for m
    using length_takeWhile_le [of continuation "take m (tl r)"] by simp
  then show ?thesis
    using Cons by (cases r) (auto simp: Let_def)
qed simp

function from_utf8_lossy :: "bytes \<Rightarrow> bytes" where
  "from_utf8_lossy i =
     (if i = [] then []
      else (if snd (inspect i) then take (fst (inspect i)) i else [239, 191, 189]) @
           from_utf8_lossy (drop (fst (inspect i)) i))"
  by pat_completeness auto
termination by (relation "measure length") (auto intro!: diff_less inspect_pos)

declare from_utf8_lossy.simps [simp del]

function utf8 :: "bytes \<Rightarrow> bool" where
  "utf8 i = (if i = [] then True else snd (inspect i) \<and> utf8 (drop (fst (inspect i)) i))"
  by pat_completeness auto
termination by (relation "measure length") (auto intro!: diff_less inspect_pos)

declare utf8.simps [simp del]

lemma utf8_Nil [simp]: "utf8 []" "from_utf8_lossy [] = []"
  by (subst utf8.simps, simp) (subst from_utf8_lossy.simps, simp)

text \<open>A complete character stays one whatever follows it.\<close>

lemma inspect_append:
  assumes "snd (inspect i)"
  shows "inspect (take (fst (inspect i)) i @ r) = inspect i"
proof (cases i)
  case (Cons a j)
  show ?thesis
  proof (cases "utf8_width a = 1")
    case False
    then obtain b k where j: "j = b # k" and w: "utf8_width a \<noteq> 0" "second_ok a b"
      using assms Cons by (cases j) (auto simp: Let_def split: if_splits)
    define m where "m = utf8_width a - 2"
    have i: "inspect (a # b # l) = (2 + length (takeWhile continuation (take m l)),
        length (takeWhile continuation (take m l)) = m)" for l
      using False w by (simp add: Let_def m_def)
    have n: "length (takeWhile continuation (take m k)) = m"
      using assms unfolding Cons j i by simp
    then have "length (take m k) = m"
      using length_takeWhile_le [of continuation "take m k"] length_take [of m k] by linarith
    then have m: "m \<le> length k" by simp
    then have "take m (take m k @ r) = take m k" by simp
    then show ?thesis using n m unfolding Cons j by (simp add: i min_def del: inspect.simps)
  qed (simp add: Cons)
qed (use assms in simp)

lemma utf8_cons: "snd (inspect i) \<Longrightarrow> utf8 (take (fst (inspect i)) i @ r) \<longleftrightarrow> utf8 r"
  using inspect_append [of i r] inspect_le [of i] inspect_pos [of i]
  by (subst utf8.simps) (cases "i = []"; auto)

lemma replacement_char: "utf8 ([239, 191, 189] @ r) \<longleftrightarrow> utf8 r"
proof -
  have "inspect [239, 191, 189] = (3, True)"
    by (simp add: utf8_width_def second_ok_def continuation_def Let_def)
  then show ?thesis using utf8_cons [of "[239, 191, 189]" r] by simp
qed

theorem lossy_utf8: "utf8 (from_utf8_lossy i)"
proof (induction i rule: from_utf8_lossy.induct)
  case (1 i)
  then show ?case
    using utf8_cons [of i] replacement_char
    by (subst from_utf8_lossy.simps) auto
qed

lemma lossy_id: "utf8 i \<Longrightarrow> from_utf8_lossy i = i"
proof (induction i rule: from_utf8_lossy.induct)
  case (1 i)
  then show ?case
    by (subst from_utf8_lossy.simps) (use utf8.simps [of i] in auto)
qed

lemma utf8_ascii: "list_all (\<lambda>b. b < 128) i \<Longrightarrow> utf8 i"
proof (induction i)
  case (Cons a i)
  then have "inspect (a # i) = (1, True)" by (simp add: utf8_width_def)
  then show ?case using Cons by (subst utf8.simps) simp
qed simp

section \<open>IP addresses\<close>

datatype ip_addr = V4 "u8 list" | V6 "u16 list"  \<comment> \<open>four octets, eight groups\<close>

definition digit_value :: "nat \<Rightarrow> u8 \<Rightarrow> nat option" where
  "digit_value radix b =
     (let v = (if is_digit b then Some (unat b - 48)
               else if 97 \<le> b \<and> b \<le> 102 then Some (unat b - 87)
               else if 65 \<le> b \<and> b \<le> 70 then Some (unat b - 55)
               else None) in
      case v of Some d \<Rightarrow> if d < radix then Some d else None | None \<Rightarrow> None)"

text \<open>Digits up to a maximal count, without a leading zero unless allowed, with a bounded value.\<close>

definition read_number :: "nat \<Rightarrow> nat \<Rightarrow> bool \<Rightarrow> nat \<Rightarrow> bytes \<Rightarrow> (nat \<times> bytes) option" where
  "read_number radix max_digits allow_zero_prefix bound i =
     (let ds = takeWhile (\<lambda>b. digit_value radix b \<noteq> None) i;
          value = foldl (\<lambda>n d. radix * n + the (digit_value radix d)) 0 ds in
      if ds = [] \<or> length ds > max_digits \<or> (\<not> allow_zero_prefix \<and> hd ds = 48 \<and> length ds > 1) \<or> bound < value
      then None
      else Some (value, drop (length ds) i))"

definition read_separated :: "u8 \<Rightarrow> nat \<Rightarrow> (bytes \<Rightarrow> 'a option) \<Rightarrow> bytes \<Rightarrow> 'a option" where
  "read_separated sep index p i =
     (if index = 0 then p i else if i \<noteq> [] \<and> hd i = sep then p (tl i) else None)"

text \<open>The octets of an IPv4 address from one index on, separated by dots.\<close>

fun read_octets :: "nat \<Rightarrow> nat \<Rightarrow> bytes \<Rightarrow> (u8 list \<times> bytes) option" where
  "read_octets index 0 i = Some ([], i)"
| "read_octets index (Suc n) i =
     Option.bind (read_separated 46 index (read_number 10 3 False 255) i) (\<lambda>(x, rest).
     Option.bind (read_octets (Suc index) n rest) (\<lambda>(xs, rest). Some (of_nat x # xs, rest)))"

definition read_ipv4 :: "bytes \<Rightarrow> (u8 list \<times> bytes) option" where
  "read_ipv4 i = read_octets 0 4 i"

text \<open>
  Groups of an IPv6 address, at most as many as there is room for; a dotted IPv4 address may
  stand for the last two, which the flag tells.
\<close>

fun read_groups :: "nat \<Rightarrow> nat \<Rightarrow> bytes \<Rightarrow> u16 list \<times> bool \<times> bytes" where
  "read_groups index 0 i = ([], False, i)"
| "read_groups index (Suc n) i =
     (case (if 0 < n then read_separated 58 index read_ipv4 i else None) of
        Some (o4, rest) \<Rightarrow>
          ([256 * ucast (o4 ! 0) + ucast (o4 ! 1), 256 * ucast (o4 ! 2) + ucast (o4 ! 3)], True, rest)
      | None \<Rightarrow>
          (case read_separated 58 index (read_number 16 4 True 65535) i of
             Some (g, rest) \<Rightarrow>
               (case read_groups (Suc index) n rest of (gs, v4, rest) \<Rightarrow> (of_nat g # gs, v4, rest))
           | None \<Rightarrow> ([], False, i)))"

definition read_ipv6 :: "bytes \<Rightarrow> (u16 list \<times> bytes) option" where
  "read_ipv6 i =
     (case read_groups 0 8 i of (head, head_v4, rest) \<Rightarrow>
        if length head = 8 then Some (head, rest)
        else if head_v4 \<or> take 2 rest \<noteq> [58, 58] then None
        else (case read_groups 0 (8 - (length head + 1)) (drop 2 rest) of (tail, _, rest) \<Rightarrow>
                Some (head @ replicate (8 - length head - length tail) 0 @ tail, rest)))"

definition ip_from_str :: "bytes \<Rightarrow> ip_addr option" where
  "ip_from_str i =
     (case read_ipv4 i of
        Some (o4, rest) \<Rightarrow> if rest = [] then Some (V4 o4) else None
      | None \<Rightarrow>
          (case read_ipv6 i of Some (g, rest) \<Rightarrow> if rest = [] then Some (V6 g) else None | None \<Rightarrow> None))"

text \<open>The error's text, which the code copies into its own error.\<close>

definition addr_parse_error :: bytes where
  "addr_parse_error = ascii ''invalid IP address syntax''"

text \<open>The dotted form, and that it is read back.\<close>

definition dotted :: "u8 \<Rightarrow> u8 \<Rightarrow> u8 \<Rightarrow> u8 \<Rightarrow> bytes" where
  "dotted a b c d =
     nat_text (unat a) @ 46 # nat_text (unat b) @ 46 # nat_text (unat c) @ 46 # nat_text (unat d)"

lemma digit_value_digit: "is_digit b \<Longrightarrow> digit_value 10 b = Some (unat b - 48)"
proof -
  assume "is_digit b"
  moreover from this have "unat b \<le> 57" by (simp add: is_digit_def word_le_nat_alt)
  ultimately show ?thesis by (simp add: digit_value_def)
qed

lemma digit_value_separator: "digit_value 10 46 = None" "digit_value 16 58 = None"
  by (simp_all add: digit_value_def is_digit_def)

lemma nat_text_first: "hd (nat_text n) = 48 \<longleftrightarrow> n = 0"
proof (induction n rule: nat_text.induct)
  case (1 n)
  show ?case
  proof (cases "n < 10")
    case True
    have "(of_nat (48 + n) :: u8) = 48 \<longleftrightarrow> unat (of_nat (48 + n) :: u8) = unat (48 :: u8)"
      by (simp only: word_unat_eq_iff)
    then have "(of_nat (48 + n) :: u8) = 48 \<longleftrightarrow> n = 0" using digit_byte [OF True] by simp
    then show ?thesis using True by (simp add: nat_text.simps [of n])
  next
    case False
    then show ?thesis using 1 nat_text_digits(1) [of "n div 10"] by (simp add: nat_text.simps [of n])
  qed
qed

lemma nat_text_length: "n < 256 \<Longrightarrow> length (nat_text n) \<le> 3"
  by (auto simp: nat_text.simps [of n] nat_text.simps [of "n div 10"] nat_text.simps [of "n div 10 div 10"])

lemma read_octet:
  assumes "rest = [] \<or> digit_value 10 (hd rest) = None"
  shows "read_number 10 3 False 255 (nat_text (unat (a :: u8)) @ rest) = Some (unat a, rest)"
proof -
  let ?ds = "nat_text (unat a)"
  have dig: "\<forall>b \<in> set ?ds. is_digit b" and ne: "?ds \<noteq> []" and val: "number ?ds = unat a"
    using nat_text_digits [of "unat a"] by (simp_all add: list_all_iff)
  have "takeWhile (\<lambda>b. digit_value 10 b \<noteq> None) (?ds @ rest) = ?ds"
    using dig assms by (subst takeWhile_append2) (cases rest; auto simp: digit_value_digit)+
  moreover have "foldl (\<lambda>n d. 10 * n + the (digit_value 10 d)) 0 ?ds = number ?ds"
    unfolding number_def using dig by (intro foldl_cong) (simp_all add: digit_value_digit)
  moreover have "unat a = 0 \<Longrightarrow> length ?ds = 1" by (simp add: nat_text.simps [of 0])
  ultimately show ?thesis
    using val ne nat_text_first [of "unat a"] nat_text_length [OF unat_u8_lt [of a]] unat_u8_lt [of a]
    by (auto simp: read_number_def Let_def)
qed

lemma read_dotted: "ip_from_str (dotted a b c d) = Some (V4 [a, b, c, d])"
proof -
  have four: "(4 :: nat) = Suc (Suc (Suc (Suc 0)))" by simp
  show ?thesis
    unfolding ip_from_str_def read_ipv4_def dotted_def four
    by (simp add: read_separated_def read_octet [where rest = "[]", simplified] read_octet digit_value_separator)
qed

text \<open>Addresses the library accepts and rejects, by evaluation.\<close>

lemmas read_numerals = read_octets.simps(2) [of _ "pred_numeral k" for k, folded numeral_eq_Suc]
  read_groups.simps(2) [of _ "pred_numeral k" for k, folded numeral_eq_Suc]

lemmas replicate_numerals = replicate_Suc [of "pred_numeral k" for k, folded numeral_eq_Suc]

lemma ip_examples:
  "ip_from_str (ascii ''10.0.0.01'') = None"
  "ip_from_str (ascii ''::1'') = Some (V6 [0, 0, 0, 0, 0, 0, 0, 1])"
  "ip_from_str (ascii ''fe80::1:ff'') = Some (V6 [65152, 0, 0, 0, 0, 0, 1, 255])"
  by (simp_all add: ascii_def ip_from_str_def read_ipv4_def read_ipv6_def read_number_def read_separated_def
      digit_value_def is_digit_def read_numerals replicate_numerals Let_def)

end
