(* ===== verification/Metainfo.thy ===== *)
theory Metainfo
  imports Bencode_Properties Std_Text
begin

text \<open>
  \<open>src/model/torrent.rs\<close>: from a parsed bencode value to a torrent. SHA-1 is a crate and so a
  parameter. Keys are compared after \<open>to_string\<close>, which replaces what is not UTF-8, so two
  keys of a file may become one; the later one, in the order of the bytes, counts.

  The properties: what a written metainfo file reads back as, which values are accepted and
  what the info hash is the hash of.
\<close>

section \<open>The conversions\<close>

definition to_string :: "byte_string \<Rightarrow> bytes" where
  "to_string bs = from_utf8_lossy (elements bs)"

definition convert_dict_keys :: "dict_t \<Rightarrow> (bytes, bencode) btree" where
  "convert_dict_keys eles = bt_collect (map (\<lambda>(k, v). (to_string k, v)) eles)"

definition info_hash :: "(bytes \<Rightarrow> bytes) \<Rightarrow> bencode \<Rightarrow> bytes" where
  "info_hash sha1 bc = sha1 (encode bc)"

text \<open>\<open>as_chunks::<20>()\<close>, without the remainder.\<close>

function chunks20 :: "bytes \<Rightarrow> bytes list" where
  "chunks20 b = (if length b < 20 then [] else take 20 b # chunks20 (drop 20 b))"
  by pat_completeness auto
termination by (relation "measure length") auto

declare chunks20.simps [simp del]

lemma chunks20_Nil [simp]: "chunks20 [] = []"
  by (subst chunks20.simps) simp

text \<open>The two kinds of \<open>if let Some(..) = conv.get(key)\<close>, with their error.\<close>

definition int_entry :: "(bytes, bencode) btree \<Rightarrow> bytes \<Rightarrow> (file_error, i64) res" where
  "int_entry conv key = (case bt_get conv key of Some (Int_value n) \<Rightarrow> Ok n | _ \<Rightarrow> Err (Missing key))"

definition bytes_entry :: "(bytes, bencode) btree \<Rightarrow> bytes \<Rightarrow> (file_error, bytes) res" where
  "bytes_entry conv key =
     (case bt_get conv key of Some (ByteString bs) \<Rightarrow> Ok (elements bs) | _ \<Rightarrow> Err (Missing key))"

definition torrent_info_try_from :: "(bytes \<Rightarrow> bytes) \<Rightarrow> bencode \<Rightarrow> (file_error, v1_torrent_info) res" where
  "torrent_info_try_from sha1 bc =
     (let hash = info_hash sha1 bc in
      case bc of
        Dictionary eles \<Rightarrow>
          (let conv = convert_dict_keys eles in
           res_bind (int_entry conv (ascii ''length'')) (\<lambda>len.
           res_bind (int_entry conv (ascii ''piece length'')) (\<lambda>piece_length.
           res_bind (res_bind (bytes_entry conv (ascii ''pieces'')) (\<lambda>elements.
             if length elements mod 20 \<noteq> 0 then Err WrongType
             else Ok (map (\<lambda>chunk. \<lparr>piece_hash = chunk\<rparr>) (chunks20 elements)))) (\<lambda>pieces.
           res_bind (res_map from_utf8_lossy (bytes_entry conv (ascii ''name''))) (\<lambda>name.
           Ok \<lparr>ti_length = len, ti_piece_length = piece_length, ti_pieces = pieces, ti_name = name,
               ti_info_hash = hash\<rparr>)))))
      | _ \<Rightarrow> Err WrongType)"

definition torrent_try_from :: "(bytes \<Rightarrow> bytes) \<Rightarrow> bencode \<Rightarrow> (file_error, v1_torrent) res" where
  "torrent_try_from sha1 bc =
     (case bc of
        Dictionary eles \<Rightarrow>
          (let conv = bt_collect (map (\<lambda>(k, v). (to_string k, v)) eles) in
           res_bind (case bt_get conv (ascii ''info'') of
               Some d \<Rightarrow> torrent_info_try_from sha1 d
             | None \<Rightarrow> Err (Missing (ascii ''info''))) (\<lambda>info.
           res_bind (res_map from_utf8_lossy (bytes_entry conv (ascii ''announce''))) (\<lambda>announce.
           Ok \<lparr>t_info = info, t_announce = announce, t_announce_list = []\<rparr>)))
      | _ \<Rightarrow> Err WrongType)"

text \<open>
  \<open>src/main.rs\<close>: the file is parsed, and the value converted; \<open>unwrap\<close> turns the errors of
  the conversion into a panic, those of the parser are printed.
\<close>

definition load_torrent :: "nom_api \<Rightarrow> nat \<Rightarrow> (bytes \<Rightarrow> bytes) \<Rightarrow> bytes \<Rightarrow> (file_error, v1_torrent) res" where
  "load_torrent N stack sha1 file_bytes =
     res_bind (parse_bencode N stack file_bytes) (\<lambda>parsed.
     (case torrent_try_from sha1 parsed of Ok torrent \<Rightarrow> Ok torrent | _ \<Rightarrow> Panic))"

section \<open>Chunks and entries\<close>

lemma chunks20_append: "length h = 20 \<Longrightarrow> chunks20 (h @ b) = h # chunks20 b"
  by (subst chunks20.simps) simp

lemma chunks20_concat: "\<forall>h \<in> set hs. length h = 20 \<Longrightarrow> chunks20 (concat hs) = hs"
  by (induction hs) (simp_all add: chunks20_append)

lemma chunks20_covers: "length b mod 20 = 0 \<Longrightarrow> concat (chunks20 b) = b \<and> (\<forall>h \<in> set (chunks20 b). length h = 20)"
proof (induction b rule: chunks20.induct)
  case (1 b)
  show ?case
  proof (cases "length b < 20")
    case True
    then show ?thesis using 1(2) by (simp add: chunks20.simps [of b])
  next
    case False
    have b: "chunks20 b = take 20 b # chunks20 (drop 20 b)"
      by (subst chunks20.simps) (simp only: False if_False)
    have m: "length (drop 20 b) mod 20 = 0" using 1(2) le_mod_geq [of 20 "length b"] False by simp
    note ih = 1(1) [OF False m, THEN conjunct1] 1(1) [OF False m, THEN conjunct2]
    have "length (take 20 b) = 20" using False by simp
    then show ?thesis unfolding b using ih(2) by (simp only: concat.simps ih(1) append_take_drop_id list.set ball_simps simp_thms)
  qed
qed

lemma concat_20: "\<forall>h \<in> set hs. length h = 20 \<Longrightarrow> length (concat hs) mod 20 = 0"
  by (induction hs) (simp_all add: mod_add_eq [symmetric, of 20])

lemma int_entry_iff [simp]:
  "int_entry conv key = Ok n \<longleftrightarrow> bt_get conv key = Some (Int_value n)"
  "int_entry conv key \<noteq> Panic"
  by (auto simp: int_entry_def split: option.splits bencode.splits)

lemma bytes_entry_iff [simp]:
  "bytes_entry conv key = Ok b \<longleftrightarrow> bt_get conv key = Some (ByteString (Byte_string b))"
  "bytes_entry conv key \<noteq> Panic"
  by (auto simp: bytes_entry_def split: option.splits bencode.splits)

section \<open>Which values are accepted\<close>

text \<open>What a dictionary of a file holds under a key: its last entry whose name reads as the key.\<close>

definition dict_value :: "dict_t \<Rightarrow> bytes \<Rightarrow> bencode option" where
  "dict_value d k = map_of (rev (map (\<lambda>(k, v). (to_string k, v)) d)) k"

lemma convert_keys: "bt_get (convert_dict_keys d) k = map_of (rev (map (\<lambda>(k, v). (to_string k, v)) d)) k"
  by (simp add: convert_dict_keys_def bt_get_collect)

lemma convert_value: "bt_get (convert_dict_keys d) k = dict_value d k"
  by (simp add: convert_keys dict_value_def)

lemma converted_entry: "bt_get (convert_dict_keys d) k = Some v \<Longrightarrow> \<exists>bs. (bs, v) \<in> set d \<and> to_string bs = k"
  unfolding convert_keys by (auto dest!: map_of_SomeD)

lemma piece_eta: "\<lparr>piece_hash = piece_hash x\<rparr> = (x :: v1_piece)"
  by (cases x) simp

lemma info_accepted_iff:
  "torrent_info_try_from sha1 bc = Ok i \<longleftrightarrow>
     (\<exists>d name. bc = Dictionary d \<and>
        bt_get (convert_dict_keys d) (ascii ''length'') = Some (Int_value (ti_length i)) \<and>
        bt_get (convert_dict_keys d) (ascii ''piece length'') = Some (Int_value (ti_piece_length i)) \<and>
        bt_get (convert_dict_keys d) (ascii ''pieces'') =
          Some (ByteString (Byte_string (concat (map piece_hash (ti_pieces i))))) \<and>
        bt_get (convert_dict_keys d) (ascii ''name'') = Some (ByteString (Byte_string name)) \<and>
        (\<forall>p \<in> set (ti_pieces i). length (piece_hash p) = 20) \<and>
        ti_name i = from_utf8_lossy name \<and> ti_info_hash i = info_hash sha1 bc)" (is "?l \<longleftrightarrow> ?r")
proof
  assume ?l
  then obtain d where d: "bc = Dictionary d"
    by (cases bc) (simp_all add: torrent_info_try_from_def)
  let ?g = "bt_get (convert_dict_keys d)"
  obtain len pl ps name where g: "?g (ascii ''length'') = Some (Int_value len)"
    "?g (ascii ''piece length'') = Some (Int_value pl)" "?g (ascii ''pieces'') = Some (ByteString (Byte_string ps))"
    "?g (ascii ''name'') = Some (ByteString (Byte_string name))" "length ps mod 20 = 0"
    and i: "i = \<lparr>ti_length = len, ti_piece_length = pl, ti_pieces = map (\<lambda>chunk. \<lparr>piece_hash = chunk\<rparr>) (chunks20 ps),
      ti_name = from_utf8_lossy name, ti_info_hash = info_hash sha1 bc\<rparr>"
    using \<open>?l\<close> by (auto simp: d torrent_info_try_from_def Let_def res_bind_Ok_iff res_map_def split: if_splits)
  show ?r
    using chunks20_covers [OF g(5)] g by (intro exI [of _ d] exI [of _ name]) (simp add: d i comp_def)
next
  assume ?r
  then obtain d name where d: "bc = Dictionary d" and "ti_name i = from_utf8_lossy name" "ti_info_hash i = info_hash sha1 bc"
    and g: "bt_get (convert_dict_keys d) (ascii ''length'') = Some (Int_value (ti_length i))"
    "bt_get (convert_dict_keys d) (ascii ''piece length'') = Some (Int_value (ti_piece_length i))"
    "bt_get (convert_dict_keys d) (ascii ''pieces'') = Some (ByteString (Byte_string (concat (map piece_hash (ti_pieces i)))))"
    "bt_get (convert_dict_keys d) (ascii ''name'') = Some (ByteString (Byte_string name))"
    and p: "\<forall>p \<in> set (ti_pieces i). length (piece_hash p) = 20" by blast
  have "length (concat (map piece_hash (ti_pieces i))) mod 20 = 0"
    using concat_20 [of "map piece_hash (ti_pieces i)"] p by simp
  moreover have "chunks20 (concat (map piece_hash (ti_pieces i))) = map piece_hash (ti_pieces i)"
    using p by (intro chunks20_concat) simp
  ultimately show ?l
    using g \<open>ti_name i = _\<close> \<open>ti_info_hash i = _\<close>
    by (cases i) (simp add: d torrent_info_try_from_def int_entry_def bytes_entry_def comp_def piece_eta)
qed

lemma torrent_accepted_iff:
  "torrent_try_from sha1 bc = Ok t \<longleftrightarrow>
     (\<exists>d info announce. bc = Dictionary d \<and> bt_get (convert_dict_keys d) (ascii ''info'') = Some info \<and>
        torrent_info_try_from sha1 info = Ok (t_info t) \<and>
        bt_get (convert_dict_keys d) (ascii ''announce'') = Some (ByteString (Byte_string announce)) \<and>
        t_announce t = from_utf8_lossy announce \<and> t_announce_list t = [])"
proof (cases bc)
  case (Dictionary d)
  have "t = \<lparr>t_info = i, t_announce = a, t_announce_list = l\<rparr> \<longleftrightarrow> t_info t = i \<and> t_announce t = a \<and> t_announce_list t = l" for i a l
    by (cases t) auto
  then show ?thesis
    by (auto simp: Dictionary torrent_try_from_def Let_def res_bind_Ok_iff res_map_def eq_commute [of _ t]
        simp flip: convert_dict_keys_def split: option.split)
qed (simp_all add: torrent_try_from_def)

section \<open>A writer\<close>

text \<open>The metainfo file of a torrent, as the specification has it: keys in the order of their bytes.\<close>

definition info_value :: "v1_torrent_info \<Rightarrow> bencode" where
  "info_value i = Dictionary
     [(Byte_string (ascii ''length''), Int_value (ti_length i)),
      (Byte_string (ascii ''name''), ByteString (Byte_string (ti_name i))),
      (Byte_string (ascii ''piece length''), Int_value (ti_piece_length i)),
      (Byte_string (ascii ''pieces''), ByteString (Byte_string (concat (map piece_hash (ti_pieces i)))))]"

definition torrent_value :: "v1_torrent \<Rightarrow> bencode" where
  "torrent_value t = Dictionary
     [(Byte_string (ascii ''announce''), ByteString (Byte_string (t_announce t))),
      (Byte_string (ascii ''info''), info_value (t_info t))]"

text \<open>The torrents that have such a file: text in UTF-8, hashes of SHA-1's length.\<close>

definition proper_torrent :: "(bytes \<Rightarrow> bytes) \<Rightarrow> v1_torrent \<Rightarrow> bool" where
  "proper_torrent sha1 t \<longleftrightarrow>
     utf8 (ti_name (t_info t)) \<and> utf8 (t_announce t) \<and>
     (\<forall>p \<in> set (ti_pieces (t_info t)). length (piece_hash p) = 20) \<and>
     ti_info_hash (t_info t) = info_hash sha1 (info_value (t_info t)) \<and> t_announce_list t = [] \<and>
     length (ti_name (t_info t)) < 2 ^ 32 \<and> length (t_announce t) < 2 ^ 32 \<and> 20 * length (ti_pieces (t_info t)) < 2 ^ 32"

lemma ascii_inject [simp]: "ascii s = ascii t \<longleftrightarrow> s = t"
proof -
  have "inj (of_char :: char \<Rightarrow> u8)"
  proof (rule injI)
    have u: "unat (of_char c :: u8) = of_char c" for c :: char
    proof -
      have "(of_char c :: u8) = of_nat (of_char c)" by (simp only: of_nat_of_char)
      then have "unat (of_char c :: u8) = of_char c mod 256" by (simp only: unat_of_nat) simp
      then show ?thesis by simp
    qed
    fix c d :: char
    assume "(of_char c :: u8) = of_char d"
    then have "of_char c = (of_char d :: nat)" using u by metis
    then show "c = d" by simp
  qed
  then show ?thesis by (simp add: ascii_def inj_map_eq_map)
qed

lemma ascii_key: "list_all (\<lambda>b. b < 128) (ascii s) \<Longrightarrow> to_string (Byte_string (ascii s)) = ascii s"
  by (simp add: to_string_def lossy_id utf8_ascii)

lemma text_key:
  "to_string (Byte_string (ascii ''length'')) = ascii ''length''"
  "to_string (Byte_string (ascii ''name'')) = ascii ''name''"
  "to_string (Byte_string (ascii ''piece length'')) = ascii ''piece length''"
  "to_string (Byte_string (ascii ''pieces'')) = ascii ''pieces''"
  "to_string (Byte_string (ascii ''announce'')) = ascii ''announce''"
  "to_string (Byte_string (ascii ''info'')) = ascii ''info''"
  by (rule ascii_key; simp add: ascii_def)+

lemma info_value_keys:
  "bt_get (convert_dict_keys [(Byte_string (ascii ''length''), a), (Byte_string (ascii ''name''), b),
     (Byte_string (ascii ''piece length''), c), (Byte_string (ascii ''pieces''), d)]) =
   [ascii ''length'' \<mapsto> a, ascii ''name'' \<mapsto> b, ascii ''piece length'' \<mapsto> c, ascii ''pieces'' \<mapsto> d]"
  by (simp add: fun_eq_iff convert_keys text_key)

lemma torrent_value_keys:
  "bt_get (convert_dict_keys [(Byte_string (ascii ''announce''), a), (Byte_string (ascii ''info''), b)]) =
   [ascii ''announce'' \<mapsto> a, ascii ''info'' \<mapsto> b]"
  by (simp add: fun_eq_iff convert_keys text_key)

lemma proper_accepted:
  assumes "proper_torrent sha1 t"
  shows "torrent_try_from sha1 (torrent_value t) = Ok t"
proof -
  have "torrent_info_try_from sha1 (info_value (t_info t)) = Ok (t_info t)"
    unfolding info_accepted_iff info_value_def bencode.inject
    by (intro exI [of _ "ti_name (t_info t)"] exI conjI, rule refl)
      (use assms in \<open>simp_all add: info_value_keys proper_torrent_def lossy_id info_value_def\<close>)
  then show ?thesis
    using assms by (simp add: torrent_accepted_iff torrent_value_def torrent_value_keys proper_torrent_def lossy_id)
qed

lemma proper_writable:
  assumes "proper_torrent sha1 t"
  shows "writable (torrent_value t) \<and> depth (torrent_value t) = 3"
proof -
  have "\<forall>p \<in> set ps. length (piece_hash p) = 20 \<Longrightarrow> length (concat (map piece_hash ps)) = 20 * length ps"
    for ps :: "v1_piece list" by (induction ps) auto
  then have "length (concat (map piece_hash (ti_pieces (t_info t)))) = 20 * length (ti_pieces (t_info t))"
    using assms by (simp add: proper_torrent_def)
  then show ?thesis
    using assms by (simp add: torrent_value_def info_value_def short_def proper_torrent_def ascii_def less_byte_string_def)
qed

section \<open>What is hashed\<close>

lemma entry_in_encoding:
  assumes "(k, v) \<in> set d"
  shows "\<exists>pre post. encode (Dictionary d) = pre @ encode v @ post"
proof -
  obtain xs ys where d: "d = xs @ (k, v) # ys" using split_list [OF assms] by blast
  show ?thesis
    by (rule exI [of _ "ascii ''d'' @ encode_dictionary xs @ encode_bs k"],
        rule exI [of _ "encode_dictionary ys @ ascii ''e''"]) (simp add: d encode_dictionary_concat)
qed

lemma load_Ok_iff:
  "load_torrent N n sha1 file_bytes = Ok t \<longleftrightarrow>
     (\<exists>b. parse_bencode N n file_bytes = Ok b \<and> torrent_try_from sha1 b = Ok t)"
  by (cases "parse_bencode N n file_bytes") (auto simp: load_torrent_def split: res.splits)

lemma metainfo_loaded:
  assumes "nom_laws N" and "proper_torrent sha1 t" and "3 \<le> n"
  shows "load_torrent N n sha1 (encode (torrent_value t) @ rest) = Ok t"
proof -
  have "writable (torrent_value t)" "depth (torrent_value t) \<le> n"
    using proper_writable [OF assms(2)] assms(3) by simp_all
  then have "parse_bencode N n (encode (torrent_value t) @ rest) = Ok (torrent_value t)"
    using nom_laws.read_value [OF assms(1)] by (simp add: parse_bencode_def)
  then show ?thesis using proper_accepted [OF assms(2)] by (simp add: load_torrent_def)
qed

section \<open>Properties\<close>

text \<open>
  C11. A metainfo file written for a torrent, with anything behind it, is loaded as that
  torrent: name, lengths, hashes and announce address come back, and the info hash is the
  hash of the info dictionary's bytes in the file.
\<close>

theorem metainfo_roundtrip:
  assumes "nom_laws N" and "proper_torrent sha1 t" and "3 \<le> n"
  shows "load_torrent N n sha1 (encode (torrent_value t) @ rest) = Ok t"
  by (rule metainfo_loaded [OF assms])

text \<open>A torrent of one piece; the lists' length stands for SHA-1.\<close>

definition sample_sha1 :: "bytes \<Rightarrow> bytes" where
  "sample_sha1 b = replicate 20 (of_nat (length b))"

definition sample_info :: v1_torrent_info where
  "sample_info = \<lparr>ti_length = 5, ti_piece_length = 8, ti_pieces = [\<lparr>piece_hash = replicate 20 7\<rparr>],
     ti_name = ascii ''f'', ti_info_hash = []\<rparr>"

definition sample_torrent :: v1_torrent where
  "sample_torrent = \<lparr>t_info = sample_info\<lparr>ti_info_hash := info_hash sample_sha1 (info_value sample_info)\<rparr>,
     t_announce = ascii ''http://t'', t_announce_list = []\<rparr>"

lemma sample_torrent_proper: "proper_torrent sample_sha1 sample_torrent"
  by (simp add: proper_torrent_def sample_torrent_def sample_info_def info_value_def utf8_ascii ascii_def)

lemma metainfo_roundtrip_witness:
  "load_torrent nom_instance 3 sample_sha1 (encode (torrent_value sample_torrent) @ [10]) = Ok sample_torrent"
  by (rule metainfo_roundtrip [OF nom_list.nom_laws_axioms sample_torrent_proper order_refl])

text \<open>
  C33. Whatever file is loaded, each field of the torrent is what the file's dictionary says under the field's key: under
  \<open>info\<close> stands a dictionary whose bytes, as it is encoded within the encoding of the parsed file, are what the info
  hash is the hash of, and in it the lengths, the hashes of 20 bytes each and the name; under \<open>announce\<close> the address.
  Names that are not UTF-8 are repaired, no other announce address is kept, and writing the parsed file out again and
  loading it gives the same torrent.
\<close>

theorem loaded_torrent:
  assumes "nom_laws N" and "load_torrent N n sha1 file_bytes = Ok t"
  shows "\<exists>d i name announce pre post.
      parse_bencode N n file_bytes = Ok (Dictionary d) \<and>
      dict_value d (ascii ''info'') = Some (Dictionary i) \<and>
      dict_value d (ascii ''announce'') = Some (ByteString (Byte_string announce)) \<and>
      dict_value i (ascii ''length'') = Some (Int_value (ti_length (t_info t))) \<and>
      dict_value i (ascii ''piece length'') = Some (Int_value (ti_piece_length (t_info t))) \<and>
      dict_value i (ascii ''pieces'') = Some (ByteString (Byte_string (concat (map piece_hash (ti_pieces (t_info t)))))) \<and>
      dict_value i (ascii ''name'') = Some (ByteString (Byte_string name)) \<and>
      encode (Dictionary d) = pre @ encode (Dictionary i) @ post \<and>
      ti_info_hash (t_info t) = sha1 (encode (Dictionary i)) \<and>
      (\<forall>p \<in> set (ti_pieces (t_info t)). length (piece_hash p) = 20) \<and>
      ti_name (t_info t) = from_utf8_lossy name \<and> utf8 (ti_name (t_info t)) \<and>
      t_announce t = from_utf8_lossy announce \<and> utf8 (t_announce t) \<and> t_announce_list t = [] \<and>
      load_torrent N n sha1 (encode (Dictionary d) @ rest) = Ok t"
proof -
  obtain b where b: "parse_bencode N n file_bytes = Ok b" "torrent_try_from sha1 b = Ok t"
    using assms(2) by (auto simp: load_Ok_iff)
  obtain d info announce where d: "b = Dictionary d" "dict_value d (ascii ''info'') = Some info"
    "torrent_info_try_from sha1 info = Ok (t_info t)" "dict_value d (ascii ''announce'') = Some (ByteString (Byte_string announce))"
    "t_announce t = from_utf8_lossy announce" "t_announce_list t = []"
    using b(2) by (auto simp: torrent_accepted_iff convert_value)
  obtain i name where i: "info = Dictionary i" "dict_value i (ascii ''length'') = Some (Int_value (ti_length (t_info t)))"
    "dict_value i (ascii ''piece length'') = Some (Int_value (ti_piece_length (t_info t)))"
    "dict_value i (ascii ''pieces'') = Some (ByteString (Byte_string (concat (map piece_hash (ti_pieces (t_info t))))))"
    "dict_value i (ascii ''name'') = Some (ByteString (Byte_string name))"
    "\<forall>p \<in> set (ti_pieces (t_info t)). length (piece_hash p) = 20"
    "ti_name (t_info t) = from_utf8_lossy name" "ti_info_hash (t_info t) = sha1 (encode info)"
    using d(3) by (auto simp: info_accepted_iff convert_value info_hash_def)
  obtain pre post where "encode (Dictionary d) = pre @ encode info @ post"
    using converted_entry [of d] d(2) entry_in_encoding by (metis convert_value)
  moreover have "load_torrent N n sha1 (encode b @ rest) = Ok t"
    using nom_laws.reparsed [OF assms(1) b(1)] b(2) by (simp add: load_Ok_iff)
  moreover have "utf8 (ti_name (t_info t))" "utf8 (t_announce t)" by (simp_all add: i(7) d(5) lossy_utf8)
  ultimately show ?thesis using b(1) d i by blast
qed

lemma loaded_torrent_witness:
  "\<exists>d i. parse_bencode nom_instance 3 (encode (torrent_value sample_torrent) @ []) = Ok (Dictionary d) \<and>
      dict_value d (ascii ''info'') = Some (Dictionary i) \<and>
      dict_value i (ascii ''length'') = Some (Int_value 5) \<and>
      ti_info_hash (t_info sample_torrent) = sample_sha1 (encode (Dictionary i))"
proof -
  have "parse_bencode nom_instance 3 (encode (torrent_value sample_torrent) @ []) = Ok (torrent_value sample_torrent)"
    using nom_list.read_value [of "torrent_value sample_torrent" 3 "[]"] proper_writable [OF sample_torrent_proper]
    by (simp add: parse_bencode_def)
  then have "load_torrent nom_instance 3 sample_sha1 (encode (torrent_value sample_torrent) @ []) = Ok sample_torrent"
    using proper_accepted [OF sample_torrent_proper] by (simp add: load_Ok_iff)
  moreover have "ti_length (t_info sample_torrent) = 5" by (simp add: sample_torrent_def sample_info_def)
  ultimately show ?thesis using loaded_torrent [OF nom_list.nom_laws_axioms] by metis
qed

end
