(* ===== verification/Announce.thy ===== *)
theory Announce
  imports Metainfo
begin

text \<open>
  \<open>src/model/tracker.rs\<close> and \<open>src/peer/tracker.rs\<close>: the announce request and what is made of
  the tracker's answer. The crates \<open>url\<close> and \<open>urlencoding\<close> are a record of functions with
  the laws the request's form rests on in the locale \<open>url_laws\<close>; the HTTP client is a function from
  the address asked for to the body of the answer.
\<close>

section \<open>The answer\<close>

record tracker_peer =
  tp_address :: ip_addr
  tp_port :: u16

datatype socket_addr = Socket_v4 "u8 list" u16 | Socket_v6 "u16 list" u16 u32 u32

definition socket_addr_of :: "tracker_peer \<Rightarrow> socket_addr" where
  "socket_addr_of p =
     (case tp_address p of V4 ip \<Rightarrow> Socket_v4 ip (tp_port p) | V6 ip \<Rightarrow> Socket_v6 ip (tp_port p) 0 0)"

definition map_dict_keys :: "dict_t \<Rightarrow> (bytes, bencode) btree" where
  "map_dict_keys dict = bt_collect (map (\<lambda>(k, v). (to_string k, v)) dict)"

definition remove_entry :: "'k \<Rightarrow> ('k, 'v) btree \<Rightarrow> 'v option \<times> ('k, 'v) btree" where
  "remove_entry k dict = (bt_get dict k, bt_remove k dict)"

text \<open>The port is cast with \<open>as\<close>, which keeps the low 16 bits.\<close>

definition tracker_peer_try_from :: "bencode \<Rightarrow> (file_error, tracker_peer) res" where
  "tracker_peer_try_from value =
     (case value of
        Dictionary dict \<Rightarrow>
          (let dict = map_dict_keys dict;
               (ip, dict) = remove_entry (ascii ''ip'') dict;
               (port, dict) = remove_entry (ascii ''port'') dict in
           case (ip, port) of
             (Some (ByteString ip), Some (Int_value port)) \<Rightarrow>
               (case ip_from_str (to_string ip) of
                  None \<Rightarrow> Err (BencodeParse addr_parse_error)
                | Some ip \<Rightarrow> Ok \<lparr>tp_address = ip, tp_port = ucast port\<rparr>)
           | _ \<Rightarrow> Err (Missing (ascii ''missing peerid, ip or port'')))
      | _ \<Rightarrow> Err WrongType)"

record tracker_response =
  tr_interval :: i64
  tr_peers :: "tracker_peer list"
  tr_complete :: "i64 option"
  tr_incomplete :: "i64 option"

definition int_option :: "bencode option \<Rightarrow> i64 option" where
  "int_option v = (case v of Some (Int_value i) \<Rightarrow> Some i | _ \<Rightarrow> None)"

definition tracker_response_try_from :: "bencode \<Rightarrow> (file_error, tracker_response) res" where
  "tracker_response_try_from value =
     (case value of
        Dictionary dict \<Rightarrow>
          (let dict = map_dict_keys dict;
               (interval, dict) = remove_entry (ascii ''interval'') dict;
               (peers, dict) = remove_entry (ascii ''peers'') dict;
               (complete, dict) = remove_entry (ascii ''complete'') dict;
               (incomplete, dict) = remove_entry (ascii ''incomplete'') dict in
           case (interval, peers) of
             (Some (Int_value interval), Some (List peers)) \<Rightarrow>
               Ok \<lparr>tr_interval = interval, tr_peers = flatten_ok (map tracker_peer_try_from peers),
                   tr_complete = int_option complete, tr_incomplete = int_option incomplete\<rparr>
           | _ \<Rightarrow> Err WrongType)
      | _ \<Rightarrow> Err WrongType)"

section \<open>The request\<close>

text \<open>
  Of \<open>url::Url\<close>: parsing, appending a pair to the query, the text, and its query and fragment;
  of \<open>urlencoding\<close>: \<open>encode_binary\<close>.
\<close>

record 'u url_api =
  url_parse :: "bytes \<Rightarrow> 'u option"
  append_pair :: "'u \<Rightarrow> bytes \<Rightarrow> bytes \<Rightarrow> 'u"
  url_text :: "'u \<Rightarrow> bytes"
  url_query :: "'u \<Rightarrow> bytes option"
  url_fragment :: "'u \<Rightarrow> bytes option"
  encode_binary :: "bytes \<Rightarrow> bytes"

record tracker_client =
  tc_torrent :: v1_torrent
  tc_my_peer_id :: internal_peer_id
  tc_uploaded :: usize
  tc_downloaded :: usize

definition tracker_client_new :: "v1_torrent \<Rightarrow> internal_peer_id \<Rightarrow> tracker_client" where
  "tracker_client_new torrent my_peer_id =
     \<lparr>tc_torrent = torrent, tc_my_peer_id = my_peer_id, tc_uploaded = 0, tc_downloaded = 0\<rparr>"

definition get_downloaded :: "tracker_client \<Rightarrow> usize" where
  "get_downloaded c = tc_downloaded c"

definition get_uploaded :: "tracker_client \<Rightarrow> usize" where
  "get_uploaded c = tc_uploaded c"

text \<open>\<open>None\<close>: the \<open>unwrap\<close> of an announce address that does not parse panics.\<close>

definition tracker_url :: "'u url_api \<Rightarrow> tracker_client \<Rightarrow> bytes option" where
  "tracker_url U c =
     (let info_hash = encode_binary U (ti_info_hash (t_info (tc_torrent c)));
          peer_id = encode_binary U (tc_my_peer_id c) in
      map_option (\<lambda>url.
        let url = append_pair U url (ascii ''port'') (ascii ''6881'');
            url = append_pair U url (ascii ''uploaded'') (nat_text (get_uploaded c));
            url = append_pair U url (ascii ''downloaded'') (nat_text (get_downloaded c));
            url = append_pair U url (ascii ''left'') (int_text (sint (ti_length (t_info (tc_torrent c)))));
            url = append_pair U url (ascii ''numwant'') (ascii ''100'')
        in url_text U url @ ascii ''&info_hash='' @ info_hash @ ascii ''&peer_id='' @ peer_id)
      (url_parse U (t_announce (tc_torrent c))))"

datatype announce_error = Http_error nat | File_error file_error

fun lift_file_error :: "(file_error, 'a) res \<Rightarrow> (announce_error, 'a) res" where
  "lift_file_error (Ok a) = Ok a"
| "lift_file_error (Err e) = Err (File_error e)"
| "lift_file_error Panic = Panic"

definition get_announce ::
  "'u url_api \<Rightarrow> (bytes \<Rightarrow> (announce_error, bytes) res) \<Rightarrow> nom_api \<Rightarrow> nat \<Rightarrow> tracker_client \<Rightarrow>
     (announce_error, tracker_response) res"
where
  "get_announce U http_get N stack c =
     res_bind (or_panic (tracker_url U c)) (\<lambda>url.
     res_bind (http_get url) (\<lambda>text_bytes.
     res_bind (lift_file_error (parse_bencode N stack text_bytes)) (\<lambda>decoded.
     lift_file_error (tracker_response_try_from decoded))))"

section \<open>What the crates promise\<close>

text \<open>Letters, digits and the minus sign are not escaped in a query.\<close>

definition plain :: "bytes \<Rightarrow> bool" where
  "plain s \<longleftrightarrow> list_all (\<lambda>b. is_digit b \<or> b = 45 \<or> 97 \<le> b \<and> b \<le> 122) s"

definition query_sep :: "bytes option \<Rightarrow> bytes" where
  "query_sep q = (case q of None \<Rightarrow> ascii ''?'' | Some [] \<Rightarrow> [] | Some _ \<Rightarrow> ascii ''&'')"

locale url_laws =
  fixes U :: "'u url_api"
  assumes append_text: "url_fragment U u = None \<Longrightarrow> plain k \<Longrightarrow> plain v \<Longrightarrow>
      url_text U (append_pair U u k v) = url_text U u @ query_sep (url_query U u) @ k @ ascii ''='' @ v"
    and append_query: "url_fragment U u = None \<Longrightarrow> plain k \<Longrightarrow> plain v \<Longrightarrow>
      url_query U (append_pair U u k v) =
        Some ((case url_query U u of None \<Rightarrow> [] | Some [] \<Rightarrow> [] | Some q \<Rightarrow> q @ ascii ''&'') @ k @ ascii ''='' @ v)"
    and append_fragment: "url_fragment U (append_pair U u k v) = url_fragment U u"
begin

lemma append_next:
  assumes "url_fragment U u = None" "url_query U u = Some q" "q \<noteq> []" "plain k" "plain v"
  shows "url_text U (append_pair U u k v) = url_text U u @ ascii ''&'' @ k @ ascii ''='' @ v \<and>
    url_fragment U (append_pair U u k v) = None \<and>
    (\<exists>q'. url_query U (append_pair U u k v) = Some q' \<and> q' \<noteq> [])"
  using assms by (auto simp: append_text append_query append_fragment query_sep_def neq_Nil_conv)

end

lemma nat_text_plain: "plain (nat_text n)"
  using nat_text_digits(2) [of n] by (auto simp: plain_def list_all_iff)

lemma int_text_plain: "plain (int_text k)"
  using nat_text_plain by (auto simp: int_text_def plain_def)

text \<open>
  An implementation of the interface: an address is what stands before the question mark and the
  query; bytes that are not letters, digits or one of \<open>-._~\<close> are written as a percent sign and
  two hexadecimal digits.
\<close>

definition hex_digit :: "u8 \<Rightarrow> u8" where
  "hex_digit n = (if n < 10 then 48 + n else 55 + n)"

definition percent_encode :: "bytes \<Rightarrow> bytes" where
  "percent_encode s = concat (map (\<lambda>b.
     if is_digit b \<or> 97 \<le> b \<and> b \<le> 122 \<or> 65 \<le> b \<and> b \<le> 90 \<or> b \<in> {45, 46, 95, 126} then [b]
     else [37, hex_digit (drop_bit 4 b), hex_digit (b AND 15)]) s)"

definition url_instance :: "(bytes \<times> bytes option) url_api" where
  "url_instance =
     \<lparr>url_parse = (\<lambda>s. if s = [] \<or> 35 \<in> set s then None
        else Some (takeWhile (\<lambda>b. b \<noteq> 63) s,
          if 63 \<in> set s then Some (drop 1 (dropWhile (\<lambda>b. b \<noteq> 63) s)) else None)),
      append_pair = (\<lambda>(base, q) k v. (base,
        Some ((case q of None \<Rightarrow> [] | Some [] \<Rightarrow> [] | Some q \<Rightarrow> q @ ascii ''&'') @ k @ ascii ''='' @ v))),
      url_text = (\<lambda>(base, q). base @ (case q of None \<Rightarrow> [] | Some q \<Rightarrow> ascii ''?'' @ q)),
      url_query = snd,
      url_fragment = (\<lambda>_. None),
      encode_binary = percent_encode\<rparr>"

interpretation url_pairs: url_laws url_instance
  by unfold_locales (auto simp: url_instance_def query_sep_def ascii_def split: option.splits list.splits)

section \<open>The answer that is understood\<close>

text \<open>
  An entry of the peer list names
  a peer when it is a dictionary with the text of an IPv4 or IPv6 address under \<open>ip\<close> and a number under
  \<open>port\<close>, whatever else it holds (a \<open>peer id\<close>, say); the port is the number modulo 65536.
\<close>

definition peer_entry :: "bencode \<Rightarrow> tracker_peer option" where
  "peer_entry v =
     (case v of
        Dictionary d \<Rightarrow>
          (case (dict_value d (ascii ''ip''), dict_value d (ascii ''port'')) of
             (Some (ByteString ip), Some (Int_value port)) \<Rightarrow>
               map_option (\<lambda>a. \<lparr>tp_address = a, tp_port = of_nat (unat port mod 65536)\<rparr>) (ip_from_str (to_string ip))
           | _ \<Rightarrow> None)
      | _ \<Rightarrow> None)"

definition understood :: "bencode list \<Rightarrow> tracker_peer list" where
  "understood vs = List.map_filter peer_entry vs"

lemma dict_entry: "bt_get (map_dict_keys d) k = dict_value d k"
  by (simp add: map_dict_keys_def bt_get_collect dict_value_def)

lemma dict_wf [simp]: "bt_wf (map_dict_keys d)"
  by (simp add: map_dict_keys_def)

lemma remove_dict_entry: "remove_entry k (map_dict_keys d) = (dict_value d k, bt_remove k (map_dict_keys d))"
  by (simp add: remove_entry_def dict_entry)

lemma text_keys:
  "to_string (Byte_string (ascii ''ip'')) = ascii ''ip''"
  "to_string (Byte_string (ascii ''port'')) = ascii ''port''"
  "to_string (Byte_string (ascii ''interval'')) = ascii ''interval''"
  "to_string (Byte_string (ascii ''peers'')) = ascii ''peers''"
  "to_string (Byte_string (ascii ''peer id'')) = ascii ''peer id''"
  by (rule ascii_key; simp add: ascii_def)+

lemma dotted_small: "list_all (\<lambda>x. x < 128) (dotted a b c d)"
proof -
  have "list_all (\<lambda>x. x < 128) (nat_text n)" for n
    using nat_text_digits(2) [of n] by (auto simp: list_all_iff is_digit_def word_less_nat_alt word_le_nat_alt)
  then show ?thesis by (simp add: dotted_def)
qed

lemma port_cast: "(ucast (port :: i64) :: u16) = of_nat (unat port mod 65536)"
  by (simp add: word_unat_eq_iff unsigned_ucast_eq unat_of_nat take_bit_nat_def)

lemma try_from_peer_entry:
  "flatten_ok [tracker_peer_try_from v] = (case peer_entry v of None \<Rightarrow> [] | Some p \<Rightarrow> [p])"
  by (cases v)
    (auto simp: tracker_peer_try_from_def peer_entry_def remove_entry_def dict_entry port_cast ascii_def Let_def
      split: option.splits bencode.splits)

lemma flatten_listed: "flatten_ok (map tracker_peer_try_from vs) = understood vs"
proof (induction vs)
  case (Cons v vs)
  then show ?case
    using try_from_peer_entry [of v]
    by (cases "tracker_peer_try_from v") (auto simp: understood_def List.map_filter_simps split: option.splits)
qed (simp add: understood_def List.map_filter_simps)

lemma answer_accepted:
  assumes "dict_value d (ascii ''interval'') = Some (Int_value interval)" "dict_value d (ascii ''peers'') = Some (List vs)"
  shows "\<exists>complete incomplete. tracker_response_try_from (Dictionary d) =
    Ok \<lparr>tr_interval = interval, tr_peers = understood vs, tr_complete = complete, tr_incomplete = incomplete\<rparr>"
  using assms
  by (simp add: tracker_response_try_from_def remove_entry_def dict_entry flatten_listed ascii_def Let_def)

text \<open>
  A tracker answers with the bencoding of a dictionary, its keys in order, that has a number under \<open>interval\<close> and a list
  under \<open>peers\<close>.
\<close>

definition tracker_answers :: "(announce_error, bytes) res \<Rightarrow> nat \<Rightarrow> i64 \<Rightarrow> bencode list \<Rightarrow> bool" where
  "tracker_answers body n interval vs \<longleftrightarrow>
     (\<exists>d rest. body = Ok (encode (Dictionary d) @ rest) \<and> writable (Dictionary d) \<and> depth (Dictionary d) \<le> n \<and>
        dict_value d (ascii ''interval'') = Some (Int_value interval) \<and> dict_value d (ascii ''peers'') = Some (List vs))"

lemma answer_announced:
  assumes "nom_laws N" and "tracker_url U c = Some url" and "tracker_answers (http_get url) n interval vs"
  shows "\<exists>complete incomplete. get_announce U http_get N n c =
    Ok \<lparr>tr_interval = interval, tr_peers = understood vs, tr_complete = complete, tr_incomplete = incomplete\<rparr>"
proof -
  obtain d rest where d: "http_get url = Ok (encode (Dictionary d) @ rest)" "writable (Dictionary d)" "depth (Dictionary d) \<le> n"
    "dict_value d (ascii ''interval'') = Some (Int_value interval)" "dict_value d (ascii ''peers'') = Some (List vs)"
    using assms(3) unfolding tracker_answers_def by blast
  have "parse_bencode N n (encode (Dictionary d) @ rest) = Ok (Dictionary d)"
    using nom_laws.read_value [OF assms(1) d(2,3)] by (simp add: parse_bencode_def)
  then show ?thesis using answer_accepted [OF d(4,5)] assms(2) d(1) by (auto simp: get_announce_def)
qed

context url_laws
begin

lemma append_first:
  assumes "url_fragment U u = None" "url_query U u = None" "plain k" "plain v"
  shows "url_text U (append_pair U u k v) = url_text U u @ ascii ''?'' @ k @ ascii ''='' @ v \<and>
    url_fragment U (append_pair U u k v) = None \<and>
    (\<exists>q'. url_query U (append_pair U u k v) = Some q' \<and> q' \<noteq> [])"
  using assms by (auto simp: append_text append_query append_fragment query_sep_def ascii_def)

lemma query_built:
  assumes "url_fragment U u = None" "url_query U u = None" "plain k" "plain v"
    and "list_all (\<lambda>(k, v). plain k \<and> plain v) kvs"
  shows "url_text U (fold (\<lambda>(k, v) u. append_pair U u k v) kvs (append_pair U u k v)) =
    url_text U u @ ascii ''?'' @ k @ ascii ''='' @ v @ concat (map (\<lambda>(k, v). ascii ''&'' @ k @ ascii ''='' @ v) kvs)"
proof -
  have "url_text U (fold (\<lambda>(k, v) u. append_pair U u k v) kvs u) =
      url_text U u @ concat (map (\<lambda>(k, v). ascii ''&'' @ k @ ascii ''='' @ v) kvs)"
    if "url_fragment U u = None" "\<exists>q. url_query U u = Some q \<and> q \<noteq> []" "list_all (\<lambda>(k, v). plain k \<and> plain v) kvs" for u
    using that
  proof (induction kvs arbitrary: u)
    case (Cons x kvs)
    obtain k v where x: "x = (k, v)" by fastforce
    show ?case using Cons.IH [of "append_pair U u k v"] Cons.prems append_next [of u _ k v] by (auto simp: x)
  qed simp
  then show ?thesis using append_first [OF assms(1-4)] assms(5) by simp
qed

end

section \<open>Properties\<close>

text \<open>
  A tracker that answers with an interval and a list of peers is understood: the peers come
  in the order of the list, entries that name no peer are skipped, and each port is what the
  low 16 bits of the number in the answer say, so that a port out of range is not refused.
\<close>

theorem tracker_answer:
  assumes "nom_laws N" and "tracker_url U c = Some url" and "tracker_answers (http_get url) n interval vs"
  shows "\<exists>complete incomplete. get_announce U http_get N n c =
    Ok \<lparr>tr_interval = interval, tr_peers = understood vs, tr_complete = complete, tr_incomplete = incomplete\<rparr>"
  by (rule answer_announced [where http_get = http_get, OF assms])

text \<open>
  An entry with an IPv4 address and a peer id, one that is no dictionary, one with an IPv6 address (of the recorded
  answer in the tests of \<open>bencode.rs\<close>) and a port that is 2 above 65536, and one whose address is a host name.
\<close>

definition sample_entry :: "string \<Rightarrow> i64 \<Rightarrow> bencode" where
  "sample_entry ip port = Dictionary
     [(Byte_string (ascii ''ip''), ByteString (Byte_string (ascii ip))),
      (Byte_string (ascii ''peer id''), ByteString (Byte_string (replicate 20 45))),
      (Byte_string (ascii ''port''), Int_value port)]"

definition sample_peers :: "bencode list" where
  "sample_peers = [sample_entry ''10.0.0.1'' 6881, Int_value 3, sample_entry ''2001:bc8:1640:530::1'' 65538,
     sample_entry ''tracker'' 80]"

definition sample_answer :: dict_t where
  "sample_answer =
     [(Byte_string (ascii ''interval''), Int_value 1800),
      (Byte_string (ascii ''peers''), List sample_peers)]"

lemma sample_addresses:
  "ip_from_str (ascii ''10.0.0.1'') = Some (V4 [10, 0, 0, 1])"
  "ip_from_str (ascii ''2001:bc8:1640:530::1'') = Some (V6 [8193, 3016, 5696, 1328, 0, 0, 0, 1])"
  "ip_from_str (ascii ''tracker'') = None"
  by (simp_all add: ascii_def ip_from_str_def read_ipv4_def read_ipv6_def read_number_def read_separated_def
      digit_value_def is_digit_def read_numerals replicate_numerals Let_def)

lemma sample_entry_peer:
  assumes "list_all (\<lambda>b. b < 128) (ascii ip)"
  shows "peer_entry (sample_entry ip port) =
    map_option (\<lambda>a. \<lparr>tp_address = a, tp_port = of_nat (unat port mod 65536)\<rparr>) (ip_from_str (ascii ip))"
proof -
  have "ascii ''ip'' \<noteq> ascii ''port''" "ascii ''ip'' \<noteq> ascii ''peer id''" "ascii ''port'' \<noteq> ascii ''peer id''" by (simp_all add: ascii_def)
  then show ?thesis
    by (simp add: peer_entry_def sample_entry_def dict_value_def text_keys ascii_key [OF assms])
qed

lemma sample_understood:
  "understood sample_peers =
     [\<lparr>tp_address = V4 [10, 0, 0, 1], tp_port = 6881\<rparr>,
      \<lparr>tp_address = V6 [8193, 3016, 5696, 1328, 0, 0, 0, 1], tp_port = 2\<rparr>]"
proof -
  have "list_all (\<lambda>b. b < 128) (ascii ''10.0.0.1'')" "list_all (\<lambda>b. b < 128) (ascii ''2001:bc8:1640:530::1'')"
    "list_all (\<lambda>b. b < 128) (ascii ''tracker'')" by (simp_all add: ascii_def)
  note entries = this [THEN sample_entry_peer]
  have "peer_entry (Int_value 3) = None" by (simp add: peer_entry_def)
  then show ?thesis by (simp add: understood_def sample_peers_def List.map_filter_simps entries sample_addresses)
qed

lemma sample_answers: "tracker_answers (Ok (encode (Dictionary sample_answer) @ [])) 5 1800 sample_peers"
proof -
  have "writable (Dictionary sample_answer)" "depth (Dictionary sample_answer) \<le> 5"
    by (simp add: sample_answer_def sample_peers_def sample_entry_def short_def ascii_def less_byte_string_def)+
  moreover have "dict_value sample_answer (ascii ''interval'') = Some (Int_value 1800)"
    "dict_value sample_answer (ascii ''peers'') = Some (List sample_peers)"
    by (simp_all add: dict_value_def sample_answer_def text_keys)
  ultimately show ?thesis unfolding tracker_answers_def by blast
qed

lemma tracker_answer_witness:
  "\<exists>complete incomplete. get_announce url_instance (\<lambda>_. Ok (encode (Dictionary sample_answer) @ [])) nom_instance 5
     (tracker_client_new sample_torrent []) =
   Ok \<lparr>tr_interval = 1800,
     tr_peers = [\<lparr>tp_address = V4 [10, 0, 0, 1], tp_port = 6881\<rparr>,
       \<lparr>tp_address = V6 [8193, 3016, 5696, 1328, 0, 0, 0, 1], tp_port = 2\<rparr>],
     tr_complete = complete, tr_incomplete = incomplete\<rparr>"
proof -
  have "\<exists>url. tracker_url url_instance (tracker_client_new sample_torrent []) = Some url"
    by (simp add: tracker_url_def tracker_client_new_def sample_torrent_def url_instance_def ascii_def Let_def)
  then obtain url where "tracker_url url_instance (tracker_client_new sample_torrent []) = Some url" by blast
  from tracker_answer [where http_get = "\<lambda>_. Ok (encode (Dictionary sample_answer) @ [])", OF nom_list.nom_laws_axioms this sample_answers]
  show ?thesis unfolding sample_understood .
qed

text \<open>
  The request for an announce address without query and fragment: the fixed port, nothing
  uploaded or downloaded (no code ever counts either), the torrent's length as what is left,
  and the escaped info hash and peer id. An announce address that does not parse panics.
\<close>

theorem announce_request:
  assumes "url_laws U" and "url_parse U (t_announce torrent) = Some u"
    and "url_fragment U u = None" and "url_query U u = None"
  shows "tracker_url U (tracker_client_new torrent our_id) =
      Some (url_text U u @ ascii ''?port=6881&uploaded=0&downloaded=0&left='' @
        int_text (sint (ti_length (t_info torrent))) @ ascii ''&numwant=100&info_hash='' @
        encode_binary U (ti_info_hash (t_info torrent)) @ ascii ''&peer_id='' @ encode_binary U our_id) \<and>
    (url_parse U (t_announce other) = None \<longrightarrow>
       get_announce U http_get N n (tracker_client_new other our_id) = Panic)"
proof -
  let ?left = "int_text (sint (ti_length (t_info torrent)))"
  have "plain (ascii ''port'')" "plain (ascii ''6881'')" "plain (ascii ''uploaded'')" "plain (ascii ''downloaded'')"
    "plain (ascii ''left'')" "plain (ascii ''numwant'')" "plain (ascii ''100'')" "plain (nat_text 0)"
    using nat_text_plain by (simp_all add: plain_def is_digit_def ascii_def)
  then have "url_text U (fold (\<lambda>(k, v) u. append_pair U u k v)
      [(ascii ''uploaded'', nat_text 0), (ascii ''downloaded'', nat_text 0), (ascii ''left'', ?left), (ascii ''numwant'', ascii ''100'')]
      (append_pair U u (ascii ''port'') (ascii ''6881''))) =
    url_text U u @ ascii ''?port=6881&uploaded=0&downloaded=0&left='' @ ?left @ ascii ''&numwant=100''"
    using int_text_plain by (subst url_laws.query_built [OF assms(1,3,4)]) (simp_all add: nat_text.simps [of 0] ascii_def)
  then show ?thesis
    using assms(2)
    by (auto simp: tracker_url_def tracker_client_new_def get_uploaded_def get_downloaded_def get_announce_def Let_def ascii_def)
qed

lemma announce_request_witness:
  "tracker_url url_instance (tracker_client_new sample_torrent (replicate 20 45)) =
      Some (ascii ''http://t'' @ ascii ''?port=6881&uploaded=0&downloaded=0&left='' @ int_text 5 @
        ascii ''&numwant=100&info_hash='' @ encode_binary url_instance (ti_info_hash (t_info sample_torrent)) @
        ascii ''&peer_id='' @ encode_binary url_instance (replicate 20 45))"
proof -
  have "url_parse url_instance (t_announce sample_torrent) = Some (ascii ''http://t'', None)"
    by (simp add: url_instance_def sample_torrent_def ascii_def)
  then show ?thesis
    using announce_request [OF url_pairs.url_laws_axioms, of sample_torrent "(ascii ''http://t'', None)" "replicate 20 45"]
    by (simp add: url_instance_def sample_torrent_def sample_info_def)
qed

end
