(* ===== verification/Connection.thy ===== *)
theory Connection
  imports Protocol Allocation
begin

text \<open>
  \<open>src/peer/net.rs\<close>: a \<open>Connection<D>\<close> is a TCP stream with a receive buffer and a decoder.
  The stream is the environment: the list of results its successive \<open>read_buf\<close> calls will
  give, each some bytes (none: end of stream) or an error; where the list ends the call never
  returns (\<open>Pending\<close>). \<open>read_msg\<close> is the loop that decodes from the buffer and reads more
  when the decoder reports a short buffer.

  The decoder is generic in the code, so the model takes it as an argument, and the locale
  \<open>framed_codec\<close> states what a codec must promise for the loop to reassemble messages however
  TCP cuts the stream. \<open>Messages\<close> keeps that promise (interpreted below); the handshake
  decoder does not, because it panics on some short buffers.
\<close>

section \<open>Reading\<close>

datatype read_event = ReadOk bytes | ReadErr nat

datatype conn_error = ProtocolErr protocol_error | PeerErr peer_error | StreamErr nat

datatype 'm read_outcome =
    Msg 'm                  \<comment> \<open>\<open>Ok(Some(msg))\<close>\<close>
  | Closed                  \<comment> \<open>\<open>Ok(None)\<close>\<close>
  | Failed conn_error       \<comment> \<open>\<open>Err(e)\<close>\<close>
  | Crashed                 \<comment> \<open>the decoder panicked\<close>
  | Pending                 \<comment> \<open>still waiting for the stream\<close>

type_synonym 'm decoder = "bytes \<Rightarrow> (protocol_error, 'm \<times> bytes) res"

text \<open>
  The body of the loop up to the read: decode when the buffer has the bytes last asked for,
  and drop from it what the decoder consumed.
\<close>

datatype 'm attempt = Decoded 'm bytes | Need usize | Rejected protocol_error | Panicked

definition try_decode :: "bytes_api \<Rightarrow> 'm decoder \<Rightarrow> usize \<Rightarrow> bytes \<Rightarrow> 'm attempt" where
  "try_decode A D needs buffer =
     (if needs \<le> remaining A buffer then
        (case D buffer of
           Ok (msg, read_buf) \<Rightarrow>
             (case usize_sub (remaining A buffer) (remaining A read_buf) of
                None \<Rightarrow> Panicked
              | Some n \<Rightarrow> (case advance A buffer n of None \<Rightarrow> Panicked | Some b \<Rightarrow> Decoded msg b))
         | Err (TryGet e) \<Rightarrow> Need (requested e)
         | Err e \<Rightarrow> Rejected e
         | Panic \<Rightarrow> Panicked)
      else Need needs)"

fun read_loop ::
  "bytes_api \<Rightarrow> 'm decoder \<Rightarrow> usize \<Rightarrow> bytes \<Rightarrow> read_event list \<Rightarrow> 'm read_outcome \<times> bytes \<times> read_event list"
where
  "read_loop A D needs buffer evs =
     (case try_decode A D needs buffer of
        Decoded msg b \<Rightarrow> (Msg msg, b, evs)
      | Rejected e \<Rightarrow> (Failed (ProtocolErr e), buffer, evs)
      | Panicked \<Rightarrow> (Crashed, buffer, evs)
      | Need n \<Rightarrow>
          (case evs of
             [] \<Rightarrow> (Pending, buffer, [])
           | ReadErr e # evs' \<Rightarrow> (Failed (StreamErr e), buffer, evs')
           | ReadOk d # evs' \<Rightarrow>
               (if length d = 0 then
                  (if buffer = [] then (Closed, buffer, evs')
                   else (Failed (PeerErr (Other (ascii ''connection reset by peer''))), buffer, evs'))
                else read_loop A D n (buffer @ d) evs')))"

declare read_loop.simps [simp del]

definition read_msg :: "bytes_api \<Rightarrow> 'm decoder \<Rightarrow> bytes \<Rightarrow> read_event list \<Rightarrow> 'm read_outcome \<times> bytes \<times> read_event list" where
  "read_msg A D buffer evs = read_loop A D 0 buffer evs"

text \<open>\<open>k\<close> calls of \<open>read_msg\<close> in a row on one connection.\<close>

fun read_n :: "bytes_api \<Rightarrow> 'm decoder \<Rightarrow> nat \<Rightarrow> bytes \<Rightarrow> read_event list \<Rightarrow> 'm read_outcome list \<times> bytes \<times> read_event list" where
  "read_n A D 0 buffer evs = ([], buffer, evs)"
| "read_n A D (Suc k) buffer evs =
     (case read_msg A D buffer evs of (x, b, evs') \<Rightarrow>
        (case read_n A D k b evs' of (xs, b', evs'') \<Rightarrow> (x # xs, b', evs'')))"

section \<open>Writing, the handshake and the peer loop\<close>

text \<open>\<open>write_all_buf\<close> under a timeout either writes the whole buffer, fails, or times out.\<close>

datatype write_event = WriteOk | WriteTimeout | WriteErr nat

definition write_msg ::
  "('m \<Rightarrow> bytes \<Rightarrow> (protocol_error, bytes) res) \<Rightarrow> 'm \<Rightarrow> write_event \<Rightarrow> bytes \<Rightarrow> (conn_error, bytes) res"
where
  "write_msg enc msg w out =
     (case enc msg [] of
        Panic \<Rightarrow> Panic
      | Err e \<Rightarrow> Err (ProtocolErr e)
      | Ok b \<Rightarrow>
          (case w of
             WriteOk \<Rightarrow> Ok (out @ b)
           | WriteTimeout \<Rightarrow> Err (PeerErr NetworkTimeout)
           | WriteErr e \<Rightarrow> Err (StreamErr e)))"

text \<open>
  \<open>do_handshake\<close>: send ours, then read theirs from an empty buffer. The result carries the
  peer's handshake and the receive buffer the translated connection starts with.
\<close>

definition do_handshake ::
  "bytes_api \<Rightarrow> v1_torrent \<Rightarrow> internal_peer_id \<Rightarrow> write_event \<Rightarrow> read_event list \<Rightarrow>
     (conn_error, handshake \<times> bytes \<times> bytes) res"
where
  "do_handshake A torrent our_id w evs =
     (let our_handshake = \<lparr>peer_ctx = \<lparr>pc_info_hash = ti_info_hash (t_info torrent), pc_peer_id = our_id\<rparr>\<rparr> in
      res_bind (write_msg (\<lambda>h i. Ok (handshake_encode A h i)) our_handshake w []) (\<lambda>out.
      case read_msg A (handshake_decode A) [] evs of
        (Msg handshake, buffer, _) \<Rightarrow> Ok (handshake, buffer, out)
      | (Failed e, _, _) \<Rightarrow> Err e
      | (Crashed, _, _) \<Rightarrow> Panic
      | (Closed, _, _) \<Rightarrow> Err (PeerErr (Other (ascii ''Expected a handshake, but got an unknown message.'')))
      | (Pending, _, _) \<Rightarrow> Err (PeerErr NetworkTimeout)))"

text \<open>
  The loop of \<open>connect_torrent_peers\<close>: \<open>attempt\<close> is what connecting to a peer and shaking
  hands with it within the timeouts gives; the result is the list of the running connections.
  The attempts run in the caller's task, so one that panics ends the loop (\<open>None\<close>).
\<close>

fun connect_loop :: "usize \<Rightarrow> ('p \<Rightarrow> ('e, 'c) res) \<Rightarrow> 'c list \<Rightarrow> 'p list \<Rightarrow> 'c list option" where
  "connect_loop limit attempt active_conns [] = Some active_conns"
| "connect_loop limit attempt active_conns (peer # peers) =
     (if length active_conns \<ge> limit then Some active_conns
      else (case attempt peer of
          Ok conn \<Rightarrow> connect_loop limit attempt (active_conns @ [conn]) peers
        | Err _ \<Rightarrow> connect_loop limit attempt active_conns peers
        | Panic \<Rightarrow> None))"

section \<open>The contract of a framed codec, and reassembly\<close>

locale framed_codec = bytes_laws A for A +
  fixes D :: "'m decoder"
    and wire :: "'m \<Rightarrow> bytes"
    and fits :: "'m \<Rightarrow> bool"
  assumes decode_wire: "fits m \<Longrightarrow> D (wire m @ r) = Ok (m, r)"
    and decode_short: "fits m \<Longrightarrow> wire m = p @ q \<Longrightarrow> q \<noteq> [] \<Longrightarrow>
      \<exists>req av. D p = Err (TryGet (TryGetError req av)) \<and> req \<le> length (wire m)"
    and wire_nonempty: "fits m \<Longrightarrow> wire m \<noteq> []"
begin

lemma try_decode_wire:
  "fits m \<Longrightarrow> needs \<le> length (wire m) \<Longrightarrow> try_decode A D needs (wire m @ r) = Decoded m r"
  by (simp add: try_decode_def decode_wire remaining advance usize_sub_def)

lemma try_decode_short:
  assumes "fits m" "wire m = p @ q" "q \<noteq> []" "needs \<le> length (wire m)"
  obtains n where "try_decode A D needs p = Need n" "n \<le> length (wire m)"
proof -
  obtain req av where "D p = Err (TryGet (TryGetError req av))" "req \<le> length (wire m)"
    using decode_short assms(1-3) by blast
  then show ?thesis
    using assms(4) that by (cases "needs \<le> length p") (auto simp: try_decode_def remaining)
qed

text \<open>One message: whatever cut of the stream delivers it, the loop returns it and keeps the rest.\<close>

lemma read_loop_one:
  assumes "fits m" and "\<forall>d \<in> set ds. d \<noteq> []"
    and "buf @ concat ds = wire m @ rest" and "needs \<le> length (wire m)"
  shows "\<exists>buf' ds'. read_loop A D needs buf (map ReadOk ds @ evs) = (Msg m, buf', map ReadOk ds' @ evs) \<and>
    buf' @ concat ds' = rest \<and> set ds' \<subseteq> set ds"
  using assms(2-)
proof (induction ds arbitrary: buf needs)
  case Nil
  then show ?case
    using try_decode_wire [OF assms(1)] by (simp add: read_loop.simps)
next
  case (Cons d ds)
  show ?case
  proof (cases "length (wire m) \<le> length buf")
    case True
    then obtain r where r: "buf = wire m @ r"
      using Cons.prems(2) by (metis append_eq_append_conv_if append_take_drop_id)
    then show ?thesis
      using try_decode_wire [OF assms(1) Cons.prems(3), of r] Cons.prems(2)
      by (intro exI [of _ r] exI [of _ "d # ds"]) (simp add: read_loop.simps)
  next
    case False
    then have "take (length buf) (wire m) = buf"
      using arg_cong [OF Cons.prems(2), of "take (length buf)"] by simp
    then obtain q where q: "wire m = buf @ q" "q \<noteq> []"
      using False by (metis append_Nil2 append_take_drop_id order_refl)
    obtain n where n: "try_decode A D needs buf = Need n" "n \<le> length (wire m)"
      using try_decode_short [OF assms(1) q Cons.prems(3)] by blast
    have "\<exists>buf' ds'. read_loop A D n (buf @ d) (map ReadOk ds @ evs) = (Msg m, buf', map ReadOk ds' @ evs) \<and>
      buf' @ concat ds' = rest \<and> set ds' \<subseteq> set ds"
      using Cons.prems n by (intro Cons.IH) auto
    moreover have "read_loop A D needs buf (map ReadOk (d # ds) @ evs) = read_loop A D n (buf @ d) (map ReadOk ds @ evs)"
      using n Cons.prems(1) by (subst read_loop.simps) simp
    ultimately show ?thesis by fastforce
  qed
qed

lemma read_n_stream:
  assumes "\<forall>m \<in> set ms. fits m" and "\<forall>d \<in> set ds. d \<noteq> []"
    and "buf @ concat ds = concat (map wire ms) @ rest"
  shows "\<exists>buf' ds'. read_n A D (length ms) buf (map ReadOk ds @ evs) = (map Msg ms, buf', map ReadOk ds' @ evs) \<and>
    buf' @ concat ds' = rest \<and> set ds' \<subseteq> set ds"
  using assms
proof (induction ms arbitrary: buf ds)
  case Nil
  then show ?case by auto
next
  case (Cons m ms)
  then obtain b ds1 where one: "read_msg A D buf (map ReadOk ds @ evs) = (Msg m, b, map ReadOk ds1 @ evs)"
    "b @ concat ds1 = concat (map wire ms) @ rest" "set ds1 \<subseteq> set ds"
    using read_loop_one [of m ds buf "concat (map wire ms) @ rest" 0 evs] by (auto simp: read_msg_def)
  then obtain b' ds' where "read_n A D (length ms) b (map ReadOk ds1 @ evs) = (map Msg ms, b', map ReadOk ds' @ evs)"
    "b' @ concat ds' = rest" "set ds' \<subseteq> set ds1"
    using Cons.IH [of ds1 b] Cons.prems by auto
  with one show ?case by fastforce
qed

text \<open>At the end of the stream: a clean close only between two messages.\<close>

lemma read_msg_eof:
  assumes "fits m" "wire m = p @ q" "q \<noteq> []"
  shows "read_msg A D p (ReadOk [] # evs) =
    (if p = [] then (Closed, [], evs)
     else (Failed (PeerErr (Other (ascii ''connection reset by peer''))), p, evs))"
proof -
  obtain n where "try_decode A D 0 p = Need n"
    using try_decode_short [OF assms, of 0] by auto
  then show ?thesis by (simp add: read_msg_def read_loop.simps)
qed

end

lemma messages_framed: "bytes_laws A \<Longrightarrow> framed_codec A (messages_decode A) messages_wire messages_fits"
proof (intro framed_codec.intro framed_codec_axioms.intro)
  show "messages_wire m \<noteq> []" for m
    using length_messages_wire [of m] by (metis add_is_0 list.size(3) zero_neq_numeral)
qed (use bytes_laws.messages_decode_wire bytes_laws.messages_decode_short in blast)+

interpretation messages_conn: framed_codec list_bytes "messages_decode list_bytes" messages_wire messages_fits
  by (rule messages_framed) unfold_locales

section \<open>Properties\<close>

text \<open>A frame with an id the protocol does not have, and a length the flags do not have.\<close>

definition unknown_frame :: "bytes \<Rightarrow> bool" where
  "unknown_frame b \<longleftrightarrow>
     (\<exists>w id body r. b = be32 w @ id # body @ r \<and> unat w = Suc (length body) \<and>
        (if body = [] then id \<notin> {0..8} else id \<notin> {4..8}))"

context bytes_laws
begin

lemma messages_decode_unknown:
  assumes "unknown_frame b"
  shows "messages_decode A b = Err BadId"
proof -
  obtain w id body r where b: "b = be32 w @ id # body @ r" "unat w = Suc (length body)"
    "if body = [] then id \<notin> {0..8} else id \<notin> {4..8}"
    using assms by (auto simp: unknown_frame_def)
  have ids: "id \<noteq> 4" "id \<noteq> 5" "id \<noteq> 6" "id \<noteq> 7" "id \<noteq> 8"
    using b(3) by (auto simp: word_le_nat_alt split: if_splits)
  moreover have "body = [] \<Longrightarrow> flag_try_from id = Err BadId"
    using b(3) by (auto simp: flag_try_from_def word_le_nat_alt)
  ultimately show ?thesis
    using b(2) by (auto simp: b(1) messages_decode_def codec_simps Let_def)
qed

lemma first_handshake_read: "try_decode A (handshake_decode A) 0 [] = Need 1"
  by (simp add: try_decode_def handshake_decode_def codec_simps)

lemma cut_handshake:
  assumes "length proto = unat p" and "length res < 8"
  shows "do_handshake A torrent our_id WriteOk (ReadOk (p # proto @ res) # evs) = Panic"
proof -
  have "handshake_decode A (p # proto @ res) = Panic"
    unfolding handshake_decode_Panic_iff using assms by blast
  then have "try_decode A (handshake_decode A) 1 (p # proto @ res) = Panicked"
    by (simp add: try_decode_def remaining)
  then show ?thesis
    using first_handshake_read by (simp add: do_handshake_def write_msg_def read_msg_def read_loop.simps handshake_encode_eq)
qed

lemma handshake_attempt:
  assumes "length proto = unat p" and "length res = 8"
    and "length (pc_info_hash (peer_ctx h)) = 20" "length (pc_peer_id (peer_ctx h)) = 20"
  shows "do_handshake A torrent our_id WriteOk
      (ReadOk (p # proto @ res @ pc_info_hash (peer_ctx h) @ pc_peer_id (peer_ctx h) @ extra) # evs) =
    Ok (h, extra, 19 # ascii ''BitTorrent protocol'' @ be64 0 @ ti_info_hash (t_info torrent) @ our_id) \<and>
    (\<forall>k < 8. do_handshake A torrent our_id WriteOk (ReadOk (p # proto @ take k res) # evs) = Panic)"
proof -
  let ?b = "p # proto @ res @ pc_info_hash (peer_ctx h) @ pc_peer_id (peer_ctx h) @ extra"
  have "handshake_decode A ?b = Ok (h, extra)"
    unfolding handshake_decode_Ok_iff using assms by blast
  moreover have "drop (length ?b - length extra) ?b = extra" by simp
  ultimately have "try_decode A (handshake_decode A) 1 ?b = Decoded h extra"
    by (simp add: try_decode_def remaining advance usize_sub_def del: drop_append)
  then show ?thesis
    using first_handshake_read cut_handshake [OF assms(1), of "take _ res"]
    by (simp add: do_handshake_def write_msg_def read_msg_def read_loop.simps handshake_encode_eq)
qed

end

text \<open>
  C2. Messages survive the stream: however TCP cuts the bytes of a sequence of messages into
  non-empty reads, calling \<open>read_msg\<close> once per message returns exactly those messages in
  order, and what follows them is still in the buffer or unread.
\<close>

theorem stream_reassembly:
  assumes "bytes_laws A" and "\<forall>m \<in> set ms. messages_fits m" and "\<forall>d \<in> set ds. d \<noteq> []"
    and "concat ds = concat (map messages_wire ms) @ rest"
  shows "\<exists>buf' ds'. read_n A (messages_decode A) (length ms) [] (map ReadOk ds @ evs) =
      (map Msg ms, buf', map ReadOk ds' @ evs) \<and> buf' @ concat ds' = rest"
  using framed_codec.read_n_stream [OF messages_framed [OF assms(1)] assms(2,3), of "[]" rest evs] assms(4)
  by auto

lemma stream_reassembly_witness:
  "\<exists>buf' ds'. read_n list_bytes (messages_decode list_bytes) (length [Have 3, KeepAlive]) []
       (map ReadOk [[0, 0], [0, 5, 4, 0, 0, 0], [3, 0, 0, 0], [0, 9]] @ []) =
      (map Msg [Have 3, KeepAlive], buf', map ReadOk ds' @ []) \<and> buf' @ concat ds' = [9]"
  by (rule stream_reassembly [OF list_bytes.bytes_laws_axioms])
    (auto simp: messages_fits_def messages_wire_def be32_def as_u32_Suc)

text \<open>
  The end of the stream between two messages closes the connection cleanly, and inside a
  message it is the error "connection reset by peer"; the bytes read so far stay put.
\<close>

theorem stream_end:
  assumes "bytes_laws A" and "messages_fits m" and "messages_wire m = p @ q" and "q \<noteq> []"
  shows "read_msg A (messages_decode A) p (ReadOk [] # evs) =
    (if p = [] then (Closed, [], evs)
     else (Failed (PeerErr (Other (ascii ''connection reset by peer''))), p, evs))"
  by (rule framed_codec.read_msg_eof [OF messages_framed [OF assms(1)] assms(2-4)])

lemma stream_end_witness:
  "read_msg list_bytes (messages_decode list_bytes) [0, 0, 0, 5, 4] (ReadOk [] # []) =
    (if [0, 0, 0, 5, 4 :: u8] = [] then (Closed, [], [])
     else (Failed (PeerErr (Other (ascii ''connection reset by peer''))), [0, 0, 0, 5, 4], []))"
  by (rule stream_end [OF list_bytes.bytes_laws_axioms, of "Have 3" _ "[0, 0, 0, 3]"])
    (auto simp: messages_fits_def messages_wire_def be32_def as_u32_Suc)

text \<open>
  A frame with an unknown id is reported as \<open>BadId\<close> and never leaves the buffer: every
  later call fails the same way, and no later byte of the stream is read.
\<close>

theorem unknown_frame_blocks:
  assumes "bytes_laws A" and "unknown_frame b"
  shows "read_n A (messages_decode A) n b evs = (replicate n (Failed (ProtocolErr BadId)), b, evs)"
proof (induction n)
  case (Suc n)
  have "read_msg A (messages_decode A) b evs = (Failed (ProtocolErr BadId), b, evs)"
    by (simp add: read_msg_def read_loop.simps try_decode_def bytes_laws.messages_decode_unknown [OF assms])
  then show ?case using Suc.IH by simp
qed simp

lemma unknown_frame_blocks_witness:
  "read_n list_bytes (messages_decode list_bytes) 2 [0, 0, 0, 1, 20] [ReadOk [0, 0, 0, 0]] =
     (replicate 2 (Failed (ProtocolErr BadId)), [0, 0, 0, 1, 20], [ReadOk [0, 0, 0, 0]])"
proof (rule unknown_frame_blocks [OF list_bytes.bytes_laws_axioms])
  have "[0, 0, 0, 1, 20] = be32 1 @ 20 # [] @ []" "20 \<notin> {0..8 :: u8}"
    by (auto simp: be32_def word_le_nat_alt)
  then show "unknown_frame [0, 0, 0, 1, 20]"
    unfolding unknown_frame_def by (metis (mono_tags, lifting) One_nat_def list.size(3) unat_1)
qed

text \<open>
  The handshake exchange: when the peer's handshake arrives, whatever its info hash and
  protocol string are, the call succeeds with the peer's context, having sent our own
  handshake, and bytes behind it stay in the buffer; when the first read ends inside the
  eight reserved bytes, the task panics.
\<close>

theorem handshake_exchange:
  assumes "bytes_laws A" and "length proto = unat p" and "length res = 8"
    and "length (pc_info_hash (peer_ctx h)) = 20" "length (pc_peer_id (peer_ctx h)) = 20"
  shows "do_handshake A torrent our_id WriteOk
      (ReadOk (p # proto @ res @ pc_info_hash (peer_ctx h) @ pc_peer_id (peer_ctx h) @ extra) # evs) =
    Ok (h, extra, 19 # ascii ''BitTorrent protocol'' @ be64 0 @ ti_info_hash (t_info torrent) @ our_id) \<and>
    (\<forall>k < 8. do_handshake A torrent our_id WriteOk (ReadOk (p # proto @ take k res) # evs) = Panic)"
  by (rule bytes_laws.handshake_attempt [OF assms])

lemma handshake_exchange_witness:
  "do_handshake list_bytes small_torrent (replicate 20 9) WriteOk
      [ReadOk (3 # [1, 1, 1] @ replicate 8 0 @ replicate 20 7 @ replicate 20 8 @ [0])] =
    Ok (\<lparr>peer_ctx = \<lparr>pc_info_hash = replicate 20 7, pc_peer_id = replicate 20 8\<rparr>\<rparr>, [0],
      19 # ascii ''BitTorrent protocol'' @ be64 0 @ ti_info_hash (t_info small_torrent) @ replicate 20 9)"
  by (rule handshake_exchange [where h = "\<lparr>peer_ctx = \<lparr>pc_info_hash = replicate 20 7, pc_peer_id = replicate 20 8\<rparr>\<rparr>",
        OF list_bytes.bytes_laws_axioms, unfolded handshake.select_convs peer_context.select_convs,
        THEN conjunct1]) simp_all

text \<open>
  Without a panic, \<open>connect_torrent_peers\<close> ends with the connections to the first \<open>max_conns\<close>
  peers, in the order the tracker gave them, for which connecting and the handshake succeed.
\<close>

lemma connect_takes_first:
  "Panic \<notin> attempt ` set peers \<Longrightarrow>
     connect_loop limit attempt active peers =
       Some (active @ take (limit - length active) (flatten_ok (map attempt peers)))"
proof (induction limit attempt active peers rule: connect_loop.induct)
  case (2 limit attempt active peer peers)
  then show ?case
    by (cases "attempt peer") (auto simp: take_Cons')
qed simp

end
