(* ===== verification/Run_Connection.thy ===== *)
theory Run_Connection
  imports Connection Transition
begin

text \<open>
  \<open>run_connection\<close> of \<open>src/peer/net.rs\<close>: the task that moves messages between a peer's
  connection and the processor. An iteration of its loop is a step: \<open>select!\<close> polls the two
  branches in any order, a branch whose result does not match its pattern is disabled for that
  iteration, and dropping the reading future keeps what it put into the receive buffer. What the
  processor and the stream do in the meantime is the environment: messages appear in the
  queue towards the peer, either channel closes.
\<close>

section \<open>The task\<close>

record conn_task =
  ct_buffer :: bytes                  \<comment> \<open>the receive buffer of the connection\<close>
  ct_incoming :: "read_event list"    \<comment> \<open>what the reads of the stream will give\<close>
  ct_outbox :: "messages list"        \<comment> \<open>\<open>recv_from_processor\<close>\<close>
  ct_outbox_open :: bool              \<comment> \<open>some sender of it is alive\<close>
  ct_inbox_open :: bool               \<comment> \<open>the receiver of \<open>send_to_processor\<close> is alive\<close>

datatype run_error = Conn_error conn_error | Send_error

datatype conn_run = Running conn_task | Stopped "(run_error, unit) res"

text \<open>Handing the two other ends to the processor; the loop starts if somebody takes them.\<close>

definition run_connection :: "bool \<Rightarrow> bytes \<Rightarrow> read_event list \<Rightarrow> conn_run" where
  "run_connection processor_alive buffer incoming =
     (if processor_alive then
        Running \<lparr>ct_buffer = buffer, ct_incoming = incoming, ct_outbox = [], ct_outbox_open = True, ct_inbox_open = True\<rparr>
      else Stopped (Err Send_error))"

text \<open>
  The first branch took a message: it is written. The second took one: it is sent on. What
  the iteration shows to the outside is the label.
\<close>

datatype conn_label =
    Written messages
  | Write_failed
  | Delivered messages
  | Deliver_failed
  | Loop_left
  | Decoder_panicked
  | Queued messages      \<comment> \<open>the environment: the processor sends to the peer\<close>
  | Outbox_closed        \<comment> \<open>the processor drops its sender\<close>
  | Inbox_closed         \<comment> \<open>the peer's handler is gone\<close>

definition write_branch :: "bytes_api \<Rightarrow> messages \<Rightarrow> write_event \<Rightarrow> conn_task \<Rightarrow> conn_label \<times> conn_run" where
  "write_branch A msg w t =
     (case write_msg (messages_encode A) msg w [] of
        Ok _ \<Rightarrow> (Written msg, Running t)
      | Err e \<Rightarrow> (Write_failed, Stopped (Err (Conn_error e)))
      | Panic \<Rightarrow> (Write_failed, Stopped Panic))"

definition read_branch :: "messages \<Rightarrow> conn_task \<Rightarrow> conn_label \<times> conn_run" where
  "read_branch msg t =
     (if ct_inbox_open t then (Delivered msg, Running t) else (Deliver_failed, Stopped (Err Send_error)))"

text \<open>Whether a finished read matches the pattern \<open>Ok(Some(msg))\<close>, does not, or is not finished.\<close>

fun disabled :: "'m read_outcome \<Rightarrow> bool" where
  "disabled Closed = True"
| "disabled (Failed _) = True"
| "disabled _ = False"

definition reads :: "bytes_api \<Rightarrow> conn_task \<Rightarrow> read_event list \<Rightarrow> messages read_outcome \<Rightarrow> conn_task \<Rightarrow> bool" where
  "reads A t now x t' \<longleftrightarrow>
     (\<exists>later b. ct_incoming t = now @ later \<and> read_msg A (messages_decode A) (ct_buffer t) now = (x, b, []) \<and>
        t' = t\<lparr>ct_buffer := b, ct_incoming := later\<rparr>)"

inductive conn_step :: "bytes_api \<Rightarrow> conn_run \<Rightarrow> conn_label \<Rightarrow> conn_run \<Rightarrow> bool" for A where
  write_first: "ct_outbox t = msg # q \<Longrightarrow> write_branch A msg w (t\<lparr>ct_outbox := q\<rparr>) = (l, r) \<Longrightarrow>
    conn_step A (Running t) l r"
| write_after_poll: "reads A t now x t' \<Longrightarrow> x = Pending \<or> disabled x \<Longrightarrow> ct_outbox t = msg # q \<Longrightarrow>
    write_branch A msg w (t'\<lparr>ct_outbox := q\<rparr>) = (l, r) \<Longrightarrow> conn_step A (Running t) l r"
| read_first: "reads A t now (Msg msg) t' \<Longrightarrow> read_branch msg t' = (l, r) \<Longrightarrow> conn_step A (Running t) l r"
| both_disabled: "reads A t now x t' \<Longrightarrow> disabled x \<Longrightarrow> ct_outbox t = [] \<Longrightarrow> \<not> ct_outbox_open t \<Longrightarrow>
    conn_step A (Running t) Loop_left (Stopped (Ok ()))"
| read_panics: "reads A t now Crashed t' \<Longrightarrow> conn_step A (Running t) Decoder_panicked (Stopped Panic)"
| queued: "ct_outbox_open t \<Longrightarrow>
    conn_step A (Running t) (Queued msg) (Running (t\<lparr>ct_outbox := ct_outbox t @ [msg]\<rparr>))"
| outbox_closed: "conn_step A (Running t) Outbox_closed (Running (t\<lparr>ct_outbox_open := False\<rparr>))"
| inbox_closed: "conn_step A (Running t) Inbox_closed (Running (t\<lparr>ct_inbox_open := False\<rparr>))"

inductive_cases stoppedE: "conn_step A (Stopped r) l s"
inductive_cases left_loopE: "conn_step A (Running t) Loop_left s"

definition delivered :: "conn_label list \<Rightarrow> messages list" where
  "delivered ls = concat (map (\<lambda>l. case l of Delivered m \<Rightarrow> [m] | _ \<Rightarrow> []) ls)"

definition written :: "conn_label list \<Rightarrow> messages list" where
  "written ls = concat (map (\<lambda>l. case l of Written m \<Rightarrow> [m] | _ \<Rightarrow> []) ls)"

definition queued_msgs :: "conn_label list \<Rightarrow> messages list" where
  "queued_msgs ls = concat (map (\<lambda>l. case l of Queued m \<Rightarrow> [m] | _ \<Rightarrow> []) ls)"

lemma label_Cons:
  "delivered (l # ls) = delivered [l] @ delivered ls" "written (l # ls) = written [l] @ written ls"
  "queued_msgs (l # ls) = queued_msgs [l] @ queued_msgs ls"
  by (simp_all add: delivered_def written_def queued_msgs_def)

lemma label_simps [simp]:
  "delivered [] = []" "written [] = []" "queued_msgs [] = []"
  "delivered [l] = (case l of Delivered m \<Rightarrow> [m] | _ \<Rightarrow> [])"
  "written [l] = (case l of Written m \<Rightarrow> [m] | _ \<Rightarrow> [])"
  "queued_msgs [l] = (case l of Queued m \<Rightarrow> [m] | _ \<Rightarrow> [])"
  by (simp_all add: delivered_def written_def queued_msgs_def)

section \<open>Reading a stream of messages\<close>

text \<open>The bytes that reads give, whatever errors come between them.\<close>

fun data :: "read_event list \<Rightarrow> bytes" where
  "data [] = []"
| "data (ReadOk d # evs) = d @ data evs"
| "data (ReadErr e # evs) = data evs"

lemma data_append [simp]: "data (xs @ ys) = data xs @ data ys"
  by (induction xs rule: data.induct) auto

context framed_codec
begin

lemma try_decode_stream:
  assumes "\<forall>m \<in> set ms. fits m" "fits m0" "buf @ r = concat (map wire ms)"
    and "ms \<noteq> [] \<Longrightarrow> needs \<le> length (wire (hd ms))"
  shows "(\<exists>m ms' b. ms = m # ms' \<and> try_decode A D needs buf = Decoded m b \<and> b @ r = concat (map wire ms')) \<or>
    (\<exists>n. try_decode A D needs buf = Need n \<and> (ms \<noteq> [] \<longrightarrow> n \<le> length (wire (hd ms))))"
proof (cases ms)
  case Nil
  then have "buf = []" using assms(3) by simp
  moreover have "\<exists>n. try_decode A D needs [] = Need n"
  proof (cases "needs = 0")
    case True
    then show ?thesis
      using try_decode_short [of m0 "[]" "wire m0" 0] assms(2) wire_nonempty by auto
  qed (simp add: try_decode_def remaining)
  ultimately show ?thesis using Nil by simp
next
  case (Cons m ms')
  then have m: "fits m" "needs \<le> length (wire m)" and eq: "buf @ r = wire m @ concat (map wire ms')"
    using assms by auto
  show ?thesis
  proof (cases "length (wire m) \<le> length buf")
    case True
    then obtain b where "buf = wire m @ b" using eq by (metis append_eq_append_conv_if append_take_drop_id)
    then show ?thesis using try_decode_wire [OF m] eq Cons by simp
  next
    case False
    then have "take (length buf) (wire m) = buf" using arg_cong [OF eq, of "take (length buf)"] by simp
    then obtain q where "wire m = buf @ q" "q \<noteq> []" using False by (metis append_Nil2 append_take_drop_id order_refl)
    then show ?thesis using try_decode_short [OF m(1) _ _ m(2)] Cons by (metis list.sel(1))
  qed
qed

lemma read_stream:
  assumes "\<forall>m \<in> set ms. fits m" "fits m0"
  shows "buf @ data evs @ extra = concat (map wire ms) \<Longrightarrow> (ms \<noteq> [] \<Longrightarrow> needs \<le> length (wire (hd ms))) \<Longrightarrow>
    read_loop A D needs buf evs = (x, b, evs') \<Longrightarrow>
    (case x of Msg m \<Rightarrow> \<exists>ms'. ms = m # ms' \<and> b @ data evs' @ extra = concat (map wire ms')
     | Crashed \<Rightarrow> False
     | _ \<Rightarrow> b @ data evs' @ extra = concat (map wire ms))"
proof (induction evs arbitrary: buf needs)
  case Nil
  then show ?case
    using try_decode_stream [OF assms, of buf extra needs] by (auto simp: read_loop.simps [of _ _ _ _ "[]"])
next
  case (Cons e evs)
  consider (decoded) m ms' b' where "ms = m # ms'" "try_decode A D needs buf = Decoded m b'" "b' @ data (e # evs) @ extra = concat (map wire ms')"
    | (need) n where "try_decode A D needs buf = Need n" "ms \<noteq> [] \<Longrightarrow> n \<le> length (wire (hd ms))"
    using try_decode_stream [OF assms, of buf "data (e # evs) @ extra" needs] Cons.prems(1,2) by auto
  then show ?case
  proof cases
    case decoded
    then show ?thesis using Cons.prems(3) by (auto simp: read_loop.simps [of _ _ _ _ "e # _"])
  next
    case need
    show ?thesis
    proof (cases e)
      case (ReadErr c)
      then show ?thesis using Cons.prems need by (auto simp: read_loop.simps [of _ _ _ _ "ReadErr _ # _"])
    next
      case (ReadOk d)
      then show ?thesis
        using Cons.prems need Cons.IH [of "buf @ d" n]
        by (auto simp: read_loop.simps [of _ _ _ _ "ReadOk _ # _"] split: if_splits)
    qed
  qed
qed

end

section \<open>What one iteration does\<close>

lemma reads_stream:
  assumes "bytes_laws A" "\<forall>m \<in> set ms. messages_fits m" "reads A t now x t'"
    and "ct_buffer t @ data (ct_incoming t) @ extra = concat (map messages_wire ms)"
  shows "(case x of Msg m \<Rightarrow> \<exists>ms'. ms = m # ms' \<and> ct_buffer t' @ data (ct_incoming t') @ extra = concat (map messages_wire ms')
     | Crashed \<Rightarrow> False
     | _ \<Rightarrow> ct_buffer t' @ data (ct_incoming t') @ extra = concat (map messages_wire ms)) \<and>
    ct_outbox t' = ct_outbox t \<and> ct_outbox_open t' = ct_outbox_open t \<and> ct_inbox_open t' = ct_inbox_open t"
proof -
  obtain later b where r: "ct_incoming t = now @ later" "t' = t\<lparr>ct_buffer := b, ct_incoming := later\<rparr>"
    "read_loop A (messages_decode A) 0 (ct_buffer t) now = (x, b, [])"
    using assms(3) by (auto simp: reads_def read_msg_def)
  moreover have "messages_fits KeepAlive" by (simp add: messages_fits_def)
  ultimately show ?thesis
    using framed_codec.read_stream [OF messages_framed [OF assms(1)] assms(2), of KeepAlive "ct_buffer t" now
        "data later @ extra" 0 x b "[]"] assms(4)
    by (auto split: read_outcome.splits)
qed

lemma write_branch_cases:
  assumes "bytes_laws A" "write_branch A msg w t = (l, r)"
  shows "l = Written msg \<and> r = Running t \<or> l = Write_failed \<and> (\<exists>e. r = Stopped (Err e)) \<or>
    l = Write_failed \<and> r = Stopped Panic \<and> \<not> messages_fits msg"
proof -
  have "messages_fits msg \<Longrightarrow> messages_encode A msg [] = Ok (messages_wire msg)"
    using bytes_laws.messages_encode_wire [OF assms(1), of msg "[]"] fits_payload [of msg] by simp
  then show ?thesis
    using assms(2) by (auto simp: write_branch_def write_msg_def split: res.splits write_event.splits)
qed

text \<open>
  What holds between the stream and what was delivered of it, and between the queue towards the
  peer and what was written of it.
\<close>

definition received_from :: "messages list \<Rightarrow> bytes \<Rightarrow> messages list \<Rightarrow> conn_run \<Rightarrow> bool" where
  "received_from ms extra d s \<longleftrightarrow>
     (\<exists>rest. ms = d @ rest \<and>
       (\<forall>t. s = Running t \<longrightarrow> ct_buffer t @ data (ct_incoming t) @ extra = concat (map messages_wire rest)))"

definition written_of :: "messages list \<Rightarrow> messages list \<Rightarrow> conn_run \<Rightarrow> bool" where
  "written_of q w s \<longleftrightarrow> (\<exists>rest. q = w @ rest \<and> (\<forall>t. s = Running t \<longrightarrow> ct_outbox t = rest))"

lemma written_of_step:
  assumes "bytes_laws A" "written_of q w (Running t)" "conn_step A (Running t) l s"
  shows "written_of (q @ queued_msgs [l]) (w @ written [l]) s"
  using assms(3)
proof (cases rule: conn_step.cases)
  case (write_first msg q' x)
  then show ?thesis using write_branch_cases [OF assms(1) write_first(2)] assms(2) by (auto simp: written_of_def)
next
  case (write_after_poll now x t' msg q' y)
  then have "ct_outbox t = msg # q'" by simp
  then show ?thesis using write_branch_cases [OF assms(1) write_after_poll(4)] assms(2) by (auto simp: written_of_def)
next
  case (read_first now msg t')
  then have "ct_outbox t' = ct_outbox t" by (auto simp: reads_def)
  then show ?thesis using read_first(2) assms(2) by (auto simp: written_of_def read_branch_def split: if_splits)
qed (use assms(2) in \<open>auto simp: written_of_def\<close>)

lemma received_from_step:
  assumes laws: "bytes_laws A" and fits: "\<forall>m \<in> set ms. messages_fits m"
    and inv: "received_from ms extra d (Running t)" and step: "conn_step A (Running t) l s"
  shows "received_from ms extra (d @ delivered [l]) s" "s = Stopped Panic \<Longrightarrow> \<exists>m \<in> set (ct_outbox t). \<not> messages_fits m"
proof -
  obtain rest where rest: "ms = d @ rest" "ct_buffer t @ data (ct_incoming t) @ extra = concat (map messages_wire rest)"
    using inv by (auto simp: received_from_def)
  have fits': "\<forall>m \<in> set rest. messages_fits m" using fits rest(1) by simp
  note stream = reads_stream [OF laws fits' _ rest(2)]
  have "received_from ms extra (d @ delivered [l]) s \<and> (s = Stopped Panic \<longrightarrow> (\<exists>m \<in> set (ct_outbox t). \<not> messages_fits m))"
    using step
  proof (cases rule: conn_step.cases)
    case (write_first msg q' w)
    then show ?thesis using write_branch_cases [OF laws write_first(2)] rest by (auto simp: received_from_def)
  next
    case (write_after_poll now x t' msg q' w)
    then have "ct_buffer t' @ data (ct_incoming t') @ extra = concat (map messages_wire rest)"
      using stream [of now x t'] by (auto split: read_outcome.splits)
    then show ?thesis using write_branch_cases [OF laws write_after_poll(4)] write_after_poll(3) rest by (auto simp: received_from_def)
  next
    case (read_first now msg t')
    then show ?thesis using stream [of now "Msg msg" t'] rest by (auto simp: received_from_def read_branch_def split: if_splits)
  next
    case (read_panics now t')
    then show ?thesis using stream [of now Crashed t'] by simp
  qed (use rest in \<open>auto simp: received_from_def\<close>)
  then show "received_from ms extra (d @ delivered [l]) s" "s = Stopped Panic \<Longrightarrow> \<exists>m \<in> set (ct_outbox t). \<not> messages_fits m"
    by simp_all
qed

lemma relayed_run:
  assumes "bytes_laws A" "\<forall>m \<in> set ms. messages_fits m"
  shows "run (conn_step A) s ls s' \<Longrightarrow> received_from ms extra d s \<Longrightarrow> written_of q w s \<Longrightarrow> s \<noteq> Stopped Panic \<Longrightarrow>
    received_from ms extra (d @ delivered ls) s' \<and> written_of (q @ queued_msgs ls) (w @ written ls) s' \<and>
    (s' = Stopped Panic \<longrightarrow> (\<exists>m \<in> set (q @ queued_msgs ls). \<not> messages_fits m))"
proof (induction arbitrary: d q w rule: run.induct)
  case (run_Cons s l s' ls s'')
  then obtain t where t: "s = Running t" by (cases s) (auto elim: stoppedE)
  note step = run_Cons.hyps(1) [unfolded t]
  have r: "received_from ms extra (d @ delivered [l]) s'" and p: "s' = Stopped Panic \<Longrightarrow> \<exists>m \<in> set (ct_outbox t). \<not> messages_fits m"
    using received_from_step [OF assms _ step] run_Cons.prems(1) t by simp_all
  have w: "written_of (q @ queued_msgs [l]) (w @ written [l]) s'"
    using written_of_step [OF assms(1) _ step] run_Cons.prems(2) t by simp
  show ?case
  proof (cases "s' = Stopped Panic")
    case True
    from run_Cons.hyps(2) [unfolded True] have "ls = [] \<and> s'' = Stopped Panic"
      by (cases rule: run.cases) (auto elim: stoppedE)
    then show ?thesis using r w p [OF True] True run_Cons.prems(2) t by (auto simp: written_of_def)
  next
    case False
    from run_Cons.IH [OF r w False] show ?thesis
      unfolding label_Cons [of l ls] append_assoc .
  qed
qed auto

section \<open>Properties\<close>


text \<open>
  C35. When the peer has closed its end and everything it sent is delivered, the task does
  nothing by itself any more: as long as the processor keeps its sender and queues nothing, it
  neither returns nor tells the processor, so the peer stays known there.
\<close>

theorem close_not_noticed:
  assumes "bytes_laws A" and "ct_buffer t = []" and "data (ct_incoming t) = []"
    and "ct_outbox t = []" and "ct_outbox_open t"
    and "run (conn_step A) (Running t) ls s" and "\<forall>l \<in> set ls. l \<noteq> Outbox_closed \<and> (\<forall>m. l \<noteq> Queued m)"
  shows "set ls \<subseteq> {Inbox_closed} \<and> (\<exists>t'. s = Running t')"
proof -
  let ?quiet = "\<lambda>t. ct_buffer t @ data (ct_incoming t) @ [] = concat (map messages_wire []) \<and> ct_outbox t = [] \<and> ct_outbox_open t"
  have "set ls \<subseteq> {Inbox_closed} \<and> (\<exists>t'. s = Running t' \<and> ?quiet t')"
    using assms(6,7,2-5)
  proof (induction "Running t" ls s arbitrary: t rule: run.induct)
    case (run_Cons l s' ls s'')
    have idle: "\<not> reads A t now (Msg m) t2" "\<not> reads A t now Crashed t2" for now m t2
      using reads_stream [OF assms(1), of "[]" t now "Msg m" t2 "[]"]
        reads_stream [OF assms(1), of "[]" t now Crashed t2 "[]"] run_Cons.prems by auto
    from run_Cons.hyps(1) have "l = Inbox_closed \<and> s' = Running (t\<lparr>ct_inbox_open := False\<rparr>)"
      by (cases rule: conn_step.cases) (use idle run_Cons.prems in auto)
    then show ?case using run_Cons.hyps(3) [of "t\<lparr>ct_inbox_open := False\<rparr>"] run_Cons.prems by simp
  qed simp
  then show ?thesis by blast
qed

text \<open>One message arrives, is passed on, and the stream ends; then nothing happens but the other end going away.\<close>

definition finished_task :: conn_task where
  "finished_task = \<lparr>ct_buffer = [], ct_incoming = [ReadOk []], ct_outbox = [], ct_outbox_open = True, ct_inbox_open = True\<rparr>"

lemma keep_alive_delivered:
  "conn_step list_bytes (run_connection True [] [ReadOk [0, 0, 0, 0], ReadOk []]) (Delivered KeepAlive) (Running finished_task)"
proof -
  let ?t = "\<lparr>ct_buffer = [], ct_incoming = [ReadOk [0, 0, 0, 0], ReadOk []], ct_outbox = [], ct_outbox_open = True, ct_inbox_open = True\<rparr>"
  have "read_msg list_bytes (messages_decode list_bytes) [] [ReadOk [0, 0, 0, 0]] = (Msg KeepAlive, [], [])"
    by (simp add: read_msg_def read_loop.simps try_decode_def messages_decode_def list_bytes_eval usize_sub_def)
  then have "reads list_bytes ?t [ReadOk [0, 0, 0, 0]] (Msg KeepAlive) finished_task"
    by (simp add: reads_def finished_task_def)
  then show ?thesis
    unfolding run_connection_def by (auto intro!: conn_step.read_first simp: read_branch_def finished_task_def)
qed


lemma close_not_noticed_witness:
  "\<exists>t'. run (conn_step list_bytes) (Running finished_task) [Inbox_closed] (Running t') \<and> set [Inbox_closed] \<subseteq> {Inbox_closed}"
proof -
  let ?t' = "finished_task\<lparr>ct_inbox_open := False\<rparr>"
  have p: "run (conn_step list_bytes) (Running finished_task) [Inbox_closed] (Running ?t')"
    by (rule run_Cons [where step = "conn_step list_bytes", OF conn_step.inbox_closed run_Nil])
  have "set [Inbox_closed] \<subseteq> {Inbox_closed} \<and> (\<exists>t'. Running ?t' = Running t')"
    by (rule close_not_noticed [OF list_bytes.bytes_laws_axioms _ _ _ _ p]) (simp_all add: finished_task_def)
  then show ?thesis using p by blast
qed

end
