(* ===== verification/Startup.thy ===== *)
theory Startup
  imports Client Announce Run_Connection
begin

text \<open>
  From the command line to the running tasks: \<open>main\<close> of \<open>src/main.rs\<close> and the start-up of
  \<open>src/peer/mod.rs\<close>. Loading the file, building the store and the processor (\<open>start_processing\<close> of
  \<open>Client\<close>), announcing to the tracker, and connecting to the peers it lists. What a
  connection attempt meets is the network's: nothing (refused or timed out), or a stream.
\<close>

section \<open>Peer id and the place of the file\<close>

text \<open>The clock's seconds since 1970; a clock before that makes the \<open>unwrap\<close> panic.\<close>

definition make_peer_id :: "digest_api \<Rightarrow> nat option \<Rightarrow> internal_peer_id option" where
  "make_peer_id H timestamp = map_option (\<lambda>secs. sha1 H (ascii ''ben-'' @ nat_text secs)) timestamp"

text \<open>\<open>PathBuf::push\<close> on Unix: an absolute path replaces what is there.\<close>

definition path_push :: "bytes \<Rightarrow> bytes \<Rightarrow> bytes" where
  "path_push path component =
     (if component \<noteq> [] \<and> hd component = 47 then component
      else if path = [] \<or> last path = 47 then path @ component
      else path @ ascii ''/'' @ component)"

definition storage_path :: "bytes \<Rightarrow> v1_torrent \<Rightarrow> nat \<Rightarrow> bytes" where
  "storage_path temp_dir torrent ts =
     (let path = path_push temp_dir (ascii ''torrent_download'');
          path = path_push path (ti_name (t_info torrent) @ ascii ''_'' @ nat_text ts)
      in path_push path (ascii ''download''))"

section \<open>Connecting\<close>

text \<open>
  One attempt: connect to the peer's socket address within a second, then shake hands within
  another. \<open>net\<close> says whether connecting works, and what writing and reading meet then; of a
  successful attempt the handshake and the receive buffer stay.
\<close>

datatype attempt_error = Not_connected | Handshake_failed conn_error

definition attempt_peer ::
  "bytes_api \<Rightarrow> v1_torrent \<Rightarrow> internal_peer_id \<Rightarrow> (socket_addr \<Rightarrow> (write_event \<times> read_event list) option) \<Rightarrow>
     tracker_peer \<Rightarrow> (attempt_error, handshake \<times> bytes) res"
where
  "attempt_peer A torrent our_id net peer =
     (case net (socket_addr_of peer) of
        None \<Rightarrow> Err Not_connected
      | Some (w, evs) \<Rightarrow>
          (case do_handshake A torrent our_id w evs of
             Ok (handshake, buffer, _) \<Rightarrow> Ok (handshake, buffer)
           | Err e \<Rightarrow> Err (Handshake_failed e)
           | Panic \<Rightarrow> Panic))"

definition inner_start_processing ::
  "bytes_api \<Rightarrow> 'u url_api \<Rightarrow> (bytes \<Rightarrow> (announce_error, bytes) res) \<Rightarrow> nom_api \<Rightarrow> nat \<Rightarrow>
     (socket_addr \<Rightarrow> (write_event \<times> read_event list) option) \<Rightarrow> v1_torrent \<Rightarrow> internal_peer_id \<Rightarrow> config \<Rightarrow>
     (announce_error, (handshake \<times> bytes) list) res"
where
  "inner_start_processing A U http_get N stack net torrent our_id cfg =
     res_bind (get_announce U http_get N stack (tracker_client_new torrent our_id)) (\<lambda>tracker_response.
     or_panic (connect_loop (max_conns cfg) (attempt_peer A torrent our_id net) [] (tr_peers tracker_response)))"

section \<open>The program\<close>

text \<open>
  \<open>main\<close>, given the contents of the file named on the command line (\<open>None\<close>: it cannot be read):
  a file that does not parse and a store that cannot be made end it with a message.
\<close>

datatype main_error = Missing_printed file_error | Processor_error peer_error

definition run_main ::
  "nom_api \<Rightarrow> nat \<Rightarrow> 'f file_api \<Rightarrow> digest_api \<Rightarrow> (peer_error, 'f) res \<Rightarrow> config \<Rightarrow> bytes option \<Rightarrow>
     (main_error, v1_torrent \<times> 'f boxed_io processor) res"
where
  "run_main N stack F H created cfg file_bytes =
     res_bind (or_panic file_bytes) (\<lambda>torrent.
     (case load_torrent N stack (sha1 H) torrent of
        Ok torrent \<Rightarrow>
          (case start_processing F created torrent cfg of
             Ok pr \<Rightarrow> Ok (torrent, pr)
           | Err e \<Rightarrow> Err (Processor_error e)
           | Panic \<Rightarrow> Panic)
      | Err e \<Rightarrow> Err (Missing_printed e)
      | Panic \<Rightarrow> Panic))"

lemma load_proper:
  assumes "nom_laws N" and "proper_torrent sha t" and "3 \<le> n"
  shows "load_torrent N n sha (encode (torrent_value t) @ rest) = Ok t"
  by (rule metainfo_loaded [OF assms])

lemma start_without_allocation: "allocate_torrent t = None \<Longrightarrow> start_processing F created t cfg = Panic"
  by (simp add: start_processing_def file_io_new_def memory_new_def)

lemma start_allocated:
  assumes "\<not> use_file_writer cfg" "allocate_torrent t = Some a"
  shows "if fits_memory a then \<exists>io. start_processing F created t cfg = Ok (processor_new cfg t (MemoryIo io))
    else start_processing F created t cfg = Panic"
  using assms by (auto simp: start_processing_def memory_new_eq)

section \<open>Properties\<close>

text \<open>
  C13. From the tracker's answer to the connections: when the tracker answers with the bencoding of a dictionary (its keys in
  order) that has an interval and a list of peers, and no handshake panics, the client runs a connection with exactly the
  first \<open>max_conns\<close> listed peers that can be reached and complete the handshake, in the order of the answer. Listed
  are the entries with an IPv4 or IPv6 address and a port, whatever else they hold; the others are passed over.
\<close>

theorem startup_connects:
  assumes "nom_laws N" and "tracker_url U (tracker_client_new torrent our_id) = Some url"
    and "tracker_answers (http_get url) n interval vs"
    and "\<forall>p \<in> set (understood vs). attempt_peer A torrent our_id net p \<noteq> Panic"
  shows "inner_start_processing A U http_get N n net torrent our_id cfg =
    Ok (take (max_conns cfg) (flatten_ok (map (attempt_peer A torrent our_id net) (understood vs))))"
proof -
  have "Panic \<notin> attempt_peer A torrent our_id net ` set (understood vs)" using assms(4) by force
  then show ?thesis
    using answer_announced [where http_get = http_get, OF assms(1-3)] connect_takes_first [of _ "understood vs" "max_conns cfg" "[]"]
    by (auto simp: inner_start_processing_def)
qed

text \<open>
  C17. One peer can end the client: if the first peer of the tracker's list accepts the connection and its
  handshake is cut by TCP inside the eight reserved bytes, the panic of the decoder is not
  confined to that connection, whatever the other peers do.
\<close>

theorem cut_handshake_ends_client:
  assumes "nom_laws N" and "tracker_url U (tracker_client_new torrent our_id) = Some url"
    and "tracker_answers (http_get url) n interval vs" and "understood vs = peer # others"
    and "bytes_laws A" and "0 < max_conns cfg"
    and "net (socket_addr_of peer) = Some (WriteOk, ReadOk (p # proto @ res) # evs)"
    and "length proto = unat p" and "length res < 8"
  shows "inner_start_processing A U http_get N n net torrent our_id cfg = Panic"
proof -
  have "do_handshake A torrent our_id WriteOk (ReadOk (p # proto @ res) # evs) = Panic"
    by (rule bytes_laws.cut_handshake [OF assms(5,8,9)])
  then have "attempt_peer A torrent our_id net peer = Panic"
    using assms(7) by (simp add: attempt_peer_def)
  then show ?thesis
    using answer_announced [where http_get = http_get, OF assms(1-3)] assms(4,6) by (auto simp: inner_start_processing_def)
qed

text \<open>Two addresses of the sample answer; the first one shakes hands, the second refuses.\<close>

definition sample_net :: "bytes \<Rightarrow> socket_addr \<Rightarrow> (write_event \<times> read_event list) option" where
  "sample_net b address = (if address = Socket_v4 [10, 0, 0, 1] 6881 then Some (WriteOk, [ReadOk b]) else None)"

lemma sample_url: "\<exists>url. tracker_url url_instance (tracker_client_new sample_torrent our_id) = Some url"
  by (simp add: tracker_url_def tracker_client_new_def sample_torrent_def url_instance_def ascii_def Let_def)

lemma startup_connects_witness:
  "inner_start_processing list_bytes url_instance (\<lambda>_. Ok (encode (Dictionary sample_answer) @ [])) nom_instance 5
     (sample_net (0 # [] @ replicate 8 0 @ replicate 20 7 @ replicate 20 8 @ [])) sample_torrent (replicate 20 9) default_config =
   Ok [(\<lparr>peer_ctx = \<lparr>pc_info_hash = replicate 20 7, pc_peer_id = replicate 20 8\<rparr>\<rparr>, [])]"
proof -
  let ?h = "\<lparr>peer_ctx = \<lparr>pc_info_hash = replicate 20 7, pc_peer_id = replicate 20 8\<rparr>\<rparr>"
    and ?net = "sample_net (0 # [] @ replicate 8 0 @ replicate 20 7 @ replicate 20 8 @ [])"
  obtain url where url: "tracker_url url_instance (tracker_client_new sample_torrent (replicate 20 9)) = Some url"
    using sample_url by blast
  have hs: "do_handshake list_bytes sample_torrent (replicate 20 9) WriteOk
      (ReadOk (0 # [] @ replicate 8 0 @ pc_info_hash (peer_ctx ?h) @ pc_peer_id (peer_ctx ?h) @ []) # []) =
    Ok (?h, [], 19 # ascii ''BitTorrent protocol'' @ be64 0 @ ti_info_hash (t_info sample_torrent) @ replicate 20 9)"
    by (rule list_bytes.handshake_attempt [THEN conjunct1]) simp_all
  have attempts: "map (attempt_peer list_bytes sample_torrent (replicate 20 9) ?net) (understood sample_peers) =
      [Ok (?h, []), Err Not_connected]"
    using hs by (simp add: sample_understood attempt_peer_def socket_addr_of_def sample_net_def)
  have "attempt_peer list_bytes sample_torrent (replicate 20 9) ?net p \<noteq> Panic" if "p \<in> set (understood sample_peers)" for p
  proof -
    have "attempt_peer list_bytes sample_torrent (replicate 20 9) ?net p \<in>
        set (map (attempt_peer list_bytes sample_torrent (replicate 20 9) ?net) (understood sample_peers))"
      using that by (simp only: list.set_map imageI)
    then show ?thesis unfolding attempts by auto
  qed
  then have "\<forall>p \<in> set (understood sample_peers). attempt_peer list_bytes sample_torrent (replicate 20 9) ?net p \<noteq> Panic"
    by blast
  from startup_connects [where http_get = "\<lambda>_. Ok (encode (Dictionary sample_answer) @ [])" and cfg = default_config,
      OF nom_list.nom_laws_axioms url sample_answers this]
  show ?thesis unfolding attempts by (simp add: default_config_def)
qed

lemma cut_handshake_ends_client_witness:
  "inner_start_processing list_bytes url_instance (\<lambda>_. Ok (encode (Dictionary sample_answer) @ [])) nom_instance 5
     (sample_net [0, 0, 0]) sample_torrent (replicate 20 9) default_config = Panic"
proof -
  obtain url where url: "tracker_url url_instance (tracker_client_new sample_torrent (replicate 20 9)) = Some url"
    using sample_url by blast
  show ?thesis
    by (rule cut_handshake_ends_client [where http_get = "\<lambda>_. Ok (encode (Dictionary sample_answer) @ [])" and
          p = 0 and proto = "[]" and res = "[0, 0]" and evs = "[]",
          OF nom_list.nom_laws_axioms url sample_answers sample_understood list_bytes.bytes_laws_axioms])
      (simp_all add: default_config_def sample_net_def socket_addr_of_def)
qed

text \<open>
  The torrents whose piece arithmetic underflows, and those with a piece of more than \<open>isize::MAX\<close> bytes (which takes a
  negative piece length or length).
\<close>

definition too_short :: "v1_torrent \<Rightarrow> bool" where
  "too_short t \<longleftrightarrow>
     ti_pieces (t_info t) = [] \<or>
     i64_as_usize (ti_length (t_info t)) <
       (length (ti_pieces (t_info t)) - 1) * i64_as_usize (ti_piece_length (t_info t))"

definition oversized :: "v1_torrent \<Rightarrow> bool" where
  "oversized t \<longleftrightarrow>
     (let n = length (ti_pieces (t_info t)); s = i64_as_usize (ti_piece_length (t_info t)) in
      1 < n \<and> 2 ^ 63 \<le> s \<or> 2 ^ 63 \<le> i64_as_usize (ti_length (t_info t)) - (n - 1) * s)"

lemma too_short_iff: "too_short t \<longleftrightarrow> allocate_torrent t = None"
  by (simp add: too_short_def allocate_torrent_None_iff)

lemma oversized_iff: "allocate_torrent t = Some a \<Longrightarrow> oversized t \<longleftrightarrow> \<not> fits_memory a"
  by (auto simp: oversized_def fits_memory_def allocate_torrent_Some_iff Let_def)


definition without_pieces :: v1_torrent where
  "without_pieces = sample_torrent\<lparr>t_info := sample_info\<lparr>ti_pieces := [],
     ti_info_hash := info_hash sample_sha1 (info_value (sample_info\<lparr>ti_pieces := []\<rparr>))\<rparr>\<rparr>"

definition sample_digest :: digest_api where
  "sample_digest = \<lparr>sha1 = sample_sha1, hex_encode = (\<lambda>b. b)\<rparr>"


text \<open>
  The name in the file decides where the program writes: a torrent whose name is an
  absolute path is loaded like any other, and its data goes to a place under that path and
  not under the directory for temporary files.
\<close>

theorem absolute_name_escapes:
  assumes "nom_laws N" and "proper_torrent sha t" and "3 \<le> n" and "ti_name (t_info t) = 47 # name"
  shows "load_torrent N n sha (encode (torrent_value t) @ rest) = Ok t \<and>
    storage_path temp_dir t ts = 47 # name @ ascii ''_'' @ nat_text ts @ ascii ''/download''"
proof -
  have "nat_text ts \<noteq> []" "last (nat_text ts) \<noteq> 47"
    using nat_text_digits(1,2) [of ts] by (auto simp: list_all_iff is_digit_def dest!: last_in_set)
  then show ?thesis
    using load_proper [OF assms(1-3)] assms(4) by (simp add: storage_path_def path_push_def Let_def ascii_def)
qed

definition rooted_torrent :: v1_torrent where
  "rooted_torrent = (let i = sample_info\<lparr>ti_name := ascii ''/etc/x''\<rparr> in
     sample_torrent\<lparr>t_info := i\<lparr>ti_info_hash := info_hash sample_sha1 (info_value i)\<rparr>\<rparr>)"

lemma absolute_name_escapes_witness:
  "load_torrent nom_instance 3 sample_sha1 (encode (torrent_value rooted_torrent) @ []) = Ok rooted_torrent \<and>
   storage_path (ascii ''/tmp'') rooted_torrent 7 = 47 # ascii ''etc/x'' @ ascii ''_'' @ nat_text 7 @ ascii ''/download''"
proof (rule absolute_name_escapes [OF nom_list.nom_laws_axioms _ order_refl])
  show "proper_torrent sample_sha1 rooted_torrent"
    by (simp add: proper_torrent_def rooted_torrent_def sample_torrent_def sample_info_def info_value_def utf8_ascii ascii_def Let_def)
  show "ti_name (t_info rooted_torrent) = 47 # ascii ''etc/x''"
    by (simp add: rooted_torrent_def ascii_def Let_def)
qed

end
