(* ===== verification/Outgoing_Messages.thy ===== *)
theory Outgoing_Messages
  imports Client
begin

text \<open>
  What the processor puts into its channels can be written: every message has a length that fits
  the 32 bits of the frame, so the encoder of \<open>src/peer/protocol.rs\<close> never overflows in a
  connection task. The bit field has one bit per piece, and a block is part of a piece; what a
  store owes is the locale \<open>block_source\<close>, which both stores interpret.
\<close>

section \<open>Messages that fit\<close>

definition all_fit :: "channel list \<Rightarrow> bool" where
  "all_fit chs \<longleftrightarrow> (\<forall>ch \<in> set chs. \<forall>m \<in> set (ch_messages ch). messages_fits m)"

lemma all_fit_nth: "all_fit chs \<longleftrightarrow> (\<forall>c < length chs. \<forall>m \<in> set (ch_messages (chs ! c)). messages_fits m)"
  by (simp add: all_fit_def all_set_conv_all_nth)

lemma short_messages_fit [simp]:
  "messages_fits KeepAlive" "messages_fits (Flag f)" "messages_fits (Have i)" "messages_fits (Request i b n)"
  "messages_fits (BitField bf) \<longleftrightarrow> length bf + 1 < 2 ^ 32"
  "messages_fits (Piece i b bl) \<longleftrightarrow> length bl + 9 < 2 ^ 32"
  by (auto simp: messages_fits_def)

lemma all_fit_send:
  assumes "messages_fits m" "all_fit chs"
  shows "all_fit (snd (send c m chs))"
  using assms by (auto simp: all_fit_nth send_def nth_list_update)

lemma all_fit_send_all: "\<forall>(c, m) \<in> set xs. messages_fits m \<Longrightarrow> all_fit chs \<Longrightarrow> all_fit (send_all xs chs)"
proof (induction xs arbitrary: chs)
  case (Cons x xs)
  then have "all_fit (snd (send (fst x) (snd x) chs))" by (intro all_fit_send) auto
  then show ?case using Cons by simp
qed simp

lemma all_fit_simps [simp]:
  "all_fit []" "all_fit (chs @ chs') \<longleftrightarrow> all_fit chs \<and> all_fit chs'"
  "all_fit [\<lparr>ch_messages = ms, ch_open = b\<rparr>] \<longleftrightarrow> (\<forall>m \<in> set ms. messages_fits m)"
  by (auto simp: all_fit_def)

lemma all_fit_close: "all_fit chs \<Longrightarrow> all_fit (chs[c := (chs ! c)\<lparr>ch_open := b\<rparr>])"
  by (cases "c < length chs") (auto simp: all_fit_nth nth_list_update split: if_splits)

section \<open>What a store owes\<close>

text \<open>Blocks of bounded length, whatever was asked for.\<close>

locale block_source =
  fixes ops :: "'io torrent_io_ops"
    and ok :: "'io \<Rightarrow> bool"
    and limit :: nat
  assumes block_length: "ok io \<Longrightarrow> read_piece ops io i b n = (Ok bs, io') \<Longrightarrow> length bs \<le> limit"
    and read_ok: "ok io \<Longrightarrow> read_piece ops io i b n = (r, io') \<Longrightarrow> ok io'"
    and write_ok: "ok io \<Longrightarrow> write_piece ops io i b blk = (w, io') \<Longrightarrow> ok io'"
begin

definition task_ok :: "'io option \<Rightarrow> bool" where
  "task_ok task \<longleftrightarrow> (case task of None \<Rightarrow> True | Some io \<Rightarrow> ok io)"

lemma handler_read_ok:
  "task_ok task \<Longrightarrow> io_handler_read ops task i b n = (r, task') \<Longrightarrow>
     task_ok task' \<and> (\<forall>bs. r = Ok bs \<longrightarrow> length bs \<le> limit)"
  by (auto simp: io_handler_read_def io_handler_task_def task_ok_def
      split: option.splits prod.splits if_splits io_reply.splits dest: block_length read_ok)

lemma handler_write_ok: "task_ok task \<Longrightarrow> task_ok (snd (io_handler_write ops task i b blk))"
  by (auto simp: io_handler_write_def io_handler_task_def task_ok_def
      split: option.splits prod.splits if_splits io_reply.splits dest: write_ok)

lemma serve_requests_fit:
  assumes "limit + 9 < 2 ^ 32"
  shows "task_ok task \<Longrightarrow> all_fit chs \<Longrightarrow> serve_requests ops peer_to_tx deque task chs = (task', chs') \<Longrightarrow> all_fit chs'"
proof (induction deque arbitrary: task chs)
  case (Cons dq deque)
  obtain r task1 where read: "io_handler_read ops task (req_index dq) (req_begin dq) (req_length dq) = (r, task1)"
    by fastforce
  note spec = handler_read_ok [OF Cons.prems(1) read]
  show ?case
  proof (cases "bt_get peer_to_tx (req_peer_id dq)")
    case None
    then show ?thesis using Cons by simp
  next
    case (Some c)
    have "all_fit (snd (send c (Piece (req_index dq) (req_begin dq) bs) chs))" if "r = Ok bs" for bs
      using spec that assms Cons.prems(2) by (intro all_fit_send) fastforce+
    then show ?thesis
      using Cons.IH Cons.prems(3) Some read spec Cons.prems(2) by (cases r) auto
  qed
qed simp

lemma process_wakeup_fit:
  assumes limit: "limit + 9 < 2 ^ 32" and task: "task_ok (pr_io pr)" and fit: "all_fit (pr_channels pr)"
  shows "all_fit (pr_channels (process_wakeup ops iter now msg pr))"
proof -
  define txs where "txs = prune_closed_tx (pr_channels pr) (pr_peer_to_tx pr)"
  obtain s1 chs1 where act: "wakeup_action msg txs (pr_state pr, pr_channels pr) = (s1, chs1)" by fastforce
  then obtain ann where ann: "chs1 = send_all ann (pr_channels pr)" "\<forall>(c, m) \<in> set ann. \<exists>p i. (p, c) \<in> set txs \<and> m = Have i"
    using wakeup_action_spec [OF act] by blast
  have fit1: "all_fit chs1"
    unfolding ann(1) by (rule all_fit_send_all [OF _ fit]) (use ann(2) in fastforce)
  have fit2: "all_fit chs2" if comp: "compute_requests_for_download iter now (pr_torrent pr) txs s1 chs1 = Some (s2, chs2)" for s2 chs2
  proof -
    obtain reqs t where "generate_assignments iter now (pr_torrent pr) (piece_id_to_peers s1) (ts_tracking s1) = Some (reqs, t)"
      using comp by (auto simp: compute_requests_for_download_def)
    then have "chs2 = send_all (map (request_send txs) (filter (sendable txs chs1) reqs)) chs1"
      using comp by (simp add: compute_requests_for_download_def dispatch_requests_eq)
    then show ?thesis
      using fit1 by (auto intro!: all_fit_send_all simp: request_send_def request_message_def)
  qed
  show ?thesis
  proof (cases "compute_requests_for_download iter now (pr_torrent pr) txs s1 chs1")
    case None
    then show ?thesis using fit act by (simp add: process_wakeup_def txs_def [symmetric] Let_def)
  next
    case (Some r)
    obtain s2 chs2 where r: "r = (s2, chs2)" by fastforce
    obtain deque q where pop: "pop_requests 4 0 (ts_outstanding s2) = (deque, q)" by fastforce
    obtain io' chs3 where serve: "serve_requests ops txs deque (pr_io pr) chs2 = (io', chs3)" by fastforce
    have "all_fit chs3" by (rule serve_requests_fit [OF limit task fit2 serve]) (use Some r in simp)
    then show ?thesis
      using act Some r pop serve by (simp add: process_wakeup_def txs_def [symmetric] Let_def dequeue_requests_def)
  qed
qed

text \<open>One step of the processor.\<close>

lemma fit_step:
  assumes A: "bytes_laws A" and iter: "hash_iteration iter" and limit: "limit + 9 < 2 ^ 32"
    and inv: "processor_inv torrent max_out pr" and step: "processor_step ops A iter pr ev pr'"
    and task: "task_ok (pr_io pr)" and fit: "all_fit (pr_channels pr)"
  shows "all_fit (pr_channels pr')"
  using step
proof cases
  case (peer_starts p is_open)
  have "length (ti_pieces (t_info torrent)) < 2 ^ 32"
    using inv by (auto simp: processor_inv_def tracker_good_def torrent_ok_def)
  then have short: "(length (ti_pieces (t_info torrent)) + 7) div 8 + 1 < 2 ^ 32" by simp
  then show ?thesis
    using accept_peer_channels [OF A inv, of p is_open] fit peer_starts
    by (auto intro!: all_fit_send_all simp del: send_all_simps)
next
  case (peer_sends i msg)
  let ?h = "pr_handlers pr ! i"
  obtain status s chs io where h: "handle_msg ops (h_peer ?h) (h_conn ?h) msg (pr_state pr, pr_channels pr, pr_io pr) =
      (status, s, chs, io)" by (metis prod_cases4)
  then obtain ys where "chs = send_all ys (pr_channels pr)" "set ys \<subseteq> {(h_conn ?h, Flag Interested)}"
    using handle_msg_spec [OF h] by blast
  moreover have "pr_channels pr' = chs" using peer_sends h by (simp add: deliver_def Let_def set_status_def)
  ultimately show ?thesis using fit by (auto intro!: all_fit_send_all)
next
  case (write_answered i index off res)
  then show ?thesis using fit by (simp add: write_answered_def set_status_def split: prod.split)
next
  case (wake_received msg rest now)
  then show ?thesis using process_wakeup_fit [OF limit, of "pr\<lparr>pr_wakeups := rest\<rparr>"] task fit by simp
next
  case (timer_ticks now)
  then show ?thesis using fit by (simp add: timer_tick_eq [OF iter] Let_def split: prod.split)
next
  case (channel_closes c)
  then show ?thesis using all_fit_close [OF fit] by simp
qed (use fit in \<open>simp_all add: set_status_def reap_handler_def Let_def\<close>)

definition fit_inv :: "v1_torrent \<Rightarrow> usize \<Rightarrow> 'io processor \<Rightarrow> bool" where
  "fit_inv torrent max_out pr \<longleftrightarrow>
     processor_inv torrent max_out pr \<and> task_ok (pr_io pr) \<and> all_fit (pr_channels pr)"

lemma fit_machine:
  assumes "bytes_laws A" and "hash_iteration iter" and "limit + 9 < 2 ^ 32"
    and start: "\<And>pr. init pr \<Longrightarrow> processor_init torrent max_out pr \<and> task_ok (pr_io pr)"
  shows "invariant_system init (processor_step ops A iter) (fit_inv torrent max_out)"
proof
  show "fit_inv torrent max_out pr" if "init pr" for pr
  proof -
    have "pr_channels pr = []" using start [OF that] by (auto simp: processor_init_def processor_new_def)
    then show ?thesis using start [OF that] processor_new_inv by (auto simp: fit_inv_def)
  qed
next
  fix pr ev pr'
  assume inv: "fit_inv torrent max_out pr" and step: "processor_step ops A iter pr ev pr'"
  then have p: "processor_inv torrent max_out pr" "task_ok (pr_io pr)" "all_fit (pr_channels pr)"
    by (simp_all add: fit_inv_def)
  have "task_ok (pr_io pr')"
    by (rule claimed_step [where P = "\<lambda>_. task_ok", OF assms(1,2) p(1) step _ _ _ p(2)])
      (metis handler_read_ok prod.collapse, rule handler_write_ok)
  moreover have "processor_inv torrent max_out pr'"
    by (rule invariant_system.step_inv [OF processor_machine [OF assms(1,2)] p(1) step])
  ultimately show "fit_inv torrent max_out pr'"
    using fit_step [OF assms(1-3) p(1) step p(2,3)] by (simp add: fit_inv_def)
qed

end

section \<open>Both stores\<close>

definition blocks_within :: "nat \<Rightarrow> 'f boxed_io \<Rightarrow> bool" where
  "blocks_within limit io \<longleftrightarrow>
     (case io of
        FileIo f \<Rightarrow> \<forall>i < length (fio_pieces f). \<forall>len. piece_len (fio_allocation f) i = Some len \<longrightarrow> len \<le> limit
      | MemoryIo m \<Rightarrow> \<forall>mem \<in> set m. length (mem_memory mem) \<le> limit)"

lemma memory_write_within:
  assumes "memory_write_piece m i b blk = (r, m')" "\<forall>mem \<in> set m. length (mem_memory mem) \<le> limit"
  shows "\<forall>mem \<in> set m'. length (mem_memory mem) \<le> limit"
proof (cases "is_ok r")
  case True
  then obtain s where "unat i < length m" "unat b + length blk \<le> length (mem_memory (m ! unat i))"
    "m' = m[unat i := \<lparr>mem_memory = overwrite (mem_memory (m ! unat i)) (unat b) blk, mem_slices = s\<rparr>]"
    using assms(1) memory_write_Ok_iff by (cases r) auto
  then show ?thesis
    using assms(2) by (auto dest!: set_update_subset_insert [THEN subsetD])
qed (use assms memory_write_not_Ok [OF assms(1)] in auto)

context file_laws
begin

lemma file_write_frame:
  assumes "file_write_piece F H io i b blk = (r, io')"
  shows "fio_allocation io' = fio_allocation io \<and> length (fio_pieces io') = length (fio_pieces io)"
  using assms
proof (cases rule: file_write_cases)
  case (store len)
  from store(5,1) show ?thesis by (cases rule: file_store_cases) simp_all
qed simp

lemma boxed_block_source: "block_source (boxed_ops F H) (blocks_within limit) limit"
proof
  fix io io' :: "'f boxed_io" and i b n bs
  assume ok: "blocks_within limit io" and rd: "read_piece (boxed_ops F H) io i b n = (Ok bs, io')"
  from rd show "length bs \<le> limit"
  proof (cases rule: boxed_read_cases)
    case (on_file f f')
    then have "file_read_piece F f i b n = (Ok bs, f')" by (simp add: file_ops_def)
    then show ?thesis
    proof (cases rule: file_read_cases)
      case (fetch len f1)
      then have "length bs \<le> unat n" by (auto dest!: fetch_Ok)
      then show ?thesis using fetch ok on_file by (auto simp: blocks_within_def)
    qed simp
  next
    case (in_memory m m')
    then have "unat i < length m" "length bs \<le> length (mem_memory (m ! unat i))"
      by (auto simp: memory_ops_def memory_read_Ok_iff)
    then show ?thesis using ok in_memory(1) nth_mem [of "unat i" m] order_trans by (fastforce simp: blocks_within_def)
  qed
next
  fix io io' :: "'f boxed_io" and i b n r
  assume ok: "blocks_within limit io" and rd: "read_piece (boxed_ops F H) io i b n = (r, io')"
  from rd show "blocks_within limit io'"
  proof (cases rule: boxed_read_cases)
    case (on_file f f')
    then have "file_read_piece F f i b n = (r, f')" by (simp add: file_ops_def)
    then show ?thesis using ok on_file(1,2) by (cases rule: file_read_cases) (auto simp: blocks_within_def)
  next
    case (in_memory m m')
    then show ?thesis using ok memory_read_keeps [of m i b n r m'] by (auto simp: blocks_within_def memory_ops_def)
  qed
next
  fix io io' :: "'f boxed_io" and i b blk w
  assume ok: "blocks_within limit io" and wr: "write_piece (boxed_ops F H) io i b blk = (w, io')"
  from wr show "blocks_within limit io'"
  proof (cases rule: boxed_write_cases)
    case (on_file f f')
    then show ?thesis using ok file_write_frame [of H f i b blk w f'] by (auto simp: blocks_within_def file_ops_def)
  next
    case (in_memory m m')
    then show ?thesis using ok memory_write_within [of m i b blk w m' limit] by (simp add: blocks_within_def memory_ops_def)
  qed
qed

end

interpretation list_source: block_source "boxed_ops list_file_api H" "blocks_within limit" limit for H limit
  by (rule list_file.boxed_block_source)

lemma started_within:
  assumes "start_processing F created torrent cfg = Ok pr" "allocate_torrent torrent = Some a"
    and "max_piece_size a \<le> limit" "last_piece_size a \<le> limit"
  shows "\<exists>io. pr_io pr = Some io \<and> blocks_within limit io"
proof (cases "use_file_writer cfg")
  case True
  then obtain io where io: "file_io_new F torrent created = Ok io" "pr = processor_new cfg torrent (FileIo io)"
    using assms(1) by (auto simp: start_processing_def res_bind_Ok_iff)
  note facts = file_io_new_Ok [OF io(1)]
  have "len \<le> limit" if "i < length (fio_pieces io)" "piece_len (fio_allocation io) i = Some len" for i len
    using file_io_new_nth(3) [OF io(1), of i] facts(1,2) that assms(2-4) by (auto split: if_splits)
  then show ?thesis using io(2) by (auto simp: processor_new_def blocks_within_def)
next
  case False
  then obtain io where "memory_new torrent = Some io" "pr = processor_new cfg torrent (MemoryIo io)"
    using assms(1) by (auto simp: start_processing_def res_bind_Ok_iff)
  then show ?thesis
    using assms(2-4) by (auto simp: processor_new_def blocks_within_def memory_new_Some_iff memory_from_def)
qed

lemma started_init: "started_as (start_processing F created torrent cfg) torrent pr \<Longrightarrow>
    processor_init torrent (max_outstanding_requests cfg) pr"
  by (auto simp: started_as_def start_processing_def processor_init_def res_bind_Ok_iff split: if_splits)

lemma started_fit:
  assumes "file_laws F contents pos" and "bytes_laws A" and "hash_iteration iter"
    and "allocate_torrent torrent = Some a" and "max_piece_size a + 9 < 2 ^ 32" and "last_piece_size a + 9 < 2 ^ 32"
    and "reachable (started_as (start_processing F created torrent cfg) torrent)
      (processor_step (boxed_ops F H) A iter) pr"
  shows "all_fit (pr_channels pr)"
proof -
  let ?limit = "max (max_piece_size a) (last_piece_size a)"
  note source = file_laws.boxed_block_source [OF assms(1), of H ?limit]
  have start: "processor_init torrent (max_outstanding_requests cfg) pr0 \<and> block_source.task_ok (blocks_within ?limit) (pr_io pr0)"
    if "started_as (start_processing F created torrent cfg) torrent pr0" for pr0
    using started_init [OF that] that started_within [OF _ assms(4), of F created cfg pr0 ?limit]
    by (auto simp: started_as_def block_source.task_ok_def [OF source])
  have "?limit + 9 < 2 ^ 32" using assms(5,6) by simp
  from invariant_system.reachable_inv [OF block_source.fit_machine [OF source assms(2,3) this start] assms(7)]
  show ?thesis by (simp add: block_source.fit_inv_def [OF source])
qed

section \<open>Properties\<close>

text \<open>
  C15. Every message the processor ever puts into a channel to a peer is one the encoder can write:
  with either store, as long as the pieces of the torrent leave room for the header of a frame,
  its length fits 32 bits and encoding it gives the bytes of the peer wire protocol.
\<close>

theorem outgoing_messages_fit:
  assumes "file_laws F contents pos" and "bytes_laws A" and "hash_iteration iter"
    and "allocate_torrent torrent = Some a" and "max_piece_size a + 9 < 2 ^ 32" and "last_piece_size a + 9 < 2 ^ 32"
    and "reachable (started_as (start_processing F created torrent cfg) torrent)
      (processor_step (boxed_ops F H) A iter) pr"
    and "ch \<in> set (pr_channels pr)" and "m \<in> set (ch_messages ch)"
  shows "messages_fits m \<and> messages_encode A m [] = Ok (messages_wire m)"
proof -
  have "all_fit (pr_channels pr)" by (rule started_fit [OF assms(1-7)])
  then have fit: "messages_fits m" using assms(8,9) by (auto simp: all_fit_def)
  then show ?thesis
    using bytes_laws.messages_encode_wire [OF assms(2), of m "[]"] fits_payload [OF fit] by simp
qed

text \<open>The greeting of the first peer of the three-byte torrent.\<close>

lemma outgoing_messages_fit_witness:
  "\<exists>ch m. ch \<in> set (pr_channels tiny3) \<and> m \<in> set (ch_messages ch) \<and> messages_encode list_bytes m [] = Ok (messages_wire m)"
proof -
  have inv: "processor_inv tiny_torrent (max_outstanding_requests default_config) tiny3"
    by (rule processor.reachable_inv [OF started_reachable [OF tiny_run(1)]])
  obtain h where "h \<in> set (pr_handlers tiny3)" using tiny_run(4) by (cases "pr_handlers tiny3") auto
  then have "greeted (pr_channels tiny3) (h_conn h)" using inv by (simp add: processor_inv_def)
  then have "h_conn h < length (pr_channels tiny3)" "Flag Choke \<in> set (ch_messages (pr_channels tiny3 ! h_conn h))"
    by (auto simp: greeted_def)
  then obtain ch m where m: "ch \<in> set (pr_channels tiny3)" "m \<in> set (ch_messages ch)" using nth_mem by blast
  have "allocate_torrent tiny_torrent = Some \<lparr>total_pieces = 1, max_piece_size = 3, last_piece_size = 3\<rparr>"
    by (simp add: tiny_torrent_def allocate_torrent_def i64_as_usize_def usize_mul_def usize_sub_def)
  from outgoing_messages_fit [OF list_file.file_laws_axioms list_bytes.bytes_laws_axioms
      sorted_iter.hash_iteration_axioms this _ _ tiny_run(1) m] m show ?thesis by auto
qed

end
