(* ===== verification/System.thy ===== *)
theory System
  imports Outgoing_Messages Run_Connection
begin

text \<open>
  The running client: the processor of \<open>src/peer/state/mod.rs\<close> together with the connection
  tasks of \<open>src/peer/net.rs\<close>. \<open>connect_torrent_peers\<close> holds the connections in a set of futures and
  polls them in the program's main task, next to the processor's task; a connection first sends
  its \<open>PeerStartMessage\<close> through a channel of capacity 1, and from then on shares two channels with
  the handler the processor starts for it. A step of the system is a step of one task or of
  the processor, which sees of the peers exactly what the tasks deliver. As in \<open>Event_Loop\<close> a send to a
  peer does not wait. The status of the program is that of its main
  task: a panic of a connection's future unwinds it. The processor and the I/O task are spawned: a panic of
  theirs unwinds only them (\<open>pr_loop\<close> and \<open>pr_io\<close> record it), after which the main task would return, or the store be gone.
\<close>

section \<open>The state\<close>

text \<open>
  A connection whose task has started, at the index of its channel in the processor. The last
  three components only record what happened: the bytes the peer sends in all, the messages its
  handler took, and the messages written to it.
\<close>

record peer_link =
  ln_peer :: internal_peer_id
  ln_task :: conn_run
  ln_inbox :: "messages list"     \<comment> \<open>sent to the processor and not yet taken\<close>
  ln_bytes :: bytes
  ln_taken :: "messages list"
  ln_wire :: "messages list"

datatype main_status = Main_runs | Main_returned | Main_panicked

record 'io system =
  sy_pr :: "'io processor"
  sy_pending :: "(internal_peer_id \<times> bytes \<times> read_event list) list"   \<comment> \<open>futures not polled yet\<close>
  sy_links :: "peer_link list"
  sy_main :: main_status

type_synonym connection = "internal_peer_id \<times> bytes \<times> read_event list"

definition link_new :: "internal_peer_id \<Rightarrow> bytes \<Rightarrow> read_event list \<Rightarrow> peer_link" where
  "link_new peer_id buffer incoming =
     \<lparr>ln_peer = peer_id, ln_task = run_connection True buffer incoming, ln_inbox = [],
      ln_bytes = buffer @ data incoming, ln_taken = [], ln_wire = []\<rparr>"

fun is_running :: "conn_run \<Rightarrow> bool" where
  "is_running (Running _) = True"
| "is_running (Stopped _) = False"

text \<open>What the processor has put into channel \<open>c\<close>, and who holds its ends. A connection that is not accepted yet holds both of its own.\<close>

definition told :: "'io processor \<Rightarrow> nat \<Rightarrow> messages list" where
  "told pr c = (if c < length (pr_channels pr) then ch_messages (pr_channels pr ! c) else [])"

definition handler_lives :: "'io processor \<Rightarrow> nat \<Rightarrow> bool" where
  "handler_lives pr c \<longleftrightarrow> (\<exists>h \<in> set (pr_handlers pr). h_conn h = c \<and> h_status h \<noteq> Returned)"

definition receiver_alive :: "'io processor \<Rightarrow> nat \<Rightarrow> bool" where
  "receiver_alive pr c \<longleftrightarrow> length (pr_channels pr) \<le> c \<or> handler_lives pr c"

definition sender_alive :: "'io processor \<Rightarrow> nat \<Rightarrow> bool" where
  "sender_alive pr c \<longleftrightarrow>
     length (pr_channels pr) \<le> c \<or> handler_lives pr c \<or> (\<exists>(_, d) \<in> set (pr_peer_to_tx pr). d = c)"

section \<open>The steps\<close>

text \<open>A step of a task: what it passes on is in the inbox, and its end closes its channel.\<close>

fun own_label :: "conn_label \<Rightarrow> bool" where
  "own_label (Queued _) = False"
| "own_label Outbox_closed = False"
| "own_label Inbox_closed = False"
| "own_label _ = True"

definition close_channel :: "nat \<Rightarrow> 'io processor \<Rightarrow> 'io processor" where
  "close_channel c pr = pr\<lparr>pr_channels := (pr_channels pr)[c := (pr_channels pr ! c)\<lparr>ch_open := False\<rparr>]\<rparr>"

definition task_effect :: "nat \<Rightarrow> conn_label \<Rightarrow> conn_run \<Rightarrow> 'io system \<Rightarrow> 'io system" where
  "task_effect c l r s =
     (let ln = sy_links s ! c in
      s\<lparr>sy_pr := (if is_running r then sy_pr s else close_channel c (sy_pr s)),
        sy_links := (sy_links s)[c := ln\<lparr>ln_task := r, ln_inbox := ln_inbox ln @ delivered [l], ln_wire := ln_wire ln @ written [l]\<rparr>],
        sy_main := (if r = Stopped Panic then Main_panicked else sy_main s)\<rparr>)"

text \<open>
  A step of the processor: which ones the tasks allow, which message is taken out of an inbox,
  and what the tasks see of it afterwards.
\<close>

fun allowed :: "'io system \<Rightarrow> event \<Rightarrow> bool" where
  "allowed s (PeerStarts peer_id is_open) \<longleftrightarrow>
     (let c = length (pr_channels (sy_pr s)) in
      c < length (sy_links s) \<and> peer_id = ln_peer (sy_links s ! c) \<and> is_open = is_running (ln_task (sy_links s ! c)))"
| "allowed s (PeerSends i msg) \<longleftrightarrow>
     (let c = h_conn (pr_handlers (sy_pr s) ! i) in
      ln_inbox (sy_links s ! c) \<noteq> [] \<and> msg = hd (ln_inbox (sy_links s ! c)))"
| "allowed s (PeerHangsUp i) \<longleftrightarrow>
     (let c = h_conn (pr_handlers (sy_pr s) ! i) in
      ln_inbox (sy_links s ! c) = [] \<and> \<not> is_running (ln_task (sy_links s ! c)))"
| "allowed s (ChannelCloses _) \<longleftrightarrow> False"
| "allowed s _ \<longleftrightarrow> True"

fun take_message :: "'io system \<Rightarrow> event \<Rightarrow> peer_link list" where
  "take_message s (PeerSends i msg) =
     (let c = h_conn (pr_handlers (sy_pr s) ! i); ln = sy_links s ! c in
      (sy_links s)[c := ln\<lparr>ln_inbox := tl (ln_inbox ln), ln_taken := ln_taken ln @ [msg]\<rparr>])"
| "take_message s _ = sy_links s"

definition forward :: "'io processor \<Rightarrow> 'io processor \<Rightarrow> nat \<Rightarrow> peer_link \<Rightarrow> peer_link" where
  "forward pr pr' c ln =
     (case ln_task ln of
        Stopped r \<Rightarrow> ln
      | Running t \<Rightarrow>
          ln\<lparr>ln_task := Running (t\<lparr>ct_outbox := ct_outbox t @ drop (length (told pr c)) (told pr' c),
               ct_outbox_open := sender_alive pr' c, ct_inbox_open := receiver_alive pr' c\<rparr>)\<rparr>)"

definition loop_effect :: "event \<Rightarrow> 'io processor \<Rightarrow> 'io system \<Rightarrow> 'io system" where
  "loop_effect ev pr' s =
     s\<lparr>sy_pr := pr',
       sy_links := map (\<lambda>(c, ln). forward (sy_pr s) pr' c ln) (enumerate 0 (take_message s ev))\<rparr>"

datatype system_label =
    Connects internal_peer_id
  | Task_moves nat conn_label
  | Loop_moves event
  | Client_returns

text \<open>When the last connection is over, the set of futures is empty and the program's \<open>select!\<close> with it.\<close>

inductive system_step ::
  "'io torrent_io_ops \<Rightarrow> bytes_api \<Rightarrow> (internal_peer_id set \<Rightarrow> internal_peer_id list) \<Rightarrow>
     'io system \<Rightarrow> system_label \<Rightarrow> 'io system \<Rightarrow> bool"
  for ops :: "'io torrent_io_ops" and A :: bytes_api and iter :: "internal_peer_id set \<Rightarrow> internal_peer_id list"
where
  connects: "sy_main s = Main_runs \<Longrightarrow> sy_pending s = before @ (peer_id, buffer, incoming) # after \<Longrightarrow>
     length (sy_links s) = length (pr_channels (sy_pr s)) \<Longrightarrow>
     system_step ops A iter s (Connects peer_id)
       (s\<lparr>sy_pending := before @ after, sy_links := sy_links s @ [link_new peer_id buffer incoming]\<rparr>)"
| task_moves: "sy_main s = Main_runs \<Longrightarrow> c < length (sy_links s) \<Longrightarrow> ln_task (sy_links s ! c) = Running t \<Longrightarrow>
     conn_step A (Running t) l r \<Longrightarrow> own_label l \<Longrightarrow>
     system_step ops A iter s (Task_moves c l) (task_effect c l r s)"
| loop_moves: "sy_main s = Main_runs \<Longrightarrow> processor_step ops A iter (sy_pr s) ev pr' \<Longrightarrow> allowed s ev \<Longrightarrow>
     system_step ops A iter s (Loop_moves ev) (loop_effect ev pr' s)"
| client_returns: "sy_main s = Main_runs \<Longrightarrow> sy_pending s = [] \<Longrightarrow> \<forall>ln \<in> set (sy_links s). \<not> is_running (ln_task ln) \<Longrightarrow>
     system_step ops A iter s Client_returns (s\<lparr>sy_main := Main_returned\<rparr>)"

definition system_init :: "('io processor \<Rightarrow> bool) \<Rightarrow> connection list \<Rightarrow> 'io system \<Rightarrow> bool" where
  "system_init init conns s \<longleftrightarrow>
     (\<exists>pr. init pr \<and> s = \<lparr>sy_pr = pr, sy_pending = conns, sy_links = [], sy_main = Main_runs\<rparr>)"

section \<open>The processor inside the system\<close>

text \<open>Whatever the tasks do, the processor only makes steps of its own machine.\<close>

lemma system_step_view:
  assumes "system_step ops A iter s l s'"
  shows "sy_pr s' = sy_pr s \<or> (\<exists>ev. processor_step ops A iter (sy_pr s) ev (sy_pr s'))"
  using assms
proof cases
  case (task_moves c t l r)
  show ?thesis
  proof (cases "is_running r \<or> length (pr_channels (sy_pr s)) \<le> c")
    case True
    then show ?thesis using task_moves by (auto simp: task_effect_def Let_def close_channel_def list_update_beyond)
  next
    case False
    then have "sy_pr s' = (sy_pr s)\<lparr>pr_channels := (pr_channels (sy_pr s))[c := (pr_channels (sy_pr s) ! c)\<lparr>ch_open := False\<rparr>]\<rparr>"
      using task_moves by (simp add: task_effect_def Let_def close_channel_def)
    then show ?thesis using processor_step.channel_closes [of c "sy_pr s"] False by (metis not_le)
  qed
next
  case (loop_moves ev pr')
  then show ?thesis by (auto simp: loop_effect_def)
qed simp_all

interpretation system: simulation "system_init init conns" "system_step ops A iter" init "processor_step ops A iter" sy_pr
  for init conns ops A iter
  by unfold_locales (auto simp: system_init_def dest: system_step_view)

section \<open>The invariant\<close>

text \<open>
  Between a task and the processor nothing is lost, doubled or reordered: what was written is a
  prefix of what the processor put into the channel, what the handler took and what waits for
  it is a prefix of what the peer sent.
\<close>

definition link_ok :: "'io processor \<Rightarrow> nat \<Rightarrow> peer_link \<Rightarrow> bool" where
  "link_ok pr c ln \<longleftrightarrow>
     written_of (told pr c) (ln_wire ln) (ln_task ln) \<and>
     (\<forall>ms extra. (\<forall>m \<in> set ms. messages_fits m) \<longrightarrow> ln_bytes ln @ extra = concat (map messages_wire ms) \<longrightarrow>
        received_from ms extra (ln_taken ln @ ln_inbox ln) (ln_task ln))"

definition system_inv :: "v1_torrent \<Rightarrow> usize \<Rightarrow> 'io system \<Rightarrow> bool" where
  "system_inv torrent max_out s \<longleftrightarrow>
     processor_inv torrent max_out (sy_pr s) \<and>
     length (pr_channels (sy_pr s)) \<le> length (sy_links s) \<and>
     (\<forall>c < length (pr_channels (sy_pr s)). ch_open (pr_channels (sy_pr s) ! c) = is_running (ln_task (sy_links s ! c))) \<and>
     (\<forall>c < length (sy_links s). link_ok (sy_pr s) c (sy_links s ! c))"

lemma step_sends:
  assumes A: "bytes_laws A" and iter: "hash_iteration iter"
    and inv: "processor_inv torrent max_out pr" and step: "processor_step ops A iter pr ev pr'"
    and ev: "\<And>c. ev \<noteq> ChannelCloses c"
  shows "\<exists>xs. pr_channels pr' = send_all xs (pr_channels pr @
    (case ev of PeerStarts _ is_open \<Rightarrow> [\<lparr>ch_messages = [], ch_open = is_open\<rparr>] | _ \<Rightarrow> []))"
  using step
proof cases
  case (peer_starts p is_open)
  then show ?thesis using accept_peer_channels [OF A inv, of p is_open] by (auto simp del: send_all_simps)
next
  case (peer_sends i msg)
  let ?h = "pr_handlers pr ! i"
  obtain status s chs io where h: "handle_msg ops (h_peer ?h) (h_conn ?h) msg (pr_state pr, pr_channels pr, pr_io pr) =
      (status, s, chs, io)" by (metis prod_cases4)
  then show ?thesis
    using handle_msg_spec [OF h] peer_sends by (auto simp: deliver_def Let_def set_status_def)
next
  case (wake_received msg rest now)
  have "processor_inv torrent max_out (pr\<lparr>pr_wakeups := rest\<rparr>)" using inv by (simp add: processor_inv_def)
  from process_wakeup_spec [OF this, of iter now msg ops] obtain xs where "pr_channels pr' = send_all xs (pr_channels pr)"
    using wake_received by (auto simp: wake_post_def Let_def simp del: send_all_append)
  then show ?thesis using wake_received by auto
next
  case (timer_ticks now)
  then show ?thesis by (intro exI [of _ "[]"]) (simp add: timer_tick_eq [OF iter] Let_def split: prod.split)
qed (use ev in \<open>auto intro!: exI [of _ "[]"] simp: set_status_def reap_handler_def write_answered_def Let_def split: prod.splits\<close>)

lemma send_all_open: "d < length chs \<Longrightarrow> ch_open (send_all xs chs ! d) = ch_open (chs ! d)"
  using send_all_facts(2) [of xs chs d] by (simp add: deliverable_def)

lemma step_told:
  assumes "pr_channels pr' = send_all xs (pr_channels pr @ ys)" and "\<forall>y \<in> set ys. ch_messages y = []"
  shows "\<exists>new. told pr' c = told pr c @ new"
proof -
  have "c < length (pr_channels pr @ ys) \<Longrightarrow> told pr c = ch_messages ((pr_channels pr @ ys) ! c)"
    using assms(2) by (auto simp: told_def nth_append)
  moreover have "\<not> c < length (pr_channels pr @ ys) \<Longrightarrow> told pr c = [] \<and> told pr' c = []"
    using assms(1) by (simp add: told_def)
  ultimately show ?thesis
    using assms(1) send_all_messages [of c "pr_channels pr @ ys" xs] by (cases "c < length (pr_channels pr @ ys)") (auto simp: told_def)
qed

lemma forward_ok:
  assumes "link_ok pr c ln" "told pr' c = told pr c @ new"
  shows "link_ok pr' c (forward pr pr' c ln)" "is_running (ln_task (forward pr pr' c ln)) = is_running (ln_task ln)"
proof -
  have "link_ok pr' c (forward pr pr' c ln) \<and> is_running (ln_task (forward pr pr' c ln)) = is_running (ln_task ln)"
  proof (cases "ln_task ln")
    case (Running t)
    then show ?thesis using assms by (auto simp: link_ok_def forward_def written_of_def received_from_def)
  next
    case (Stopped r)
    then have "written_of (told pr' c) (ln_wire ln) (ln_task ln)"
      using assms by (auto simp: link_ok_def written_of_def)
    then show ?thesis using assms(1) Stopped by (simp add: link_ok_def forward_def)
  qed
  then show "link_ok pr' c (forward pr pr' c ln)" "is_running (ln_task (forward pr pr' c ln)) = is_running (ln_task ln)"
    by simp_all
qed

lemma take_message_ok:
  assumes "\<forall>c < length (sy_links s). link_ok (sy_pr s) c (sy_links s ! c)" and "allowed s ev"
  shows "length (take_message s ev) = length (sy_links s)"
    "c < length (sy_links s) \<Longrightarrow> link_ok (sy_pr s) c (take_message s ev ! c) \<and>
       ln_task (take_message s ev ! c) = ln_task (sy_links s ! c)"
proof -
  show "length (take_message s ev) = length (sy_links s)" by (cases ev) (simp_all add: Let_def)
  assume c: "c < length (sy_links s)"
  show "link_ok (sy_pr s) c (take_message s ev ! c) \<and> ln_task (take_message s ev ! c) = ln_task (sy_links s ! c)"
  proof (cases "\<exists>i msg. ev = PeerSends i msg \<and> h_conn (pr_handlers (sy_pr s) ! i) = c")
    case True
    then obtain i msg where i: "ev = PeerSends i msg" "h_conn (pr_handlers (sy_pr s) ! i) = c" by blast
    have "ln_inbox (sy_links s ! c) = msg # tl (ln_inbox (sy_links s ! c))" using assms(2) i by (simp add: Let_def)
    moreover have "link_ok (sy_pr s) c (sy_links s ! c)" using assms(1) c by blast
    ultimately show ?thesis using c i by (simp add: link_ok_def Let_def)
  next
    case False
    then have "take_message s ev ! c = sy_links s ! c" by (cases ev) (auto simp: Let_def nth_list_update)
    then show ?thesis using assms(1) c by simp
  qed
qed

lemma connects_inv:
  assumes inv: "system_inv torrent max_out s" and full: "length (sy_links s) = length (pr_channels (sy_pr s))"
    and s': "s' = s\<lparr>sy_pending := before @ after, sy_links := sy_links s @ [link_new p buffer incoming]\<rparr>"
  shows "system_inv torrent max_out s'"
proof -
  have new: "link_ok (sy_pr s) (length (sy_links s)) (link_new p buffer incoming)"
    using full by (auto simp: link_ok_def link_new_def told_def written_of_def received_from_def run_connection_def)
  show ?thesis
    using inv new full by (auto simp: system_inv_def s' nth_append less_Suc_eq)
qed

lemma task_moves_inv:
  assumes A: "bytes_laws A" and inv: "system_inv torrent max_out s" and c: "c < length (sy_links s)"
    and t: "ln_task (sy_links s ! c) = Running t" and step: "conn_step A (Running t) l r" and own: "own_label l"
    and pr: "processor_inv torrent max_out (sy_pr (task_effect c l r s))"
  shows "system_inv torrent max_out (task_effect c l r s)"
proof -
  let ?ln = "sy_links s ! c" and ?s' = "task_effect c l r s"
  have told: "told (sy_pr ?s') d = told (sy_pr s) d" for d
    by (cases "d = c") (auto simp: task_effect_def Let_def told_def close_channel_def)
  have ok: "link_ok (sy_pr s) d (sy_links s ! d)" if "d < length (sy_links s)" for d
    using inv that by (simp add: system_inv_def)
  have "queued_msgs [l] = []" using own by (cases l) simp_all
  then have "written_of (told (sy_pr s) c) (ln_wire ?ln @ written [l]) r"
    using written_of_step [OF A _ step, of "told (sy_pr s) c" "ln_wire ?ln"] ok [OF c] t by (simp add: link_ok_def del: label_simps)
  moreover have "received_from ms extra (ln_taken ?ln @ ln_inbox ?ln @ delivered [l]) r"
    if "\<forall>m \<in> set ms. messages_fits m" "ln_bytes ?ln @ extra = concat (map messages_wire ms)" for ms extra
    using received_from_step(1) [OF A that(1) _ step, of extra "ln_taken ?ln @ ln_inbox ?ln"] ok [OF c] t that
    by (simp add: link_ok_def del: label_simps)
  ultimately have new: "link_ok (sy_pr ?s') c (sy_links ?s' ! c)"
    using c told by (simp add: link_ok_def task_effect_def Let_def del: label_simps)
  have "link_ok (sy_pr ?s') d (sy_links ?s' ! d)" if "d < length (sy_links s)" for d
    using new ok [OF that] told by (cases "d = c") (simp_all add: link_ok_def task_effect_def Let_def del: label_simps)
  moreover have "ch_open (pr_channels (sy_pr ?s') ! d) = is_running (ln_task (sy_links ?s' ! d))"
    if "d < length (pr_channels (sy_pr s))" for d
    using inv that t c by (auto simp: system_inv_def task_effect_def Let_def close_channel_def nth_list_update)
  ultimately show ?thesis
    using inv pr by (auto simp: system_inv_def task_effect_def Let_def close_channel_def)
qed

lemma loop_moves_inv:
  assumes A: "bytes_laws A" and iter: "hash_iteration iter" and inv: "system_inv torrent max_out s"
    and step: "processor_step ops A iter (sy_pr s) ev pr'" and allowed: "allowed s ev"
    and pr: "processor_inv torrent max_out pr'"
  shows "system_inv torrent max_out (loop_effect ev pr' s)"
proof -
  let ?chs = "pr_channels (sy_pr s)" and ?lns = "take_message s ev" and ?s' = "loop_effect ev pr' s"
  let ?new = "case ev of PeerStarts _ is_open \<Rightarrow> [\<lparr>ch_messages = [], ch_open = is_open\<rparr>] | _ \<Rightarrow> []"
  have pinv: "processor_inv torrent max_out (sy_pr s)" and ok: "\<forall>c < length (sy_links s). link_ok (sy_pr s) c (sy_links s ! c)"
    and len: "length ?chs \<le> length (sy_links s)"
    and opened: "\<And>c. c < length ?chs \<Longrightarrow> ch_open (?chs ! c) = is_running (ln_task (sy_links s ! c))"
    using inv by (simp_all add: system_inv_def)
  have "ev \<noteq> ChannelCloses c" for c using allowed by auto
  then obtain xs where xs: "pr_channels pr' = send_all xs (?chs @ ?new)"
    using step_sends [OF A iter pinv step] by blast
  note lns = take_message_ok [OF ok allowed]
  have links: "length (sy_links ?s') = length (sy_links s)"
    "\<And>c. c < length (sy_links s) \<Longrightarrow> sy_links ?s' ! c = forward (sy_pr s) pr' c (?lns ! c)" "sy_pr ?s' = pr'"
    using lns(1) by (simp_all add: loop_effect_def nth_enumerate_eq)
  have silent: "\<forall>y \<in> set ?new. ch_messages y = []" by (cases ev) simp_all
  have fwd: "link_ok pr' c (sy_links ?s' ! c) \<and> is_running (ln_task (sy_links ?s' ! c)) = is_running (ln_task (sy_links s ! c))"
    if c: "c < length (sy_links s)" for c
  proof -
    obtain new where "told pr' c = told (sy_pr s) c @ new" using step_told [OF xs silent] by blast
    then show ?thesis using forward_ok [of "sy_pr s" c "?lns ! c" pr' new] lns(2) [OF c] links(2) [OF c] by simp
  qed
  have "length (?chs @ ?new) \<le> length (sy_links s)"
    using len allowed by (cases ev) (auto simp: Let_def)
  moreover have "ch_open ((?chs @ ?new) ! c) = is_running (ln_task (sy_links s ! c))" if "c < length (?chs @ ?new)" for c
  proof (cases "c < length ?chs")
    case True
    then show ?thesis using opened by (simp add: nth_append)
  next
    case False
    then show ?thesis using that allowed by (cases ev) (auto simp: Let_def nth_append less_Suc_eq)
  qed
  ultimately show ?thesis
    using pr fwd links xs by (simp add: system_inv_def send_all_open)
qed

lemma system_machine:
  assumes A: "bytes_laws A" and iter: "hash_iteration iter" and start: "\<And>pr. init pr \<Longrightarrow> processor_init torrent max_out pr"
  shows "invariant_system (system_init init conns) (system_step ops A iter) (system_inv torrent max_out)"
proof
  fix s :: "'a system"
  assume "system_init init conns s"
  then obtain pr where pr: "init pr" "s = \<lparr>sy_pr = pr, sy_pending = conns, sy_links = [], sy_main = Main_runs\<rparr>"
    by (auto simp: system_init_def)
  moreover have "pr_channels pr = []" using start [OF pr(1)] by (auto simp: processor_init_def processor_new_def)
  ultimately show "system_inv torrent max_out s"
    using processor_new_inv [OF start [OF pr(1)]] by (simp add: system_inv_def)
next
  fix s l and s' :: "'a system"
  assume inv: "system_inv torrent max_out s" and step: "system_step ops A iter s l s'"
  have pr: "processor_inv torrent max_out (sy_pr s')"
    using system_step_view [OF step] inv invariant_system.step_inv [OF processor_machine [OF A iter]]
    by (auto simp: system_inv_def)
  from step show "system_inv torrent max_out s'"
  proof cases
    case (connects before p buffer incoming after)
    then show ?thesis using connects_inv [OF inv] by blast
  next
    case (task_moves c t l r)
    then show ?thesis using task_moves_inv [OF A inv] pr by simp
  next
    case (loop_moves ev pr')
    then show ?thesis using loop_moves_inv [OF A iter inv] pr by (simp add: loop_effect_def)
  qed (use inv in \<open>simp add: system_inv_def\<close>)
qed

section \<open>Crashes\<close>

text \<open>Bytes that are cut from a stream of protocol messages, wherever the cut is.\<close>

definition protocol_bytes :: "bytes \<Rightarrow> bool" where
  "protocol_bytes b \<longleftrightarrow> (\<exists>ms extra. (\<forall>m \<in> set ms. messages_fits m) \<and> b @ extra = concat (map messages_wire ms))"

definition peers_behave :: "'io system \<Rightarrow> bool" where
  "peers_behave s \<longleftrightarrow>
     (\<forall>(p, buffer, incoming) \<in> set (sy_pending s). protocol_bytes (buffer @ data incoming)) \<and>
     (\<forall>ln \<in> set (sy_links s). protocol_bytes (ln_bytes ln)) \<and> sy_main s \<noteq> Main_panicked"

lemma map_update_same: "f x = f (xs ! c) \<Longrightarrow> map f (xs[c := x]) = map f xs"
  by (cases "c < length xs") (auto simp: map_update list_update_same_conv list_update_beyond)

lemma take_message_bytes: "map ln_bytes (take_message s ev) = map ln_bytes (sy_links s)"
  by (cases ev) (simp_all add: Let_def map_update_same)

lemma loop_effect_bytes: "map ln_bytes (sy_links (loop_effect ev pr' s)) = map ln_bytes (sy_links s)"
proof -
  have "ln_bytes (forward pr pr' c ln) = ln_bytes ln" for pr c ln by (simp add: forward_def split: conn_run.split)
  then have "map ln_bytes (sy_links (loop_effect ev pr' s)) = map ln_bytes (take_message s ev)"
    by (intro nth_equalityI) (simp_all add: loop_effect_def nth_enumerate_eq)
  then show ?thesis by (simp add: take_message_bytes)
qed

lemma peers_behave_step:
  assumes A: "bytes_laws A" and inv: "system_inv torrent max_out s" and fit: "all_fit (pr_channels (sy_pr s))"
    and good: "peers_behave s" and step: "system_step ops A iter s l s'"
  shows "peers_behave s'"
  using step
proof cases
  case (connects before p buffer incoming after)
  then show ?thesis using good by (auto simp: peers_behave_def link_new_def)
next
  case (task_moves c t l r)
  let ?ln = "sy_links s ! c"
  have ok: "link_ok (sy_pr s) c ?ln" "protocol_bytes (ln_bytes ?ln)"
    using inv good task_moves(4) by (auto simp: system_inv_def peers_behave_def)
  then obtain ms extra where ms: "\<forall>m \<in> set ms. messages_fits m" "ln_bytes ?ln @ extra = concat (map messages_wire ms)"
    by (auto simp: protocol_bytes_def)
  have "set (ct_outbox t) \<subseteq> set (told (sy_pr s) c)"
    using ok(1) task_moves(5) by (auto simp: link_ok_def written_of_def)
  then have "\<forall>m \<in> set (ct_outbox t). messages_fits m"
    using fit by (auto simp: told_def all_fit_nth split: if_splits)
  moreover have "received_from ms extra (ln_taken ?ln @ ln_inbox ?ln) (Running t)"
    using ok(1) ms task_moves(5) by (simp add: link_ok_def)
  ultimately have "r \<noteq> Stopped Panic"
    using received_from_step(2) [OF A ms(1) _ task_moves(6)] by blast
  moreover have "map ln_bytes (sy_links s') = map ln_bytes (sy_links s)"
    using task_moves(2) by (simp add: task_effect_def Let_def map_update_same)
  then have "ln_bytes ` set (sy_links s') = ln_bytes ` set (sy_links s)" by (metis list.set_map)
  ultimately show ?thesis
    using good task_moves(2) by (auto simp: peers_behave_def task_effect_def Let_def dest!: equalityD1)
next
  case (loop_moves ev pr')
  have "ln_bytes ` set (sy_links s') = ln_bytes ` set (sy_links s)"
    using loop_effect_bytes [of ev pr' s] loop_moves(2) by (metis list.set_map)
  moreover have "sy_pending s' = sy_pending s" "sy_main s' = sy_main s"
    using loop_moves(2) by (simp_all add: loop_effect_def)
  ultimately show ?thesis using good unfolding peers_behave_def by (metis (mono_tags, lifting) image_iff)
next
  case client_returns
  then show ?thesis using good by (auto simp: peers_behave_def)
qed

lemma first_read:
  assumes "bytes_laws A"
  shows "\<exists>n \<le> 4. try_decode A (messages_decode A) 0 [] = Need n"
proof -
  have "messages_fits KeepAlive" "messages_wire KeepAlive = [] @ messages_wire KeepAlive" "length (messages_wire KeepAlive) = 4"
    by simp_all
  moreover from this have "messages_wire KeepAlive \<noteq> []" by (metis list.size(3) zero_neq_numeral)
  ultimately obtain n where "try_decode A (messages_decode A) 0 [] = Need n" "n \<le> 4"
    using framed_codec.try_decode_short [OF messages_framed [OF assms], of KeepAlive "[]" "messages_wire KeepAlive" 0]
    by (metis zero_le)
  then show ?thesis by blast
qed

lemma malformed_read:
  assumes A: "bytes_laws A" and n: "0 < unat n" "unat n < 9"
  shows "read_msg A (messages_decode A) [] [ReadOk (be32 n @ 7 # be32 index @ be32 off @ rest)] =
    (Crashed, be32 n @ 7 # be32 index @ be32 off @ rest, [])"
proof -
  let ?d = "be32 n @ 7 # be32 index @ be32 off @ rest"
  obtain k where k: "k \<le> 4" "try_decode A (messages_decode A) 0 [] = Need k" using first_read [OF A] by blast
  have "messages_decode A ?d = Panic"
    using n bytes_laws.messages_decode_Panic_iff [OF A, of ?d] by blast
  moreover have "k \<le> remaining A ?d" using k(1) by (simp add: bytes_laws.remaining [OF A])
  ultimately have "try_decode A (messages_decode A) k ?d = Panicked" by (simp add: try_decode_def)
  then show ?thesis
    using k(2) by (simp add: read_msg_def read_loop.simps [of _ _ _ "[]"] read_loop.simps [of _ _ _ ?d])
qed

section \<open>An example run\<close>

text \<open>
  One connection: its peer sends the only piece of the three-byte torrent in one frame, and nobody asked
  for it. The frame is delivered before the processor accepts the peer.
\<close>

lemma forward_fields [simp]:
  "ln_inbox (forward pr pr' c ln) = ln_inbox ln" "ln_taken (forward pr pr' c ln) = ln_taken ln"
  "ln_bytes (forward pr pr' c ln) = ln_bytes ln"
  by (simp_all add: forward_def split: conn_run.split)

lemma loop_effect_fields [simp]:
  "sy_pr (loop_effect ev pr' s) = pr'" "sy_main (loop_effect ev pr' s) = sy_main s"
  "length (sy_links (loop_effect ev pr' s)) = length (take_message s ev)"
  "c < length (take_message s ev) \<Longrightarrow> sy_links (loop_effect ev pr' s) ! c = forward (sy_pr s) pr' c (take_message s ev ! c)"
  by (simp_all add: loop_effect_def nth_enumerate_eq)

lemma one_frame:
  assumes "bytes_laws A" "messages_fits m"
  shows "read_msg A (messages_decode A) [] [ReadOk (messages_wire m)] = (Msg m, [], [])"
proof -
  note codec = messages_framed [OF assms(1)]
  have w: "messages_wire m = [] @ messages_wire m" "messages_wire m \<noteq> []" "0 \<le> length (messages_wire m)"
    using framed_codec.wire_nonempty [OF codec assms(2)] by simp_all
  obtain n where n: "try_decode A (messages_decode A) 0 [] = Need n" "n \<le> length (messages_wire m)"
    using framed_codec.try_decode_short [OF codec assms(2) w] by blast
  have "try_decode A (messages_decode A) n (messages_wire m @ []) = Decoded m []"
    by (rule framed_codec.try_decode_wire [OF codec assms(2) n(2)])
  then show ?thesis
    using n w(2) by (simp add: read_msg_def read_loop.simps [of _ _ _ "[]"] read_loop.simps [of _ _ _ "messages_wire m"])
qed

lemma frame_delivered:
  assumes "bytes_laws A" "messages_fits m" "ct_buffer t = []" "ct_incoming t = ReadOk (messages_wire m) # later" "ct_inbox_open t"
  shows "conn_step A (Running t) (Delivered m) (Running (t\<lparr>ct_buffer := [], ct_incoming := later\<rparr>))"
proof (rule conn_step.read_first)
  show "reads A t [ReadOk (messages_wire m)] (Msg m) (t\<lparr>ct_buffer := [], ct_incoming := later\<rparr>)"
    using one_frame [OF assms(1,2)] assms(3,4) by (simp add: reads_def)
qed (simp add: read_branch_def assms(5))

definition tiny_piece :: messages where
  "tiny_piece = Piece 0 0 [1, 2, 3]"

definition tiny_conns :: "connection list" where
  "tiny_conns = [([1], [], [ReadOk (messages_wire tiny_piece)])]"

definition system0 :: "list_file boxed_io system" where
  "system0 = \<lparr>sy_pr = tiny0, sy_pending = tiny_conns, sy_links = [], sy_main = Main_runs\<rparr>"

definition system1 :: "list_file boxed_io system" where
  "system1 = system0\<lparr>sy_pending := [] @ [], sy_links := sy_links system0 @ [link_new [1] [] [ReadOk (messages_wire tiny_piece)]]\<rparr>"

definition idle_task :: conn_task where
  "idle_task = \<lparr>ct_buffer = [], ct_incoming = [], ct_outbox = [], ct_outbox_open = True, ct_inbox_open = True\<rparr>"

definition system2 :: "list_file boxed_io system" where
  "system2 = task_effect 0 (Delivered tiny_piece) (Running idle_task) system1"

definition system3 :: "list_file boxed_io system" where
  "system3 = loop_effect (PeerStarts [1] True) tiny1 system2"

definition system4 :: "list_file boxed_io system" where
  "system4 = loop_effect (PeerSends 0 tiny_piece) tiny2 system3"

definition system5 :: "list_file boxed_io system" where
  "system5 = loop_effect (WriteAnswered 0) tiny3 system4"

abbreviation tiny_system_step :: "list_file boxed_io system \<Rightarrow> system_label \<Rightarrow> list_file boxed_io system \<Rightarrow> bool" where
  "tiny_system_step \<equiv> system_step (boxed_ops list_file_api toy_digest) list_bytes sorted_iter"

abbreviation tiny_init :: "list_file boxed_io processor \<Rightarrow> bool" where
  "tiny_init \<equiv> started_as (start_processing list_file_api (Ok ([], 0)) tiny_torrent default_config) tiny_torrent"

lemma system1_facts: "sy_main system1 = Main_runs" "sy_pr system1 = tiny0" "length (sy_links system1) = 1"
  "sy_links system1 ! 0 = link_new [1] [] [ReadOk (messages_wire tiny_piece)]"
  by (simp_all add: system1_def system0_def)

lemma system2_facts: "sy_main system2 = Main_runs" "sy_pr system2 = tiny0" "length (sy_links system2) = 1"
  "sy_links system2 ! 0 = (link_new [1] [] [ReadOk (messages_wire tiny_piece)])\<lparr>ln_task := Running idle_task, ln_inbox := [tiny_piece]\<rparr>"
  by (simp_all add: system2_def task_effect_def Let_def system1_facts, simp_all add: link_new_def)

lemma system3_facts: "sy_main system3 = Main_runs" "sy_pr system3 = tiny1" "length (sy_links system3) = 1"
  "ln_inbox (sy_links system3 ! 0) = [tiny_piece]" "ln_taken (sy_links system3 ! 0) = []"
  "ln_bytes (sy_links system3 ! 0) = messages_wire tiny_piece"
  by (simp_all add: system3_def system2_facts, simp_all add: link_new_def)

lemma system4_facts: "sy_main system4 = Main_runs" "sy_pr system4 = tiny2" "length (sy_links system4) = 1"
  "ln_inbox (sy_links system4 ! 0) = []" "ln_taken (sy_links system4 ! 0) = [tiny_piece]"
  "ln_bytes (sy_links system4 ! 0) = messages_wire tiny_piece"
  by (simp_all add: system4_def system3_facts Let_def tiny1_facts)

lemma system_run: "tiny_system_step system0 (Connects [1]) system1"
  "tiny_system_step system1 (Task_moves 0 (Delivered tiny_piece)) system2"
  "tiny_system_step system2 (Loop_moves (PeerStarts [1] True)) system3"
  "tiny_system_step system3 (Loop_moves (PeerSends 0 tiny_piece)) system4"
  "tiny_system_step system4 (Loop_moves (WriteAnswered 0)) system5"
proof -
  show "tiny_system_step system0 (Connects [1]) system1"
    unfolding system1_def by (rule system_step.connects) (simp_all add: system0_def tiny_conns_def tiny0_facts)
  let ?t = "\<lparr>ct_buffer = [], ct_incoming = [ReadOk (messages_wire tiny_piece)], ct_outbox = [], ct_outbox_open = True, ct_inbox_open = True\<rparr>"
  have "conn_step list_bytes (Running ?t) (Delivered tiny_piece) (Running (?t\<lparr>ct_buffer := [], ct_incoming := []\<rparr>))"
    by (rule frame_delivered [OF list_bytes.bytes_laws_axioms]) (simp_all add: tiny_piece_def)
  then show "tiny_system_step system1 (Task_moves 0 (Delivered tiny_piece)) system2"
    unfolding system2_def
    by (intro system_step.task_moves [where t = ?t]) (simp_all add: system1_facts link_new_def run_connection_def idle_task_def)
  show "tiny_system_step system2 (Loop_moves (PeerStarts [1] True)) system3"
    unfolding system3_def using tiny_steps(1)
    by (intro system_step.loop_moves) (simp_all add: system2_facts tiny0_facts link_new_def Let_def)
  show "tiny_system_step system3 (Loop_moves (PeerSends 0 tiny_piece)) system4"
    unfolding system4_def using tiny_steps(2)
    by (intro system_step.loop_moves) (simp_all add: system3_facts tiny1_facts tiny_piece_def Let_def)
  show "tiny_system_step system4 (Loop_moves (WriteAnswered 0)) system5"
    unfolding system5_def using tiny_steps(3)
    by (intro system_step.loop_moves) (simp_all add: system4_facts)
qed

lemma system_reached: "reachable (system_init tiny_init tiny_conns) tiny_system_step system5"
  "reachable (system_init tiny_init tiny_conns) tiny_system_step system4"
  "reachable (system_init tiny_init tiny_conns) tiny_system_step system3"
proof -
  have r0: "reachable (system_init tiny_init tiny_conns) tiny_system_step system0"
    by (rule reachable.start) (use tiny_start in \<open>simp add: system_init_def system0_def\<close>)
  show r3: "reachable (system_init tiny_init tiny_conns) tiny_system_step system3"
    using reachable.next_state [OF reachable.next_state [OF reachable.next_state [OF r0 system_run(1)] system_run(2)] system_run(3)] .
  show r4: "reachable (system_init tiny_init tiny_conns) tiny_system_step system4"
    by (rule reachable.next_state [OF r3 system_run(4)])
  show "reachable (system_init tiny_init tiny_conns) tiny_system_step system5"
    by (rule reachable.next_state [OF r4 system_run(5)])
qed

lemma tiny_init_processor: "tiny_init pr \<Longrightarrow> processor_init tiny_torrent 128 pr"
  using started_init [of list_file_api "Ok ([], 0)" tiny_torrent default_config pr] by (simp add: default_config_def)

lemma system_processor_init:
  "reachable (system_init tiny_init conns) tiny_system_step s \<Longrightarrow>
   reachable (system_init (processor_init tiny_torrent 128) conns) tiny_system_step s"
  by (erule reachable_mono) (auto simp: system_init_def intro: tiny_init_processor)

lemma tiny_piece_fits: "messages_fits tiny_piece"
  by (simp add: tiny_piece_def)

section \<open>Properties\<close>

text \<open>
  The processor keeps its promises inside the client: however the connection tasks, the processor
  and the peers interleave, the processor is in a state that its own machine reaches, so everything
  proved of its reachable states holds end to end.
\<close>

theorem system_refines_processor:
  assumes "reachable (system_init init conns) (system_step ops A iter) s"
  shows "reachable init (processor_step ops A iter) (sy_pr s)"
  by (rule system.reachable_view [OF assms])

text \<open>The run of the example: the piece the peer sent is completed.\<close>

lemma system_refines_processor_witness:
  "tiny_reachable (sy_pr system5) \<and> 0 \<in> pieces_completed (ts_tracking (pr_state (sy_pr system5)))"
  using system_refines_processor [OF system_reached(1)] tiny_run(2) by (simp add: system5_def)

text \<open>
  C9. What a peer is told in the end: the messages written to it are a prefix of what the processor
  put into its channel, the rest still waits in the task's queue as long as the task runs, and all of it
  follows the script of a conversation, from the bit field on.
\<close>

theorem peer_is_told_script:
  assumes "bytes_laws A" and "hash_iteration iter"
    and "reachable (system_init (processor_init torrent max_out) conns) (system_step ops A iter) s"
    and "c < length (sy_links s)"
  shows "(\<exists>rest. told (sy_pr s) c = ln_wire (sy_links s ! c) @ rest \<and>
      (\<forall>t. ln_task (sy_links s ! c) = Running t \<longrightarrow> ct_outbox t = rest)) \<and>
    (told (sy_pr s) c = [] \<or>
      (\<exists>bf tail. told (sy_pr s) c = [BitField bf, Flag Choke, Flag NotInterested] @ tail \<and> list_all routine tail))"
proof -
  have inv: "system_inv torrent max_out s"
    by (rule invariant_system.reachable_inv [OF system_machine [OF assms(1,2)] assms(3)])
  then have "channels_inv (pr_channels (sy_pr s))" "written_of (told (sy_pr s) c) (ln_wire (sy_links s ! c)) (ln_task (sy_links s ! c))"
    using assms(4) by (simp_all add: system_inv_def processor_inv_def link_ok_def)
  then show ?thesis by (auto simp: written_of_def told_def channels_inv_def greeted_def)
qed

lemma peer_is_told_script_witness:
  "\<exists>rest. told tiny1 0 = ln_wire (sy_links system3 ! 0) @ rest"
proof -
  have "0 < length (sy_links system3)" by (simp add: system3_facts)
  from peer_is_told_script [OF list_bytes.bytes_laws_axioms sorted_iter.hash_iteration_axioms
      system_processor_init [OF system_reached(3)] this]
  show ?thesis by (auto simp: system3_facts)
qed

text \<open>
  C8. What the client takes from a peer: the messages its handler has taken, followed by those that wait for
  it, are a prefix of the messages the peer sent, in their order, however the stream was cut.
\<close>

theorem handled_in_order:
  assumes "bytes_laws A" and "hash_iteration iter"
    and "reachable (system_init (processor_init torrent max_out) conns) (system_step ops A iter) s"
    and "c < length (sy_links s)" and "\<forall>m \<in> set ms. messages_fits m"
    and "ln_bytes (sy_links s ! c) @ extra = concat (map messages_wire ms)"
  shows "\<exists>rest. ms = ln_taken (sy_links s ! c) @ ln_inbox (sy_links s ! c) @ rest"
proof -
  have "system_inv torrent max_out s"
    by (rule invariant_system.reachable_inv [OF system_machine [OF assms(1,2)] assms(3)])
  then have "received_from ms extra (ln_taken (sy_links s ! c) @ ln_inbox (sy_links s ! c)) (ln_task (sy_links s ! c))"
    using assms(4-6) by (simp add: system_inv_def link_ok_def)
  then show ?thesis by (auto simp: received_from_def)
qed

lemma handled_in_order_witness:
  "\<exists>rest. [tiny_piece] = ln_taken (sy_links system4 ! 0) @ ln_inbox (sy_links system4 ! 0) @ rest"
  by (rule handled_in_order [OF list_bytes.bytes_laws_axioms sorted_iter.hash_iteration_axioms
      system_processor_init [OF system_reached(2)], where extra = "[]"])
    (simp_all add: system4_facts tiny_piece_fits)

text \<open>
  C7. Messages of the protocol never make a connection panic. The futures of the connections are polled in the program's
  main task, so the panic of one ends the client; the processor and the I/O task are spawned, and theirs does not reach
  it. With either store, pieces whose length leaves room for the 9 bytes of a frame's header in 32 bits, and handshakes
  that are over: as long as what every peer sends is cut from a stream of well-formed messages, in no interleaving does a
  connection's future panic, and the processor's loop does not die either. (The I/O task may: the store in
  memory panics when a peer asks for bytes beyond a piece.)
\<close>

theorem only_malformed_frames_crash:
  assumes "file_laws F contents pos" and "bytes_laws A" and "hash_iteration iter"
    and "allocate_torrent torrent = Some a" and "max_piece_size a + 9 < 2 ^ 32" and "last_piece_size a + 9 < 2 ^ 32"
    and "\<forall>(p, buffer, incoming) \<in> set conns. protocol_bytes (buffer @ data incoming)"
    and "reachable (system_init (started_as (start_processing F created torrent cfg) torrent) conns)
      (system_step (boxed_ops F H) A iter) s"
  shows "sy_main s \<noteq> Main_panicked \<and> pr_loop (sy_pr s) \<noteq> Died"
proof -
  let ?init = "started_as (start_processing F created torrent cfg) torrent"
  have fit: "all_fit (pr_channels (sy_pr s))"
    if "reachable (system_init ?init conns) (system_step (boxed_ops F H) A iter) s" for s
    by (rule started_fit [OF assms(1-6) system.reachable_view [OF that]])
  have inv: "system_inv torrent (max_outstanding_requests cfg) s"
    if "reachable (system_init ?init conns) (system_step (boxed_ops F H) A iter) s" for s
    by (rule invariant_system.reachable_inv [OF system_machine [OF assms(2,3)] that]) (rule started_init)
  have "peers_behave s"
    using assms(8)
  proof (induction rule: reachable.induct)
    case (start s)
    then show ?case using assms(7) by (auto simp: system_init_def peers_behave_def)
  next
    case (next_state s l s')
    then show ?case using peers_behave_step [OF assms(2) inv fit] by blast
  qed
  then show ?thesis using inv [OF assms(8)] by (simp add: peers_behave_def system_inv_def processor_inv_def)
qed

lemma only_malformed_frames_crash_witness: "sy_main system5 \<noteq> Main_panicked \<and> pr_loop (sy_pr system5) \<noteq> Died"
proof -
  have "allocate_torrent tiny_torrent = Some \<lparr>total_pieces = 1, max_piece_size = 3, last_piece_size = 3\<rparr>"
    by (simp add: tiny_torrent_def allocate_torrent_def i64_as_usize_def usize_mul_def usize_sub_def)
  moreover have "protocol_bytes (messages_wire tiny_piece)"
    unfolding protocol_bytes_def by (rule exI [of _ "[tiny_piece]"]) (auto simp: tiny_piece_fits)
  then have "\<forall>(p, buffer, incoming) \<in> set tiny_conns. protocol_bytes (buffer @ data incoming)"
    by (simp add: tiny_conns_def)
  ultimately show ?thesis
    using only_malformed_frames_crash [OF list_file.file_laws_axioms list_bytes.bytes_laws_axioms
        sorted_iter.hash_iteration_axioms _ _ _ _ system_reached(1)] by fastforce
qed

text \<open>
  C23. And one does: when a peer of a running client sends a \<open>Piece\<close> frame whose length word is 1 to 8, its
  connection can panic at once. The connections are part of the program's main task, so
  this is the end of all of them and of the processor.
\<close>

theorem malformed_frame_ends_client:
  assumes "bytes_laws A" and "sy_main s = Main_runs" and "c < length (sy_links s)"
    and "ln_task (sy_links s ! c) = Running t" and "ct_buffer t = []"
    and "ct_incoming t = ReadOk (be32 n @ 7 # be32 index @ be32 off @ rest) # later"
    and "0 < unat n" and "unat n < 9"
  shows "\<exists>s'. system_step ops A iter s (Task_moves c Decoder_panicked) s' \<and> sy_main s' = Main_panicked \<and>
    (\<forall>l s''. \<not> system_step ops A iter s' l s'')"
proof -
  let ?d = "be32 n @ 7 # be32 index @ be32 off @ rest" and ?s' = "task_effect c Decoder_panicked (Stopped Panic) s"
  have "reads A t [ReadOk ?d] Crashed (t\<lparr>ct_buffer := ?d, ct_incoming := later\<rparr>)"
    using malformed_read [OF assms(1,7,8)] assms(5,6) by (simp add: reads_def)
  then have "conn_step A (Running t) Decoder_panicked (Stopped Panic)"
    by (rule conn_step.read_panics)
  then have "system_step ops A iter s (Task_moves c Decoder_panicked) ?s'"
    by (intro system_step.task_moves [OF assms(2-4)]) simp_all
  moreover have panicked: "sy_main ?s' = Main_panicked" by (simp add: task_effect_def Let_def)
  moreover have "\<not> system_step ops A iter ?s' l s''" for l s''
    using panicked by (auto elim: system_step.cases)
  ultimately show ?thesis by blast
qed

text \<open>Length 1, on a connection that has just started.\<close>

definition bad_frame :: bytes where
  "bad_frame = be32 1 @ 7 # be32 0 @ be32 0 @ []"

definition bad_system :: "list_file boxed_io system" where
  "bad_system = \<lparr>sy_pr = tiny0, sy_pending = [], sy_links = [link_new [1] [] [ReadOk bad_frame]], sy_main = Main_runs\<rparr>"

lemma malformed_frame_ends_client_witness:
  "reachable (system_init tiny_init [([1], [], [ReadOk bad_frame])]) tiny_system_step bad_system \<and>
   (\<exists>s'. tiny_system_step bad_system (Task_moves 0 Decoder_panicked) s' \<and> sy_main s' = Main_panicked)"
proof
  let ?conns = "[([1], [], [ReadOk bad_frame])]"
  let ?s0 = "\<lparr>sy_pr = tiny0, sy_pending = [] @ ([1], [], [ReadOk bad_frame]) # [], sy_links = [], sy_main = Main_runs\<rparr>"
  have "tiny_system_step ?s0 (Connects [1]) (?s0\<lparr>sy_pending := [] @ [], sy_links := sy_links ?s0 @ [link_new [1] [] [ReadOk bad_frame]]\<rparr>)"
    by (rule system_step.connects) (simp_all add: tiny0_facts)
  then have "tiny_system_step ?s0 (Connects [1]) bad_system" by (simp add: bad_system_def)
  moreover have "reachable (system_init tiny_init ?conns) tiny_system_step ?s0"
    by (rule reachable.start) (use tiny_start in \<open>simp add: system_init_def\<close>)
  ultimately show "reachable (system_init tiny_init ?conns) tiny_system_step bad_system"
    by (rule reachable.next_state [rotated])
  let ?t = "\<lparr>ct_buffer = [], ct_incoming = [ReadOk bad_frame], ct_outbox = [], ct_outbox_open = True, ct_inbox_open = True\<rparr>"
  have t: "ln_task (sy_links bad_system ! 0) = Running ?t" "sy_main bad_system = Main_runs" "0 < length (sy_links bad_system)"
    by (simp_all add: bad_system_def link_new_def run_connection_def)
  have "ct_incoming ?t = ReadOk (be32 1 @ 7 # be32 0 @ be32 0 @ []) # []" by (simp add: bad_frame_def)
  from malformed_frame_ends_client [OF list_bytes.bytes_laws_axioms t(2,3,1) _ this]
  show "\<exists>s'. tiny_system_step bad_system (Task_moves 0 Decoder_panicked) s' \<and> sy_main s' = Main_panicked"
    by fastforce
qed

end
