(* ===== verification/Slice_Merging.thy ===== *)
theory Slice_Merging
  imports Slices
begin

text \<open>
  The slice tracker of \<open>src/peer/io/mod.rs\<close> against a reference that does not work incrementally: sort the blocks by their
  start and fuse neighbours that touch. On blocks that do not overlap the code's list of slices is the
  reference's, in whatever order they arrived.
\<close>

section \<open>Intervals of bytes\<close>

definition points :: "(nat \<times> nat) list \<Rightarrow> nat set" where
  "points xs = (\<Union>(a, b) \<in> set xs. {a..<b})"

definition apart :: "(nat \<times> nat) list \<Rightarrow> bool" where
  "apart xs \<longleftrightarrow> sorted_wrt (\<lambda>x y. snd x < fst y) xs \<and> (\<forall>(a, b) \<in> set xs. a < b)"

lemma points_simps [simp]: "points [] = {}" "points ((a, b) # xs) = {a..<b} \<union> points xs"
  by (auto simp: points_def)

lemma apart_simps [simp]: "apart []" "apart ((a, b) # xs) \<longleftrightarrow> a < b \<and> (\<forall>y \<in> set xs. b < fst y) \<and> apart xs"
  by (auto simp: apart_def)

lemma points_above: "\<forall>y \<in> set xs. b < fst y \<Longrightarrow> \<forall>p \<in> points xs. b < p"
  by (fastforce simp: points_def)

text \<open>A set of bytes is the union of one such list only: that of its maximal runs.\<close>

lemma apart_first:
  assumes "apart ((a, b) # xs)" "apart ((c, d) # ys)" "points ((a, b) # xs) = points ((c, d) # ys)"
  shows "a \<le> c" "b \<le> d"
proof -
  have x: "a < b" "\<forall>p \<in> points xs. b < p" using assms(1) points_above [of xs b] by auto
  have y: "c < d" "\<forall>p \<in> points ys. d < p" using assms(2) points_above [of ys d] by auto
  have "c \<in> {a..<b} \<union> points xs" "a \<in> {c..<d} \<union> points ys" using assms(3) x(1) y(1) by auto
  then show "a \<le> c" using x by fastforce
  show "b \<le> d"
  proof (rule ccontr)
    assume "\<not> b \<le> d"
    moreover have "c \<le> a \<Longrightarrow> d \<notin> {c..<d} \<union> points ys" using y(2) by auto
    moreover have "d \<in> {a..<b} \<union> points xs \<or> d < a" using calculation(1) by auto
    ultimately show False
      using assms(3) y \<open>a \<le> c\<close> by auto
  qed
qed

lemma apart_unique: "apart xs \<Longrightarrow> apart ys \<Longrightarrow> points xs = points ys \<Longrightarrow> xs = ys"
proof (induction xs arbitrary: ys)
  case Nil
  then show ?case by (cases ys) auto
next
  case (Cons x xs)
  obtain a b where x: "x = (a, b)" by fastforce
  then have "a \<in> points ys" using Cons.prems by auto
  then obtain c d zs where ys: "ys = (c, d) # zs" by (cases ys) auto
  have eq: "a = c" "b = d"
    using apart_first [of a b xs c d zs] apart_first [of c d zs a b xs] Cons.prems by (simp_all add: x ys)
  have "points xs \<inter> {a..<b} = {}" "points zs \<inter> {a..<b} = {}"
    using points_above [of xs b] points_above [of zs b] Cons.prems eq by (fastforce simp: x ys)+
  then have "points xs = points zs" using Cons.prems(3) eq by (auto simp: x ys)
  then show ?case using Cons.IH [of zs] Cons.prems eq by (simp add: x ys)
qed

section \<open>The reference\<close>

fun fuse :: "(nat \<times> nat) list \<Rightarrow> (nat \<times> nat) list" where
  "fuse ((a, b) # (c, d) # xs) = (if c \<le> b then fuse ((a, max b d) # xs) else (a, b) # fuse ((c, d) # xs))"
| "fuse xs = xs"

definition merged :: "(u32 \<times> u32) list \<Rightarrow> (nat \<times> nat) list" where
  "merged blocks = fuse (sort_key fst (map (\<lambda>(b, l). (unat b, unat b + unat l)) blocks))"

lemma fuse_runs:
  "sorted (map fst xs) \<Longrightarrow> \<forall>(a, b) \<in> set xs. a < b \<Longrightarrow>
     apart (fuse xs) \<and> points (fuse xs) = points xs \<and> (\<forall>y \<in> set (fuse xs). fst (hd xs) \<le> fst y)"
proof (induction xs rule: fuse.induct)
  case (1 a b c d xs)
  show ?case
  proof (cases "c \<le> b")
    case True
    then have "{a..<max b d} = {a..<b} \<union> {c..<d}" using "1.prems" by (auto simp: max_def)
    then show ?thesis using True "1.IH"(1) "1.prems" by (auto simp: max_def)
  next
    case False
    then show ?thesis using "1.IH"(2) "1.prems" by fastforce
  qed
qed auto

section \<open>Properties\<close>

text \<open>
  C39. The slices the tracker records for blocks that do not overlap, in any order, are the maximal runs of
  the bytes they cover: the same list as sorting the blocks and fusing those that touch; and the tracker reports the piece
  complete exactly when that list is the one run of the whole piece.
\<close>

theorem slices_equal_merge:
  assumes "0 < n" "n < 2 ^ 32" and "disjoint_blocks blocks" and "\<forall>(b, l) \<in> set blocks. 0 < l \<and> unat b + unat l \<le> n"
  shows "\<exists>s. slices_run (slices_new n) blocks = Some (merged blocks = [(0, n)], s) \<and>
    map (\<lambda>(a, b). (unat a, unat b)) (sl_slices s) = merged blocks"
proof -
  have "\<forall>(b, l) \<in> set blocks. 0 < l \<and> unat b + unat l < 2 ^ 32" using assms(2,4) by fastforce
  then obtain s where s: "slices_run (slices_new n) blocks = Some (is_complete s, s)" "separated (sl_slices s)"
    "recorded s = \<Union> (block_range ` set blocks)" "sl_expected_size s = n"
    using slices_run_exact [of "slices_new n" blocks] assms(3) by (auto simp: slices_new_def recorded_def)
  let ?xs = "map (\<lambda>(a, b). (unat a, unat b)) (sl_slices s)"
    and ?ys = "sort_key fst (map (\<lambda>(b, l). (unat b, unat b + unat l)) blocks)"
  have "apart ?xs"
    using s(2) by (fastforce simp: apart_def separated_def sorted_wrt_map word_less_nat_alt split_def)
  moreover have "points ?xs = recorded s"
    by (auto simp: points_def recorded_def covered_def unat_ivl image_UN split_def)
  moreover have ys: "apart (merged blocks)" "points (merged blocks) = points ?ys"
  proof -
    have "\<forall>(a, b) \<in> set ?ys. a < b" using assms(4) by (fastforce simp: word_less_nat_alt)
    then show "apart (merged blocks)" "points (merged blocks) = points ?ys"
      using fuse_runs [of ?ys] by (simp_all add: merged_def)
  qed
  moreover have "points ?ys = \<Union> (block_range ` set blocks)" by (auto simp: points_def)
  ultimately have eq: "?xs = merged blocks" using apart_unique s(3) by simp
  have "is_complete s \<longleftrightarrow> points (merged blocks) = points [(0, n)]"
    using is_complete_iff [OF s(2)] assms(1,2) s(3,4) ys(2) \<open>points ?ys = _\<close> by (auto simp: lessThan_atLeast0)
  also have "\<dots> \<longleftrightarrow> merged blocks = [(0, n)]"
    using apart_unique [OF ys(1), of "[(0, n)]"] assms(1) by auto
  finally show ?thesis using s(1) eq by auto
qed

lemma slices_equal_merge_witness:
  "\<exists>s. slices_run (slices_new 9) [(6, 1), (3, 2), (0, 3)] = Some (False, s) \<and>
     map (\<lambda>(a, b). (unat a, unat b)) (sl_slices s) = [(0, 5), (6, 7)]"
proof -
  have "disjoint_blocks [(6, 1), (3, 2), (0, 3)]" by (simp add: disjoint_blocks_def)
  moreover have "merged [(6, 1), (3, 2), (0, 3)] = [(0, 5), (6, 7)]" by (simp add: merged_def)
  ultimately show ?thesis using slices_equal_merge [of 9 "[(6, 1), (3, 2), (0, 3)]"] by simp
qed

end
