(* ===== verification/Poisoning.thy ===== *)
theory Poisoning
  imports Outgoing_Messages
begin

text \<open>
  Wrong bytes from one peer, over the whole life of the client: the file store of \<open>src/peer/io/file.rs\<close>
  takes a block from any peer, and keeps a piece complete even when its hash does not fit. The invariant is that
  every piece counted as completed is complete in the store, and that a complete piece is never written again.
\<close>

section \<open>Complete pieces of the store\<close>

definition complete_at :: "u32 \<Rightarrow> 'f boxed_io option \<Rightarrow> bool" where
  "complete_at index task \<longleftrightarrow>
     (case task of
        Some (FileIo io) \<Rightarrow> unat index < length (fio_pieces io) \<and> is_complete (fp_slices (fio_pieces io ! unat index))
      | Some (MemoryIo _) \<Rightarrow> False
      | None \<Rightarrow> True)"

lemma complete_at_simps [simp]:
  "complete_at k None"
  "complete_at k (Some (FileIo io)) \<longleftrightarrow> unat k < length (fio_pieces io) \<and> is_complete (fp_slices (fio_pieces io ! unat k))"
  "\<not> complete_at k (Some (MemoryIo m))"
  by (simp_all add: complete_at_def)

text \<open>A store behind its task: the file store, or nothing any more.\<close>

definition on_file :: "'f boxed_io option \<Rightarrow> bool" where
  "on_file task \<longleftrightarrow> (case task of Some (MemoryIo _) \<Rightarrow> False | _ \<Rightarrow> True)"

lemma on_file_cases:
  assumes "on_file task"
  obtains "task = None" | io where "task = Some (FileIo io)"
  using assms by (auto simp: on_file_def split: option.splits boxed_io.splits)

lemma handler_write_file:
  "io_handler_write (boxed_ops F H) (Some (FileIo io)) i b blk =
     (case file_write_piece F H io i b blk of (r, io') \<Rightarrow> if answer r then (r, Some (FileIo io')) else (Err handler_exits, None))"
  by (simp add: io_handler_write_def io_handler_task_def boxed_ops_def split: prod.split)

lemma handler_read_file:
  "io_handler_read (boxed_ops F H) (Some (FileIo io)) i b n =
     (case file_read_piece F io i b n of (r, io') \<Rightarrow> if answer r then (r, Some (FileIo io')) else (Err handler_exits, None))"
  by (simp add: io_handler_read_def io_handler_task_def boxed_ops_def split: prod.split)

lemma handler_gone: "io_handler_write ops None i b blk = (Err handler_exits, None)" "io_handler_read ops None i b n = (Err handler_exits, None)"
  by (simp_all add: io_handler_write_def io_handler_read_def io_handler_task_def)

context file_laws
begin

lemma write_keeps_complete:
  assumes "file_write_piece F H io i b blk = (r, io')" "complete_at k (Some (FileIo io))"
  shows "complete_at k (Some (FileIo io')) \<and> (i = k \<longrightarrow> r \<noteq> Ok True)"
  using assms(1)
proof (cases rule: file_write_cases)
  case (store len)
  then have "unat i \<noteq> unat k" using assms(2) by auto
  moreover from store(5,1) have "length (fio_pieces io') = length (fio_pieces io) \<and>
      (unat k \<noteq> unat i \<longrightarrow> fio_pieces io' ! unat k = fio_pieces io ! unat k)"
    by (cases rule: file_store_cases) simp_all
  ultimately show ?thesis using assms(2) by auto
qed (use assms(2) in auto)

lemma write_true_complete:
  assumes "file_write_piece F H io i b blk = (Ok True, io')"
  shows "complete_at i (Some (FileIo io'))"
proof -
  obtain c where "file_piece contents io' (unat i) = Some c" "is_complete (fp_slices (fio_pieces io' ! unat i))"
    using file_write_finished [OF assms] by blast
  then show ?thesis by (auto simp: file_piece_def split: if_splits)
qed

lemma mismatch_complete:
  assumes "file_write_piece F H io i b blk = (Err (PieceHashMismatch j c e), io')"
  shows "complete_at i (Some (FileIo io'))"
  using assms
proof (cases rule: file_write_cases)
  case (store len)
  then show ?thesis using file_store_mismatch [OF store(5,1)] by auto
qed blast

lemma task_write_complete:
  assumes "on_file t" "io_handler_write (boxed_ops F H) t i b blk = (r, t')"
  shows "on_file t' \<and> (complete_at k t \<longrightarrow> complete_at k t' \<and> (i = k \<longrightarrow> r \<noteq> Ok True)) \<and> (r = Ok True \<longrightarrow> complete_at i t')"
  using assms(1)
proof (cases rule: on_file_cases)
  case 1
  then show ?thesis using assms(2) by (auto simp: handler_gone on_file_def)
next
  case (2 io)
  obtain r0 io' where w: "file_write_piece F H io i b blk = (r0, io')" by fastforce
  show ?thesis
    using assms(2) write_keeps_complete [OF w, of k] write_true_complete w
    by (auto simp: 2 handler_write_file on_file_def handler_exits_def simp del: complete_at_simps(2) split: if_splits)
qed

lemma task_read_complete:
  assumes "on_file t"
  shows "on_file (snd (io_handler_read (boxed_ops F H) t i b n)) \<and>
    (complete_at k t \<longrightarrow> complete_at k (snd (io_handler_read (boxed_ops F H) t i b n)))"
  using assms
proof (cases rule: on_file_cases)
  case 1
  then show ?thesis by (simp add: handler_gone on_file_def)
next
  case (2 io)
  obtain r0 io' where rd: "file_read_piece F io i b n = (r0, io')" by fastforce
  then have "fio_pieces io' = fio_pieces io" by (cases rule: file_read_cases) auto
  then show ?thesis by (simp add: 2 handler_read_file rd on_file_def)
qed

end

section \<open>Along the runs of the processor\<close>

definition claims_complete :: "u32 set \<Rightarrow> 'f boxed_io option \<Rightarrow> bool" where
  "claims_complete S task \<longleftrightarrow> on_file task \<and> (\<forall>k \<in> S. complete_at k task)"

text \<open>A piece that is complete in the store and that nobody claims.\<close>

definition barred :: "u32 \<Rightarrow> u32 set \<Rightarrow> 'f boxed_io option \<Rightarrow> bool" where
  "barred k S task \<longleftrightarrow> on_file task \<and> complete_at k task \<and> k \<notin> S"

context file_laws
begin

lemma claims_complete_write:
  assumes "claims_complete S t"
  shows "claims_complete (S \<union> (if fst (io_handler_write (boxed_ops F H) t i b blk) = Ok True then {i} else {}))
    (snd (io_handler_write (boxed_ops F H) t i b blk))"
  using assms task_write_complete [of t H i b blk, OF _ prod.collapse [symmetric]] by (auto simp: claims_complete_def)

lemma claims_complete_read:
  "claims_complete S t \<Longrightarrow> claims_complete S (snd (io_handler_read (boxed_ops F H) t i b n))"
  using task_read_complete by (auto simp: claims_complete_def)

lemma barred_write:
  assumes "barred k S t"
  shows "barred k (S \<union> (if fst (io_handler_write (boxed_ops F H) t i b blk) = Ok True then {i} else {}))
    (snd (io_handler_write (boxed_ops F H) t i b blk))"
  using assms task_write_complete [of t H i b blk _ _ k, OF _ prod.collapse [symmetric]] by (auto simp: barred_def)

lemma barred_read: "barred k S t \<Longrightarrow> barred k S (snd (io_handler_read (boxed_ops F H) t i b n))"
  using task_read_complete by (auto simp: barred_def)

end

lemma complete_mono:
  "claims_complete S t \<Longrightarrow> S' \<subseteq> S \<Longrightarrow> claims_complete S' t" "barred k S t \<Longrightarrow> S' \<subseteq> S \<Longrightarrow> barred k S' t"
  by (auto simp: claims_complete_def barred_def)

lemma started_claims:
  assumes F: "file_laws F contents pos" and A: "bytes_laws A" and iter: "hash_iteration iter" and cfg: "use_file_writer cfg"
    and reach: "reachable (started_as (start_processing F created torrent cfg) torrent)
      (processor_step (boxed_ops F H) A iter) pr"
  shows "processor_inv torrent (max_outstanding_requests cfg) pr \<and> claims_complete (claimed pr) (pr_io pr)"
  using reach
proof (induction rule: reachable.induct)
  case (start pr)
  have "processor_inv torrent (max_outstanding_requests cfg) pr" by (rule processor_new_inv [OF started_init [OF start]])
  moreover have "claims_complete (claimed pr) (pr_io pr)"
    using start cfg by (auto simp: started_as_def start_processing_def res_bind_Ok_iff claims_complete_def claimed_def
        finished_writes_def processor_new_def torrent_state_new_def tracker_new_def on_file_def)
  ultimately show ?case ..
next
  case (next_state pr ev pr')
  then have inv: "processor_inv torrent (max_outstanding_requests cfg) pr" and old: "claims_complete (claimed pr) (pr_io pr)" by simp_all
  have "processor_inv torrent (max_outstanding_requests cfg) pr'"
    by (rule invariant_system.step_inv [OF processor_machine [OF A iter] inv next_state.hyps(2)])
  moreover have "claims_complete (claimed pr') (pr_io pr')"
    by (rule claimed_step [OF A iter inv next_state.hyps(2) file_laws.claims_complete_read [OF F]
          file_laws.claims_complete_write [OF F] complete_mono(1) old])
  ultimately show ?case ..
qed

lemma barred_run:
  assumes F: "file_laws F contents pos" and A: "bytes_laws A" and iter: "hash_iteration iter"
  shows "run (processor_step (boxed_ops F H) A iter) pr ls pr' \<Longrightarrow> processor_inv torrent max_out pr \<Longrightarrow>
    barred k (claimed pr) (pr_io pr) \<Longrightarrow> barred k (claimed pr') (pr_io pr')"
proof (induction rule: run.induct)
  case (run_Cons pr ev pr1 ls pr')
  have "barred k (claimed pr1) (pr_io pr1)"
    by (rule claimed_step [OF A iter run_Cons.prems(1) run_Cons.hyps(1) file_laws.barred_read [OF F]
          file_laws.barred_write [OF F] complete_mono(2) run_Cons.prems(2)])
  moreover have "processor_inv torrent max_out pr1"
    by (rule invariant_system.step_inv [OF processor_machine [OF A iter] run_Cons.prems(1) run_Cons.hyps(1)])
  ultimately show ?case by (rule run_Cons.IH [rotated])
qed

text \<open>The step in which the wrong bytes arrive.\<close>

lemma poisoning_step:
  assumes F: "file_laws F contents pos" and old: "claims_complete (claimed pr) (pr_io pr)"
    and step: "processor_step (boxed_ops F H) A iter pr (PeerSends i (Piece index off block)) pr1"
    and bad: "h_status (pr_handlers pr1 ! i) = Writing index off (Err (PieceHashMismatch j c e))"
  shows "barred index (claimed pr1) (pr_io pr1)"
proof -
  obtain r io1 where w: "io_handler_write (boxed_ops F H) (pr_io pr) index off block = (r, io1)" by fastforce
  have i: "i < length (pr_handlers pr)" and pr1: "pr1 = deliver (boxed_ops F H) i (Piece index off block) pr"
    using step by (auto elim: step_sendsE)
  let ?h = "pr_handlers pr ! i"
  have after: "pr_io pr1 = io1" "pr_handlers pr1 = (pr_handlers pr)[i := ?h\<lparr>h_status := Writing index off r\<rparr>]"
    "ts_tracking (pr_state pr1) = ts_tracking (pr_state pr)"
    using w by (simp_all add: pr1 deliver_def Let_def set_status_def)
  then have r: "r = Err (PieceHashMismatch j c e)" using bad i by simp
  have store: "on_file (pr_io pr)" using old by (simp add: claims_complete_def)
  from store show ?thesis
  proof (cases rule: on_file_cases)
    case 1
    then show ?thesis using w r by (simp add: handler_gone handler_exits_def)
  next
    case (2 io)
    then obtain io' where w': "file_write_piece F H io index off block = (Err (PieceHashMismatch j c e), io')" "io1 = Some (FileIo io')"
      using w r by (auto simp: handler_write_file handler_exits_def split: prod.splits if_splits)
    then have guard: "unat index < length (fio_pieces io)" "\<not> is_complete (fp_slices (fio_pieces io ! unat index))"
      by (auto simp: file_write_piece_def Let_def split: if_splits)
    have "complete_at index io1" using file_laws.mismatch_complete [OF F w'(1)] w'(2) by simp
    moreover have "index \<notin> claimed pr"
      using old guard(2) by (auto simp: claims_complete_def 2)
    then have "index \<notin> claimed pr1"
      using after r finished_writes_update [of "pr_handlers pr" i "Writing index off r" ?h] by (auto simp: claimed_def)
    moreover have "on_file io1" using w'(2) by (simp add: on_file_def)
    ultimately show ?thesis by (simp add: barred_def after(1))
  qed
qed

section \<open>Properties\<close>

text \<open>
  C19. One block of wrong bytes ends the download: if a message of any peer, asked for or not, completes a piece in the
  file store with bytes whose hash does not fit, then the piece is never counted as completed, whatever any peer sends
  and however long the client runs. It stays on the list of pieces to ask for.
\<close>

theorem poisoned_piece_never_completes:
  assumes "file_laws F contents pos" and "bytes_laws A" and "hash_iteration iter" and "use_file_writer cfg"
    and "reachable (started_as (start_processing F created torrent cfg) torrent) (processor_step (boxed_ops F H) A iter) pr"
    and "processor_step (boxed_ops F H) A iter pr (PeerSends i (Piece index off block)) pr1"
    and "h_status (pr_handlers pr1 ! i) = Writing index off (Err (PieceHashMismatch j c e))"
    and "run (processor_step (boxed_ops F H) A iter) pr1 ls pr2"
  shows "index \<notin> pieces_completed (ts_tracking (pr_state pr2)) \<and>
    (unat index < length (ti_pieces (t_info torrent)) \<longrightarrow> index \<in> get_incomplete_pieces (ts_tracking (pr_state pr2)))"
proof -
  note start = started_claims [OF assms(1-5)]
  note machine = processor_machine [OF assms(2,3)]
  have inv: "processor_inv torrent (max_outstanding_requests cfg) pr1"
    by (rule invariant_system.step_inv [OF machine conjunct1 [OF start] assms(6)])
  have never: "index \<notin> pieces_completed (ts_tracking (pr_state pr2))"
    using barred_run [OF assms(1-3,8) inv poisoning_step [OF assms(1) conjunct2 [OF start] assms(6,7)]]
    by (simp add: barred_def claimed_def)
  moreover have "processor_inv torrent (max_outstanding_requests cfg) pr2"
    by (rule invariant_system.run_inv [OF machine assms(8) inv])
  then have "as_u32 ` {..<length (ti_pieces (t_info torrent))} \<subseteq>
      get_incomplete_pieces (ts_tracking (pr_state pr2)) \<union> pieces_completed (ts_tracking (pr_state pr2))"
    by (auto simp: processor_inv_def tracker_good_def tracker_inv_def get_incomplete_pieces_def)
  then have "index \<in> get_incomplete_pieces (ts_tracking (pr_state pr2))" if "unat index < length (ti_pieces (t_info torrent))"
    using never that image_eqI [of index as_u32 "unat index"] by (auto simp: as_u32_def)
  ultimately show ?thesis by blast
qed

text \<open>The three-byte torrent, and a peer that sends other bytes for its piece before it is asked for anything.\<close>

definition poisoned :: "list_file boxed_io processor" where
  "poisoned = deliver (boxed_ops list_file_api toy_digest) 0 (Piece 0 0 [1, 2, 4]) tiny1"

lemma poisoned_piece_never_completes_witness:
  "tiny_step tiny1 (PeerSends 0 (Piece 0 0 [1, 2, 4])) poisoned \<and> 0 \<in> get_incomplete_pieces (ts_tracking (pr_state poisoned))"
proof -
  have step: "tiny_step tiny1 (PeerSends 0 (Piece 0 0 [1, 2, 4])) poisoned"
    unfolding poisoned_def by (rule processor_step.peer_sends) (simp_all add: tiny1_facts)
  let ?w = "io_handler_write (boxed_ops list_file_api toy_digest) (pr_io tiny1) 0 0 [1, 2, 4]"
  have "?w = (Err (PieceHashMismatch 0 [7] [6]), snd ?w)"
    by (simp add: tiny1_facts io_handler_write_def io_handler_task_def boxed_ops_def file_eval)
  then obtain io where io: "?w = (Err (PieceHashMismatch 0 [7] [6]), io)" by metis
  have status: "h_status (pr_handlers poisoned ! 0) = Writing 0 0 (Err (PieceHashMismatch 0 [7] [6]))"
    by (simp add: poisoned_def deliver_def Let_def tiny1_facts(1,2) io set_status_def)
  have reach: "tiny_reachable tiny1" using tiny0_reachable tiny_steps(1) by (rule reachable.next_state)
  have "use_file_writer default_config" by (simp add: default_config_def)
  from poisoned_piece_never_completes [OF list_file.file_laws_axioms list_bytes.bytes_laws_axioms
      sorted_iter.hash_iteration_axioms this reach step status run_Nil] step
  show ?thesis by (simp add: tiny_torrent_def)
qed

end
