(* ===== verification/Reliable_Store.thy ===== *)
theory Reliable_Store
  imports Outgoing_Messages
begin

text \<open>
  The stores when everything goes well: only blocks of the right bytes arrive, none of them twice,
  and the file system does what it is asked to. The locale \<open>reliable_store\<close> says what a store then promises:
  a write succeeds and is remembered, it answers "finished" exactly when the piece is covered, and a
  read inside a piece never takes the I/O task down. The boxed store of \<open>src/peer/mod.rs\<close> keeps it with either of
  \<open>src/peer/io/file.rs\<close> and \<open>src/peer/io/mod.rs\<close>.
\<close>

section \<open>What a store promises\<close>

definition block_of :: "bytes \<Rightarrow> u32 \<Rightarrow> u32 \<Rightarrow> bytes" where
  "block_of d b n = take (unat n) (drop (unat b) d)"

lemma length_block_of [simp]: "unat b + unat n \<le> length d \<Longrightarrow> length (block_of d b n) = unat n"
  by (simp add: block_of_def)

text \<open>
  \<open>got\<close> are the bytes of a piece that have arrived, \<open>good\<close> says that they are those of \<open>data\<close>, the torrent's
  contents piece by piece.
\<close>

locale reliable_store =
  fixes ops :: "'io torrent_io_ops"
    and good :: "'io \<Rightarrow> bool"
    and got :: "'io \<Rightarrow> nat \<Rightarrow> nat set"
    and data :: "bytes list"
  assumes write_block: "good io \<Longrightarrow> unat k < length data \<Longrightarrow> 0 < unat n \<Longrightarrow>
      unat b + unat n \<le> length (data ! unat k) \<Longrightarrow> got io (unat k) \<inter> block_range (b, n) = {} \<Longrightarrow>
      \<exists>io'. write_piece ops io k b (block_of (data ! unat k) b n) =
          (Ok (got io' (unat k) = {..<length (data ! unat k)}), io') \<and>
        good io' \<and> got io' = (got io)(unat k := got io (unat k) \<union> block_range (b, n))"
    and read_block: "good io \<Longrightarrow> unat k < length data \<Longrightarrow> unat b + unat n \<le> length (data ! unat k) \<Longrightarrow>
      \<exists>r io'. read_piece ops io k b n = (r, io') \<and> answer r \<and> good io' \<and> got io' = got io"
begin

lemma handler_write_block:
  assumes "good io" "unat k < length data" "0 < unat n" "unat b + unat n \<le> length (data ! unat k)"
    "got io (unat k) \<inter> block_range (b, n) = {}"
  obtains io' where "io_handler_write ops (Some io) k b (block_of (data ! unat k) b n) =
      (Ok (got io' (unat k) = {..<length (data ! unat k)}), Some io')"
    "good io'" "got io' = (got io)(unat k := got io (unat k) \<union> block_range (b, n))"
proof -
  obtain io' where io': "write_piece ops io k b (block_of (data ! unat k) b n) =
      (Ok (got io' (unat k) = {..<length (data ! unat k)}), io')" "good io'"
    "got io' = (got io)(unat k := got io (unat k) \<union> block_range (b, n))"
    using write_block [OF assms] by blast
  show ?thesis
    by (rule that [OF _ io'(2,3)]) (simp add: io_handler_write_def io_handler_task_def io'(1))
qed

lemma handler_read_block:
  assumes "good io" "unat k < length data" "unat b + unat n \<le> length (data ! unat k)"
  shows "\<exists>io'. snd (io_handler_read ops (Some io) k b n) = Some io' \<and> good io' \<and> got io' = got io"
  using read_block [OF assms] by (auto simp: io_handler_read_def io_handler_task_def)

end

section \<open>A buffer with the record of what it holds\<close>

text \<open>The buffer \<open>c\<close> has the bytes of \<open>d\<close> wherever the record \<open>s\<close> says that something arrived.\<close>

definition holding :: "bytes \<Rightarrow> bytes \<Rightarrow> slices \<Rightarrow> bool" where
  "holding d c s \<longleftrightarrow>
     length c = length d \<and> 0 < length d \<and> length d < 2 ^ 32 \<and> sl_expected_size s = length d \<and>
     separated (sl_slices s) \<and> recorded s \<subseteq> {..<length d} \<and> (\<forall>j \<in> recorded s. c ! j = d ! j)"

lemma holding_new: "0 < length d \<Longrightarrow> length d < 2 ^ 32 \<Longrightarrow> length c = length d \<Longrightarrow> holding d c (slices_new (length d))"
  by (simp add: holding_def) (simp add: slices_new_def)

lemma holding_complete: "holding d c s \<Longrightarrow> is_complete s \<longleftrightarrow> recorded s = {..<length d}"
  using is_complete_iff [of s] by (auto simp: holding_def)

lemma holding_full: "holding d c s \<Longrightarrow> recorded s = {..<length d} \<Longrightarrow> c = d"
  by (auto simp: holding_def intro: nth_equalityI)

lemma holding_insert:
  assumes h: "holding d c s" and n: "0 < unat n" "unat b + unat n \<le> length d"
    and new: "recorded s \<inter> block_range (b, n) = {}"
  obtains s' where "slices_insert s b n = Some (is_complete s', s')"
    "holding d (overwrite c (unat b) (block_of d b n)) s'" "recorded s' = recorded s \<union> block_range (b, n)"
proof -
  have "0 < n" "unat b + unat n < 2 ^ 32" using n h by (auto simp: holding_def word_less_nat_alt)
  then obtain s' where s': "slices_insert s b n = Some (is_complete s', s')" "separated (sl_slices s')"
    "recorded s' = recorded s \<union> block_range (b, n)" "sl_expected_size s' = sl_expected_size s"
    using slices_insert_exact [of s n b] h new by (auto simp: holding_def)
  have "overwrite c (unat b) (block_of d b n) ! j = d ! j" if "j \<in> recorded s'" for j
  proof -
    have j: "j < length c" "j \<in> recorded s \<or> unat b \<le> j \<and> j < unat b + unat n"
      using that s'(3) n(2) h by (auto simp: holding_def)
    then show ?thesis
      using n(2) h nth_overwrite [of "unat b" "block_of d b n" c j] by (auto simp: holding_def block_of_def)
  qed
  then have "holding d (overwrite c (unat b) (block_of d b n)) s'"
    using h s' n(2) by (auto simp: holding_def)
  then show ?thesis using that s' by blast
qed

section \<open>The in-memory store\<close>

definition memory_good :: "bytes list \<Rightarrow> memory_torrent_io \<Rightarrow> bool" where
  "memory_good data io \<longleftrightarrow>
     length io = length data \<and> (\<forall>i < length data. holding (data ! i) (mem_memory (io ! i)) (mem_slices (io ! i)))"

definition memory_got :: "memory_torrent_io \<Rightarrow> nat \<Rightarrow> nat set" where
  "memory_got io i = (if i < length io then recorded (mem_slices (io ! i)) else {})"

interpretation memory_store: reliable_store memory_ops "memory_good data" memory_got data for data
proof
  fix io :: memory_torrent_io and k b n :: u32
  assume good: "memory_good data io" and k: "unat k < length data"
    and n: "0 < unat n" "unat b + unat n \<le> length (data ! unat k)"
    and new: "memory_got io (unat k) \<inter> block_range (b, n) = {}"
  let ?i = "unat k" and ?d = "data ! unat k"
  have h: "holding ?d (mem_memory (io ! ?i)) (mem_slices (io ! ?i))" and len: "length io = length data"
    using good k by (simp_all add: memory_good_def)
  have "recorded (mem_slices (io ! ?i)) \<inter> block_range (b, n) = {}"
    using new k len by (simp add: memory_got_def)
  from holding_insert [OF h n this] obtain s' where s': "slices_insert (mem_slices (io ! ?i)) b n = Some (is_complete s', s')"
    "holding ?d (overwrite (mem_memory (io ! ?i)) (unat b) (block_of ?d b n)) s'"
    "recorded s' = recorded (mem_slices (io ! ?i)) \<union> block_range (b, n)" by blast
  let ?io = "io[?i := \<lparr>mem_memory = overwrite (mem_memory (io ! ?i)) (unat b) (block_of ?d b n), mem_slices = s'\<rparr>]"
  have bounds: "length (mem_memory (io ! ?i)) = length ?d" "length ?d < 2 ^ 32" using h by (auto simp: holding_def)
  have "memory_write_piece io k b (block_of ?d b n) = (Ok (is_complete s'), ?io)"
    unfolding memory_write_Ok_iff using k len n(2) bounds s'(1) by (intro exI [of _ s']) (auto simp: usize_max_def)
  moreover have "memory_got ?io ?i = recorded s'" using k len by (simp add: memory_got_def)
  ultimately have "write_piece memory_ops io k b (block_of ?d b n) = (Ok (memory_got ?io ?i = {..<length ?d}), ?io)"
    using holding_complete [OF s'(2)] by (simp add: memory_ops_def)
  moreover have "memory_good data ?io" using good s'(2) len k by (auto simp: memory_good_def nth_list_update)
  moreover have "memory_got ?io = (memory_got io)(?i := memory_got io ?i \<union> block_range (b, n))"
    using k len s'(3) by (auto simp: fun_eq_iff memory_got_def nth_list_update)
  ultimately show "\<exists>io'. write_piece memory_ops io k b (block_of ?d b n) = (Ok (memory_got io' ?i = {..<length ?d}), io') \<and>
      memory_good data io' \<and> memory_got io' = (memory_got io)(?i := memory_got io ?i \<union> block_range (b, n))"
    by blast
next
  fix io :: memory_torrent_io and k b n :: u32
  assume good: "memory_good data io" and k: "unat k < length data" and n: "unat b + unat n \<le> length (data ! unat k)"
  have h: "holding (data ! unat k) (mem_memory (io ! unat k)) (mem_slices (io ! unat k))" "length io = length data"
    using good k by (simp_all add: memory_good_def)
  then have "length (mem_memory (io ! unat k)) = length (data ! unat k)" "length (data ! unat k) < 2 ^ 32"
    by (auto simp: holding_def)
  then have "fst (memory_read_piece io k b n) \<noteq> Panic"
    using memory_read_panic_iff [of io k b n] n h(2) by auto
  moreover obtain r io' where r: "memory_read_piece io k b n = (r, io')" by fastforce
  ultimately have "answer r" "io' = io" using memory_read_keeps [OF r] by (cases r; simp)+
  then show "\<exists>r io'. read_piece memory_ops io k b n = (r, io') \<and> answer r \<and> memory_good data io' \<and>
      memory_got io' = memory_got io"
    using good r by (simp add: memory_ops_def)
qed

section \<open>The file store\<close>

text \<open>A file system in which nothing fails that may succeed.\<close>

locale reliable_file = file_laws +
  assumes seek_succeeds: "\<exists>f'. f_seek F f n = (Ok (), f')"
    and write_succeeds: "\<exists>f'. f_write_all F f b = (Ok (), f')"
    and read_succeeds: "pos f + n \<le> length (contents f) \<Longrightarrow> \<exists>bs f'. f_read_exact F f n = (Ok bs, f')"

interpretation list_file: reliable_file list_file_api fst snd
  by unfold_locales (auto simp: list_file_api_def split: prod.splits)

definition file_good :: "('f \<Rightarrow> bytes) \<Rightarrow> digest_api \<Rightarrow> bytes list \<Rightarrow> 'f file_torrent_io \<Rightarrow> bool" where
  "file_good contents H data io \<longleftrightarrow>
     file_inv contents io \<and> length (contents (fio_file io)) \<le> usize_max \<and> length (fio_pieces io) = length data \<and>
     (\<forall>i < length data. fp_hash (fio_pieces io ! i) = sha1 H (data ! i) \<and>
        holding (data ! i) (the (file_piece contents io i)) (fp_slices (fio_pieces io ! i)))"

definition file_got :: "'f file_torrent_io \<Rightarrow> nat \<Rightarrow> nat set" where
  "file_got io i = (if i < length (fio_pieces io) then recorded (fp_slices (fio_pieces io ! i)) else {})"

lemma file_good_piece:
  assumes "file_good contents H data io" "i < length data"
  shows "fp_size (fio_pieces io ! i) = length (data ! i)" "piece_len (fio_allocation io) i = Some (length (data ! i))"
    "fp_start_idx (fio_pieces io ! i) + length (data ! i) \<le> length (contents (fio_file io))"
    "length (contents (fio_file io)) \<le> usize_max" "i < length (fio_pieces io)"
    "holding (data ! i) (the (file_piece contents io i)) (fp_slices (fio_pieces io ! i))"
    "file_piece contents io i = Some (the (file_piece contents io i))"
proof -
  let ?p = "fio_pieces io ! i"
  have inv: "piece_inv (fio_allocation io) (length (contents (fio_file io))) i ?p"
    and i: "i < length (fio_pieces io)" and h: "holding (data ! i) (the (file_piece contents io i)) (fp_slices ?p)"
    using assms by (auto simp: file_good_def file_inv_def)
  then have "length (the (file_piece contents io i)) = fp_size ?p" by (auto simp: file_piece_def piece_inv_def min_def)
  then show "fp_size ?p = length (data ! i)" "piece_len (fio_allocation io) i = Some (length (data ! i))"
    "fp_start_idx ?p + length (data ! i) \<le> length (contents (fio_file io))"
    using inv h by (auto simp: piece_inv_def holding_def)
  show "file_piece contents io i = Some (the (file_piece contents io i))" using i by (simp add: file_piece_def)
qed (use assms in \<open>auto simp: file_good_def\<close>)

context reliable_file
begin

lemma put_succeeds:
  assumes "file_good contents H data io" "i < length data" "unat b \<le> length (data ! i)"
  obtains f where "file_put F (fio_pieces io ! i) (fio_file io) b blk = (Ok (), f)"
proof -
  let ?off = "fp_start_idx (fio_pieces io ! i) + unat b"
  note p = file_good_piece [OF assms(1,2)]
  have off: "usize_add (fp_start_idx (fio_pieces io ! i)) (unat b) = Some ?off"
    using p(3,4) assms(3) by (simp add: usize_add_def)
  obtain f1 where f1: "f_seek F (fio_file io) ?off = (Ok (), f1)" using seek_succeeds by blast
  obtain f2 where f2: "f_write_all F f1 blk = (Ok (), f2)" using write_succeeds by blast
  show ?thesis by (rule that [of f2]) (simp add: file_put_def seek_offset_def off f1 f2)
qed

lemma hash_succeeds:
  assumes "fp_start_idx p + fp_size p \<le> length (contents f)"
    and "fp_hash p = sha1 H (take (fp_size p) (drop (fp_start_idx p) (contents f)))"
  obtains f' where "check_hash F H k p f = (Ok True, f')" "contents f' = contents f"
proof -
  obtain f1 where f1: "f_seek F f (fp_start_idx p) = (Ok (), f1)" using seek_succeeds by blast
  have "pos f1 + fp_size p \<le> length (contents f1)" using assms(1) seek_contents [OF f1] seek_Ok [OF f1] by simp
  then obtain bs f2 where f2: "f_read_exact F f1 (fp_size p) = (Ok bs, f2)" using read_succeeds by blast
  have "compute_file_sha1_hash F H p f = (Ok (sha1 H bs), f2)" by (simp add: compute_file_sha1_hash_def f1 f2)
  moreover from compute_hash_Ok [OF this] have "sha1 H bs = fp_hash p" using assms(2) by simp
  ultimately have ok: "check_hash F H k p f = (Ok True, f2)" by (simp add: check_hash_def)
  then show ?thesis using that check_hash_contents [OF ok] by blast
qed

lemma file_write_good:
  assumes good: "file_good contents H data io" and k: "unat k < length data"
    and n: "0 < unat n" "unat b + unat n \<le> length (data ! unat k)"
    and new: "file_got io (unat k) \<inter> block_range (b, n) = {}"
  shows "\<exists>io'. file_write_piece F H io k b (block_of (data ! unat k) b n) =
      (Ok (file_got io' (unat k) = {..<length (data ! unat k)}), io') \<and> file_good contents H data io' \<and>
      file_got io' = (file_got io)(unat k := file_got io (unat k) \<union> block_range (b, n))"
proof -
  let ?i = "unat k" and ?d = "data ! unat k" let ?p = "fio_pieces io ! ?i" and ?blk = "block_of ?d b n"
  note p = file_good_piece [OF good k]
  have "recorded (fp_slices ?p) \<inter> block_range (b, n) = {}" using new p(5) by (simp add: file_got_def)
  from holding_insert [OF p(6) n this] obtain s' where s': "slices_insert (fp_slices ?p) b n = Some (is_complete s', s')"
    "holding ?d (overwrite (the (file_piece contents io ?i)) (unat b) ?blk) s'"
    "recorded s' = recorded (fp_slices ?p) \<union> block_range (b, n)" by blast
  note fin = holding_complete [OF s'(2)]
  obtain f where put: "file_put F ?p (fio_file io) b ?blk = (Ok (), f)"
    using put_succeeds [OF good k, of b ?blk] n by auto
  have "contents f = overwrite (contents (fio_file io)) (fp_start_idx ?p + unat b) ?blk"
    using file_put_effect [OF put] p(3) n(2) by auto
  then have f: "contents f = overwrite (contents (fio_file io)) (fp_start_idx ?p + unat b) ?blk"
    "length (contents f) = length (contents (fio_file io))" using p(3) n(2) by auto
  define P where "P = ?p\<lparr>fp_slices := s'\<rparr>"
  have window: "take (fp_size P) (drop (fp_start_idx P) (contents f)) = overwrite (the (file_piece contents io ?i)) (unat b) ?blk"
    using overwrite_window [of "fp_start_idx ?p" "fp_size ?p" "contents (fio_file io)" "unat b" ?blk] p n(2)
    by (simp add: P_def f(1) file_piece_def)
  obtain f' where f': "contents f' = contents f" "file_store F H io k b ?blk =
      (Ok (is_complete s'), io\<lparr>fio_file := f', fio_pieces := (fio_pieces io)[?i := P]\<rparr>)"
  proof (cases "is_complete s'")
    case True
    have "fp_hash P = sha1 H (take (fp_size P) (drop (fp_start_idx P) (contents f)))"
      using holding_full [OF s'(2)] fin True good k window by (simp add: P_def file_good_def)
    moreover have "fp_start_idx P + fp_size P \<le> length (contents f)" using p(1,3) by (simp add: P_def f(2))
    ultimately obtain f' where "check_hash F H k P f = (Ok True, f')" "contents f' = contents f"
      using hash_succeeds by metis
    then show ?thesis using that [of f'] put s'(1) True n(2) by (simp add: file_store_def Let_def P_def)
  next
    case False
    then show ?thesis using that [of f] put s'(1) n(2) by (simp add: file_store_def Let_def P_def)
  qed
  define io' where "io' = io\<lparr>fio_file := f', fio_pieces := (fio_pieces io)[?i := P]\<rparr>"
  have "\<not> is_complete (fp_slices ?p)"
  proof
    assume "is_complete (fp_slices ?p)"
    then have "unat b \<in> file_got io ?i \<inter> block_range (b, n)"
      using holding_complete [OF p(6)] n p(5) by (auto simp: file_got_def)
    then show False unfolding new by simp
  qed
  then have w: "file_write_piece F H io k b ?blk = (Ok (is_complete s'), io')"
    using p(2,3,4,5) n(2) f'(2) by (auto simp: file_write_piece_def Let_def usize_add_def io'_def)
  have piece: "file_piece contents io' = (file_piece contents io)(?i \<mapsto> overwrite (the (file_piece contents io ?i)) (unat b) ?blk)"
    unfolding io'_def
    by (rule file_piece_overwrite) (use good p n(2) f f'(1) in \<open>auto simp: file_good_def P_def map_update list_update_same_conv\<close>)
  have "file_inv contents io'"
    using file_write_effect [OF _ w] good by (auto simp: file_good_def)
  then have "file_good contents H data io'"
    using good s'(2) piece f f'(1) p(5) by (auto simp: file_good_def io'_def P_def nth_list_update)
  moreover have "file_got io' = (file_got io)(?i := file_got io ?i \<union> block_range (b, n))"
    using p(5) s'(3) by (auto simp: fun_eq_iff file_got_def io'_def P_def nth_list_update)
  moreover have "is_complete s' \<longleftrightarrow> file_got io' ?i = {..<length ?d}"
    using fin p(5) by (simp add: file_got_def io'_def P_def)
  ultimately show ?thesis using w by auto
qed

lemma file_read_good:
  assumes good: "file_good contents H data io" and k: "unat k < length data"
    and n: "unat b + unat n \<le> length (data ! unat k)"
  shows "\<exists>r io'. file_read_piece F io k b n = (r, io') \<and> answer r \<and> file_good contents H data io' \<and> file_got io' = file_got io"
proof -
  let ?p = "fio_pieces io ! unat k"
  note p = file_good_piece [OF good k]
  obtain r io' where rd: "file_read_piece F io k b n = (r, io')" by fastforce
  have "fst (st_bind (seek_offset F ?p (fio_file io) b) (\<lambda>_ f. f_read_exact F f (unat n))) \<noteq> Panic"
  proof -
    let ?off = "fp_start_idx ?p + unat b"
    have off: "usize_add (fp_start_idx ?p) (unat b) = Some ?off" using p(3,4) n by (simp add: usize_add_def)
    obtain f1 where f1: "f_seek F (fio_file io) ?off = (Ok (), f1)" using seek_succeeds by blast
    have "pos f1 + unat n \<le> length (contents f1)"
      using seek_contents [OF f1] seek_Ok [OF f1] p(3) n by simp
    then obtain bs f2 where "f_read_exact F f1 (unat n) = (Ok bs, f2)" using read_succeeds by blast
    then show ?thesis by (simp add: seek_offset_def off f1)
  qed
  then have "answer r"
    using rd p n by (cases r) (auto simp: file_read_piece_def Let_def usize_add_def split: if_splits prod.splits)
  moreover have "fio_pieces io' = fio_pieces io"
    using rd by (cases rule: file_read_cases) auto
  moreover have "file_inv contents io' \<and> file_piece contents io' = file_piece contents io"
    using file_read_effect [OF _ rd] good by (auto simp: file_good_def)
  moreover have "contents (fio_file io') = contents (fio_file io)"
    using rd by (cases rule: file_read_cases) (auto dest: fetch_contents)
  ultimately show ?thesis using good rd by (auto simp: file_good_def file_got_def fun_eq_iff)
qed

end

section \<open>The boxed store\<close>

definition boxed_good :: "('f \<Rightarrow> bytes) \<Rightarrow> digest_api \<Rightarrow> bytes list \<Rightarrow> 'f boxed_io \<Rightarrow> bool" where
  "boxed_good contents H data io = (case io of FileIo f \<Rightarrow> file_good contents H data f | MemoryIo m \<Rightarrow> memory_good data m)"

definition boxed_got :: "'f boxed_io \<Rightarrow> nat \<Rightarrow> nat set" where
  "boxed_got io = (case io of FileIo f \<Rightarrow> file_got f | MemoryIo m \<Rightarrow> memory_got m)"

lemma boxed_good_simps [simp]:
  "boxed_good contents H data (FileIo f) = file_good contents H data f" "boxed_got (FileIo f) = file_got f"
  "boxed_good contents H data (MemoryIo m) = memory_good data m" "boxed_got (MemoryIo m :: 'f boxed_io) = memory_got m"
  by (simp_all add: boxed_good_def boxed_got_def)

context reliable_file
begin

lemma boxed_reliable: "reliable_store (boxed_ops F H) (boxed_good contents H data) boxed_got data"
proof
  fix io :: "'a boxed_io" and k b n :: u32
  assume "boxed_good contents H data io" "unat k < length data" "0 < unat n"
    "unat b + unat n \<le> length (data ! unat k)" "boxed_got io (unat k) \<inter> block_range (b, n) = {}"
  then show "\<exists>io'. write_piece (boxed_ops F H) io k b (block_of (data ! unat k) b n) =
        (Ok (boxed_got io' (unat k) = {..<length (data ! unat k)}), io') \<and>
      boxed_good contents H data io' \<and> boxed_got io' = (boxed_got io)(unat k := boxed_got io (unat k) \<union> block_range (b, n))"
    using file_write_good [of H data _ k n b] memory_store.write_block [of data _ k n b]
    by (cases io) (fastforce simp: boxed_ops_def memory_ops_def)+
next
  fix io :: "'a boxed_io" and k b n :: u32
  assume "boxed_good contents H data io" "unat k < length data" "unat b + unat n \<le> length (data ! unat k)"
  then show "\<exists>r io'. read_piece (boxed_ops F H) io k b n = (r, io') \<and> answer r \<and> boxed_good contents H data io' \<and>
      boxed_got io' = boxed_got io"
    using file_read_good [of H data _ k b n] memory_store.read_block [of data _ k b n]
    by (cases io) (fastforce simp: boxed_ops_def memory_ops_def)+
qed

end

interpretation boxed_store: reliable_store "boxed_ops list_file_api H" "boxed_good fst H data" boxed_got data for H data
  by (rule list_file.boxed_reliable)

lemma boxed_full:
  assumes "boxed_good contents H data io" "i < length data" "boxed_got io i = {..<length (data ! i)}"
  shows "boxed_piece contents io i = Some (data ! i)"
proof (cases io)
  case (FileIo f)
  then have good: "file_good contents H data f" using assms(1) by simp
  note p = file_good_piece [OF good assms(2)]
  have "the (file_piece contents f i) = data ! i"
    using holding_full [OF p(6)] assms(3) p(5) FileIo by (simp add: file_got_def)
  then show ?thesis using FileIo p(7) by simp
next
  case (MemoryIo m)
  then show ?thesis
    using assms holding_full [of "data ! i" "mem_memory (m ! i)" "mem_slices (m ! i)"]
    by (simp add: memory_good_def memory_got_def memory_piece_def)
qed

section \<open>The store at the start\<close>

text \<open>A torrent describes its contents: as many pieces, of the lengths it implies, with its hashes.\<close>

definition describes :: "digest_api \<Rightarrow> v1_torrent \<Rightarrow> bytes list \<Rightarrow> bool" where
  "describes H torrent data \<longleftrightarrow>
     length data = length (ti_pieces (t_info torrent)) \<and>
     (\<forall>i < length data. length (data ! i) = assigned_size torrent (as_u32 i) \<and>
        sha1 H (data ! i) = piece_hash (ti_pieces (t_info torrent) ! i))"

lemma describes_lengths:
  assumes "torrent_ok torrent" "describes H torrent data" "allocate_torrent torrent = Some a" "i < length data"
  shows "length (data ! i) = (if i = total_pieces a - 1 then last_piece_size a else max_piece_size a)"
    "0 < length (data ! i)" "length (data ! i) < 2 ^ 32" "total_pieces a = length data"
proof -
  have n: "length data = length (ti_pieces (t_info torrent))" "length data < 2 ^ 32"
    using assms(1,2) by (auto simp: describes_def torrent_ok_def)
  show total: "total_pieces a = length data"
    using assms(3) n(1) by (auto simp: allocate_torrent_Some_iff Let_def)
  have size: "length (data ! i) = assigned_size torrent (as_u32 i)" using assms(2,4) by (simp add: describes_def)
  have "unat (as_u32 i) = i" using assms(4) n(2) by (intro unat_as_u32_small) simp
  then show "length (data ! i) = (if i = total_pieces a - 1 then last_piece_size a else max_piece_size a)"
    using size total assms(3,4) n(1) by (auto simp: assigned_size_def Let_def)
  show "0 < length (data ! i)" "length (data ! i) < 2 ^ 32" using assigned_size_bounds [OF assms(1)] size by simp_all
qed

text \<open>Every piece as long as the others, which the file store needs.\<close>

definition even_pieces :: "v1_torrent \<Rightarrow> bool" where
  "even_pieces torrent \<longleftrightarrow>
     i64_as_usize (ti_length (t_info torrent)) =
       length (ti_pieces (t_info torrent)) * i64_as_usize (ti_piece_length (t_info torrent))"

lemma even_pieces_allocate:
  assumes "even_pieces torrent" "allocate_torrent torrent = Some a"
  shows "last_piece_size a = max_piece_size a"
  using assms by (cases "length (ti_pieces (t_info torrent))") (auto simp: even_pieces_def allocate_torrent_Some_iff Let_def)

lemma memory_new_good:
  assumes ok: "torrent_ok torrent" "describes H torrent data" and new: "memory_new torrent = Some m"
    and a: "allocate_torrent torrent = Some a"
  shows "memory_good data m" "memory_got m i = {}"
proof -
  note len = describes_lengths [OF ok a]
  have total: "total_pieces a = length data"
    using a ok(2) by (auto simp: allocate_torrent_Some_iff Let_def describes_def)
  have "0 < total_pieces a" using a by (auto simp: allocate_torrent_Some_iff Let_def)
  then have m: "length m = length data" "i < length data \<Longrightarrow> m ! i = memory_from (replicate (length (data ! i)) 0)" for i
    using new a len(1) [of i] total by (auto simp: memory_new_Some_iff nth_append)
  show "memory_good data m" "memory_got m i = {}"
    using m len(2,3) by (auto simp: memory_good_def memory_got_def memory_from_def intro: holding_new)
qed

context reliable_file
begin

lemma file_new_good:
  assumes ok: "torrent_ok torrent" "describes H torrent data" and new: "file_io_new F torrent created = Ok io"
    and even: "last_piece_size (fio_allocation io) = max_piece_size (fio_allocation io)"
  shows "file_good contents H data io" "file_got io i = {}"
proof -
  let ?a = "fio_allocation io"
  note len = describes_lengths [OF ok file_io_new_Ok(1) [OF new]]
  note p = file_io_new_Ok(2) [OF new] file_io_new_nth [OF new]
  have inv: "file_inv contents io" by (rule file_io_new_inv [OF new even])
  obtain f u where "f_set_len F f (i64_as_usize (ti_length (t_info torrent))) = (Ok u, fio_file io)"
    using file_io_new_Ok(4) [OF new] by blast
  then have size: "length (contents (fio_file io)) \<le> usize_max"
    using set_len_Ok i64_as_usize_less [of "ti_length (t_info torrent)"] by (auto simp: usize_max_def)
  have total: "total_pieces ?a = length data" using file_io_new_Ok(1) [OF new] ok(2)
    by (auto simp: allocate_torrent_Some_iff Let_def describes_def)
  have fresh: "fp_slices (fio_pieces io ! i) = slices_new (length (data ! i))" if "i < length data" for i
    using file_io_new_Ok(3) [OF new, of i] p(4) [of i] that total len(1) [OF that] by (auto simp: file_piece_new_def)
  have holds: "holding (data ! i) (the (file_piece contents io i)) (fp_slices (fio_pieces io ! i))" if i: "i < length data" for i
    unfolding fresh [OF i]
  proof (rule holding_new)
    have "fp_start_idx (fio_pieces io ! i) + fp_size (fio_pieces io ! i) \<le> length (contents (fio_file io))"
      "i < length (fio_pieces io)"
      using inv i p(1) total by (auto simp: file_inv_def piece_inv_def)
    then show "length (the (file_piece contents io i)) = length (data ! i)"
      using p(3) [of i] i total len(1) [OF i] by (simp add: file_piece_def)
  qed (use len(2,3) [OF i] in auto)
  show "file_good contents H data io"
    using inv size holds p(1) total ok(2) p(7) by (auto simp: file_good_def describes_def)
  show "file_got io i = {}" using fresh p(1) total by (simp add: file_got_def)
qed

lemma started_good:
  assumes ok: "torrent_ok torrent" "describes H torrent data" and start: "start_processing F created torrent cfg = Ok pr"
    and even: "use_file_writer cfg \<longrightarrow> even_pieces torrent"
  obtains io where "pr = processor_new cfg torrent io" "boxed_good contents H data io" "\<And>i. boxed_got io i = {}"
proof (cases "use_file_writer cfg")
  case True
  then obtain f where f: "file_io_new F torrent created = Ok f" "pr = processor_new cfg torrent (FileIo f)"
    using start by (auto simp: start_processing_def res_bind_Ok_iff)
  have "last_piece_size (fio_allocation f) = max_piece_size (fio_allocation f)"
    using even_pieces_allocate even True file_io_new_Ok(1) [OF f(1)] by blast
  from file_new_good [OF ok f(1) this] show ?thesis by (intro that [OF f(2)]) simp_all
next
  case False
  then obtain m where m: "memory_new torrent = Some m" "pr = processor_new cfg torrent (MemoryIo m)"
    using start by (auto simp: start_processing_def res_bind_Ok_iff)
  obtain a where a: "allocate_torrent torrent = Some a" using torrent_ok_allocate [OF ok(1)] by blast
  show ?thesis
    by (rule that [OF m(2)]) (use memory_new_good [OF ok m(1) a] in simp_all)
qed

end

end
