(* ===== verification/Assignment_Progress.thy ===== *)
theory Assignment_Progress
  imports Tracker_Invariant
begin

text \<open>
  A round of \<open>generate_assignments\<close> leaves nothing undone that it could ask for: capacity is left
  over only when no block on offer is. Together with \<open>Tracker_Invariant\<close>, which says what a round
  asks for is new and within the limit, this determines the requests up to their order.
\<close>

text \<open>Every block of a piece is in flight or done.\<close>

definition piece_requested :: "v1_torrent \<Rightarrow> piece_block_tracker \<Rightarrow> u32 \<Rightarrow> bool" where
  "piece_requested torrent t p \<longleftrightarrow>
     (\<forall>b \<in> set (block_begins (assigned_size torrent p)). (p, as_u32 b) \<in> in_flight (started t) \<union> finished_blocks (started t))"

lemma piece_requested_mono:
  "piece_requested torrent t p \<Longrightarrow> in_flight (started t) \<subseteq> in_flight (started t') \<Longrightarrow>
   finished_blocks (started t) \<subseteq> finished_blocks (started t') \<Longrightarrow> piece_requested torrent t' p"
  by (auto simp: piece_requested_def)

lemma assign_exhausts:
  assumes "torrent_ok torrent" "tracker_inv n t" "peers \<noteq> []" "assign_piece now torrent p peers t = Some (reqs, t')"
  shows "downloading_requests_len t' = pbt_max_outstanding_requests t' \<or> piece_requested torrent t' p"
proof -
  let ?fresh = "fresh_blocks (started t) p (assigned_size torrent p)"
    and ?cap = "pbt_max_outstanding_requests t - downloading_requests_len t"
  have spec: "reqs = assigned torrent p peers t" "in_flight (started t') = req_key ` set reqs \<union> in_flight (started t)"
    "finished_blocks (started t') = finished_blocks (started t)"
    "downloading_requests_len t' = downloading_requests_len t + length reqs"
    "pbt_max_outstanding_requests t' = pbt_max_outstanding_requests t"
    using assign_piece_spec [OF assms(1,2), of now p peers] assms(4) by auto
  have limit: "downloading_requests_len t \<le> pbt_max_outstanding_requests t"
    using assms(2) by (simp add: tracker_inv_def)
  obtain q qs where "peers = q # qs" using assms(3) by (cases peers) auto
  then have reqs: "reqs = map (mk_request q p (assigned_size torrent p)) (take ?cap ?fresh)"
    by (simp add: spec(1) assigned_def)
  show ?thesis
  proof (cases "length ?fresh \<le> ?cap")
    case True
    then have "(p, as_u32 b) \<in> req_key ` set reqs" if "b \<in> set ?fresh" for b
      using that by (force simp: reqs req_key_def mk_request_def)
    then have "piece_requested torrent t' p"
      by (auto simp: piece_requested_def spec(2,3) fresh_blocks_def contains_inprogress_iff)
    then show ?thesis by simp
  next
    case False
    then have "length reqs = ?cap" by (simp add: reqs)
    then show ?thesis using limit by (simp add: spec(4,5))
  qed
qed

lemma round_exhausts:
  assumes ok: "torrent_ok torrent"
  shows "tracker_inv n t \<Longrightarrow> generate_assignments iter now torrent available t = Some (reqs, t') \<Longrightarrow>
    downloading_requests_len t' = pbt_max_outstanding_requests t' \<or>
    (\<forall>(p, peers) \<in> set available. iter peers \<noteq> [] \<longrightarrow> piece_requested torrent t' p)"
proof (induction available arbitrary: t reqs)
  case (Cons x available)
  obtain p peers where x: "x = (p, peers)" by fastforce
  obtain rs1 t1 rs2 where t1: "assign_piece (now p) torrent p (iter peers) t = Some (rs1, t1)"
    and rest: "generate_assignments iter now torrent available t1 = Some (rs2, t')"
    using Cons.prems(2) by (auto simp: x bind_eq_Some_conv)
  have inv1: "tracker_inv n t1" by (rule assign_inv [OF ok Cons.prems(1) t1])
  have grow: "in_flight (started t1) \<subseteq> in_flight (started t')" "finished_blocks (started t1) \<subseteq> finished_blocks (started t')"
    "downloading_requests_len t1 \<le> downloading_requests_len t'" "pbt_max_outstanding_requests t' = pbt_max_outstanding_requests t1"
    "tracker_inv n t'"
    using generate_assignments_spec [OF ok inv1, of iter now available] rest by auto
  have "downloading_requests_len t' = pbt_max_outstanding_requests t' \<or> piece_requested torrent t' p" if "iter peers \<noteq> []"
    using assign_exhausts [OF ok Cons.prems(1) that t1] grow piece_requested_mono [OF _ grow(1,2)]
    by (auto simp: tracker_inv_def)
  then show ?case using Cons.IH [OF inv1 rest] by (auto simp: x)
qed simp

section \<open>Properties\<close>

text \<open>
  C28. No idle capacity: after a round of assignments in any reachable state the limit on
  requests in flight is reached, or every block of every piece that some peer offers is in
  flight or done.
\<close>

theorem no_idle_capacity:
  assumes "hash_iteration iter"
    and "reachable (tracker_init torrent max_out) (tracker_step torrent) t"
    and "\<forall>(p, peers) \<in> set available. finite peers"
    and "generate_assignments iter now torrent available t = Some (reqs, t')"
  shows "downloading_requests_len t' = max_out \<or>
    (\<forall>(p, peers) \<in> set available. peers \<noteq> {} \<longrightarrow>
      (\<forall>b \<in> set (block_begins (assigned_size torrent p)). contains_inprogress (started t') p (as_u32 b) \<noteq> None))"
proof -
  have good: "torrent_ok torrent" "tracker_inv (length (ti_pieces (t_info torrent))) t" "pbt_max_outstanding_requests t = max_out"
    using tracker.reachable_inv [OF assms(2)] by (simp_all add: tracker_good_def)
  have "pbt_max_outstanding_requests t' = max_out"
    using generate_assignments_spec [OF good(1,2), of iter now available] assms(4) good(3) by auto
  moreover have "iter peers \<noteq> []" if "(p, peers) \<in> set available" "peers \<noteq> {}" for p peers
    using hash_iteration.iter_Nil_iff [OF assms(1), of peers] assms(3) that by blast
  ultimately show ?thesis
    using round_exhausts [OF good(1,2) assms(4)] by (fastforce simp: piece_requested_def contains_inprogress_iff)
qed

text \<open>A peer offers the only piece, of three blocks; the limit allows two requests.\<close>

lemma no_idle_capacity_witness:
  "\<exists>t'. generate_assignments sorted_iter (\<lambda>_. 5) block_torrent [(0, {[1]})] block_tracker = Some (block_requests, t') \<and>
     (downloading_requests_len t' = 2 \<or>
      (\<forall>b \<in> set (block_begins (assigned_size block_torrent 0)). contains_inprogress (started t') 0 (as_u32 b) \<noteq> None))"
proof -
  obtain t' where t': "generate_assignments sorted_iter (\<lambda>_. 5) block_torrent [(0, {[1]})] block_tracker = Some (block_requests, t')"
    by (rule block_round)
  show ?thesis
    using no_idle_capacity [OF sorted_iter.hash_iteration_axioms block_tracker_reachable _ t'] t' by auto
qed

end
