(* ===== verification/Honest_Peers.thy ===== *)
theory Honest_Peers
  imports Reliable_Store Assignment_Progress
begin

text \<open>
  A download that nobody disturbs: peers answer the requests they were sent with the torrent's bytes,
  each once, ask only for bytes of the torrent, and stay connected; no request is given up for its
  age. The steps of the processor (\<open>src/peer/state/mod.rs\<close>) under these assumptions are \<open>honest_step\<close>. The
  invariant \<open>on_course\<close> ties the tracker, the store, the handlers and the channels together: what
  the store has of a piece is what the tracker has marked done or a handler is about to.
\<close>

section \<open>The blocks of a torrent\<close>

definition blocks :: "v1_torrent \<Rightarrow> (u32 \<times> u32) set" where
  "blocks torrent =
     {(k, b). unat k < length (ti_pieces (t_info torrent)) \<and> b \<in> as_u32 ` set (block_begins (assigned_size torrent k))}"

definition block_len :: "v1_torrent \<Rightarrow> u32 \<Rightarrow> u32 \<Rightarrow> u32" where
  "block_len torrent k b = as_u32 (min PIECE_BLOCK_SIZE (assigned_size torrent k - unat b))"

definition span :: "v1_torrent \<Rightarrow> u32 \<Rightarrow> u32 \<Rightarrow> nat set" where
  "span torrent k b = block_range (b, block_len torrent k b)"

definition spans :: "v1_torrent \<Rightarrow> (u32 \<times> u32) set \<Rightarrow> u32 \<Rightarrow> nat set" where
  "spans torrent S k = (\<Union>b \<in> {b. (k, b) \<in> S}. span torrent k b)"

lemma finite_blocks [simp]: "finite (S :: (u32 \<times> u32) set)"
  by (rule finite_subset [OF subset_UNIV]) simp

lemma block_bounds_torrent:
  assumes "torrent_ok torrent" "(k, b) \<in> blocks torrent"
  shows "0 < unat (block_len torrent k b)" "unat b + unat (block_len torrent k b) \<le> assigned_size torrent k"
    "unat k < length (ti_pieces (t_info torrent))" "unat b \<in> set (block_begins (assigned_size torrent k))"
proof -
  obtain n where n: "n \<in> set (block_begins (assigned_size torrent k))" "b = as_u32 n"
    using assms(2) by (auto simp: blocks_def)
  note bounds = block_bounds [OF n(1) assigned_size_bounds(2) [OF assms(1)]]
  show "0 < unat (block_len torrent k b)" "unat b + unat (block_len torrent k b) \<le> assigned_size torrent k"
    "unat b \<in> set (block_begins (assigned_size torrent k))"
    using bounds n by (simp_all add: block_len_def)
  show "unat k < length (ti_pieces (t_info torrent))" using assms(2) by (simp add: blocks_def)
qed

lemma span_eq:
  assumes "torrent_ok torrent" "(k, b) \<in> blocks torrent"
  shows "span torrent k b = {unat b..<min (unat b + PIECE_BLOCK_SIZE) (assigned_size torrent k)}"
  using block_range_eq [OF block_bounds_torrent(4) [OF assms] assigned_size_bounds(2) [OF assms(1)]]
  by (simp add: span_def block_len_def)

lemma piece_block_iff:
  assumes "torrent_ok torrent" "unat k < length (ti_pieces (t_info torrent))"
  shows "(b, n) \<in> set (piece_blocks (assigned_size torrent k)) \<longleftrightarrow> (k, b) \<in> blocks torrent \<and> n = block_len torrent k b"
  using assms(2) block_bounds(1) [OF _ assigned_size_bounds(2) [OF assms(1)], of _ k]
  by (auto simp: piece_blocks_def blocks_def block_len_def)

lemma spans_simps:
  "spans torrent (insert (k, b) S) k' = (if k' = k then span torrent k b \<union> spans torrent S k' else spans torrent S k')"
  "spans torrent {} k' = {}"
  by (auto simp: spans_def)

lemma spans_disjoint:
  assumes "torrent_ok torrent" "(k, b) \<in> blocks torrent" "S \<subseteq> blocks torrent" "(k, b) \<notin> S"
  shows "spans torrent S k \<inter> span torrent k b = {}"
proof -
  have "span torrent k c \<inter> span torrent k b = {}" if c: "(k, c) \<in> S" for c
  proof -
    have cb: "(k, c) \<in> blocks torrent" "c \<noteq> b" using c assms by auto
    then have "unat c \<noteq> unat b" by (simp add: word_unat_eq_iff)
    moreover obtain m n where "unat c = 16384 * m" "unat b = 16384 * n"
      using block_bounds_torrent(4) [OF assms(1) cb(1)] block_bounds_torrent(4) [OF assms(1,2)]
      by (auto simp: in_block_begins PIECE_BLOCK_SIZE_def dvd_def)
    ultimately have "unat c + PIECE_BLOCK_SIZE \<le> unat b \<or> unat b + PIECE_BLOCK_SIZE \<le> unat c"
      unfolding PIECE_BLOCK_SIZE_def by (cases "m < n") auto
    then show ?thesis
      unfolding span_eq [OF assms(1,2)] span_eq [OF assms(1) cb(1)] by auto
  qed
  then show ?thesis by (auto simp: spans_def)
qed

lemma spans_full_iff:
  assumes "torrent_ok torrent" "unat k < length (ti_pieces (t_info torrent))" "S \<subseteq> blocks torrent"
  shows "spans torrent S k = {..<assigned_size torrent k} \<longleftrightarrow> (\<forall>b. (k, b) \<in> blocks torrent \<longrightarrow> (k, b) \<in> S)"
proof
  assume full: "spans torrent S k = {..<assigned_size torrent k}"
  show "\<forall>b. (k, b) \<in> blocks torrent \<longrightarrow> (k, b) \<in> S"
  proof (intro allI impI, rule ccontr)
    fix b assume b: "(k, b) \<in> blocks torrent" "(k, b) \<notin> S"
    have "unat b \<in> span torrent k b" "unat b < assigned_size torrent k"
      using block_bounds_torrent [OF assms(1) b(1)] by (auto simp: span_def)
    then show False using spans_disjoint [OF assms(1) b(1) assms(3) b(2)] full by auto
  qed
next
  assume all: "\<forall>b. (k, b) \<in> blocks torrent \<longrightarrow> (k, b) \<in> S"
  have mem: "x \<in> set (piece_blocks (assigned_size torrent k)) \<longleftrightarrow> (k, fst x) \<in> S \<and> snd x = block_len torrent k (fst x)" for x
    using all assms(3) piece_block_iff [OF assms(1,2), of "fst x" "snd x"] by auto
  have "set (piece_blocks (assigned_size torrent k)) = (\<lambda>b. (b, block_len torrent k b)) ` {b. (k, b) \<in> S}"
    unfolding set_eq_iff mem by (auto simp: image_iff)
  then show "spans torrent S k = {..<assigned_size torrent k}"
    using piece_blocks_cover [OF assigned_size_bounds(2) [OF assms(1)], of k]
    by (simp add: spans_def span_def image_image)
qed

section \<open>Honest steps\<close>

definition writing :: "handler list \<Rightarrow> (u32 \<times> u32) set" where
  "writing hs = {(k, b). \<exists>h \<in> set hs. \<exists>r. h_status h = Writing k b r}"

text \<open>Bytes of the torrent.\<close>

definition inside :: "bytes list \<Rightarrow> u32 \<Rightarrow> u32 \<Rightarrow> u32 \<Rightarrow> bool" where
  "inside data k b n \<longleftrightarrow> unat k < length data \<and> unat b + unat n \<le> length (data ! unat k)"

text \<open>
  What the peer of handler \<open>i\<close> may send: a block only as the answer to a request that is on its channel and that the
  client still waits for, with the right bytes; a request only for bytes of the torrent; and
  anything else at any time.
\<close>

fun honest_message :: "bytes list \<Rightarrow> 'io processor \<Rightarrow> nat \<Rightarrow> messages \<Rightarrow> bool" where
  "honest_message data pr i (Piece k b block) =
     (\<exists>n. Request k b n \<in> set (ch_messages (pr_channels pr ! h_conn (pr_handlers pr ! i))) \<and>
        (k, b) \<in> in_flight (started (ts_tracking (pr_state pr))) - writing (pr_handlers pr) \<and>
        unat k < length data \<and> block = block_of (data ! unat k) b n)"
| "honest_message data pr i (Request k b n) = inside data k b n"
| "honest_message data pr i _ = True"

fun honest :: "bytes list \<Rightarrow> 'io processor \<Rightarrow> event \<Rightarrow> bool" where
  "honest data pr (PeerStarts p is_open) = is_open"
| "honest data pr (PeerSends i msg) = honest_message data pr i msg"
| "honest data pr (PeerHangsUp i) = False"
| "honest data pr (ChannelCloses c) = False"
| "honest data pr (TimerTicks now) = (fst (remove_expired now (ts_tracking (pr_state pr))) = [])"
| "honest data pr _ = True"

definition honest_step ::
  "bytes list \<Rightarrow> 'io torrent_io_ops \<Rightarrow> bytes_api \<Rightarrow> (internal_peer_id set \<Rightarrow> internal_peer_id list) \<Rightarrow>
     'io processor \<Rightarrow> event \<Rightarrow> 'io processor \<Rightarrow> bool"
where
  "honest_step data ops A iter pr ev pr' \<longleftrightarrow> processor_step ops A iter pr ev pr' \<and> honest data pr ev"

section \<open>The parts of the invariant\<close>

definition tracker_course :: "v1_torrent \<Rightarrow> piece_block_tracker \<Rightarrow> bool" where
  "tracker_course torrent t \<longleftrightarrow>
     in_flight (started t) \<union> finished_blocks (started t) \<subseteq> blocks torrent \<and>
     (\<forall>k \<in> get_incomplete_pieces t \<union> pieces_completed t. unat k < length (ti_pieces (t_info torrent))) \<and>
     pieces_completed t \<inter> get_incomplete_pieces t = {}"

definition wanted :: "bytes list \<Rightarrow> peer_requested_piece \<Rightarrow> bool" where
  "wanted data r \<longleftrightarrow> inside data (req_index r) (req_begin r) (req_length r)"

fun wanted_wakeup :: "bytes list \<Rightarrow> internal_state_message \<Rightarrow> bool" where
  "wanted_wakeup data (PeerRequestedPiece r) = wanted data r"
| "wanted_wakeup data _ = True"

text \<open>No handler ends, and no two write the same block of a piece that is still missing.\<close>

fun status_course :: "v1_torrent \<Rightarrow> bytes list \<Rightarrow> piece_block_tracker \<Rightarrow> handler_status \<Rightarrow> bool" where
  "status_course torrent data t (Writing k b r) =
     (is_ok r \<and> (k, b) \<in> blocks torrent \<and> (k \<in> pieces_completed t \<or> (k, b) \<in> in_flight (started t)))"
| "status_course torrent data t (Waking m) = wanted_wakeup data m"
| "status_course torrent data t Idle = True"
| "status_course torrent data t Returned = False"

definition handlers_course :: "v1_torrent \<Rightarrow> bytes list \<Rightarrow> piece_block_tracker \<Rightarrow> handler list \<Rightarrow> bool" where
  "handlers_course torrent data t hs \<longleftrightarrow>
     (\<forall>h \<in> set hs. status_course torrent data t (h_status h)) \<and>
     (\<forall>i < length hs. \<forall>j < length hs. \<forall>k b r r'. i \<noteq> j \<longrightarrow> h_status (hs ! i) = Writing k b r \<longrightarrow>
        h_status (hs ! j) = Writing k b r' \<longrightarrow> k \<in> pieces_completed t)"

text \<open>
  The peers and channels of the handlers. Every sender belongs to a handler, every peer that unchoked us
  has one, and every request in flight was sent to one.
\<close>

definition ends :: "handler list \<Rightarrow> (internal_peer_id \<times> nat) set" where
  "ends hs = (\<lambda>h. (h_peer h, h_conn h)) ` set hs"

definition senders_course :: "(internal_peer_id \<times> nat) set \<Rightarrow> channel list \<Rightarrow> peer_to_sender \<Rightarrow> internal_peer_id set \<Rightarrow> bool" where
  "senders_course E chs txs unchoking \<longleftrightarrow>
     (\<forall>(p, c) \<in> E. deliverable chs c \<and> bt_get txs p \<noteq> None) \<and>
     (\<forall>p c. bt_get txs p = Some c \<longrightarrow> (p, c) \<in> E) \<and> unchoking \<subseteq> fst ` E"

fun request_course :: "v1_torrent \<Rightarrow> messages \<Rightarrow> bool" where
  "request_course torrent (Request k b n) = ((k, b) \<in> blocks torrent \<and> n = block_len torrent k b)"
| "request_course torrent _ = True"

definition requests_course ::
  "v1_torrent \<Rightarrow> (internal_peer_id \<times> nat) set \<Rightarrow> channel list \<Rightarrow> (u32 \<times> u32) set \<Rightarrow> bool"
where
  "requests_course torrent E chs fl \<longleftrightarrow>
     (\<forall>c < length chs. \<forall>m \<in> set (ch_messages (chs ! c)). request_course torrent m) \<and>
     (\<forall>(k, b) \<in> fl. \<exists>(p, c) \<in> E. Request k b (block_len torrent k b) \<in> set (ch_messages (chs ! c)))"

text \<open>What the store has of a piece is what is done or being written; a covered piece is completed or about to be.\<close>

definition store_course ::
  "('io \<Rightarrow> nat \<Rightarrow> nat set) \<Rightarrow> v1_torrent \<Rightarrow> piece_block_tracker \<Rightarrow> handler list \<Rightarrow> 'io \<Rightarrow> bool"
where
  "store_course got torrent t hs io \<longleftrightarrow>
     (\<forall>k. unat k < length (ti_pieces (t_info torrent)) \<longrightarrow>
        (if k \<in> pieces_completed t then got io (unat k) = {..<assigned_size torrent k}
         else got io (unat k) = spans torrent (finished_blocks (started t) \<union> writing hs) k \<and>
           (k \<in> finished_writes hs \<longleftrightarrow> got io (unat k) = {..<assigned_size torrent k})))"

definition on_course ::
  "('io \<Rightarrow> bool) \<Rightarrow> ('io \<Rightarrow> nat \<Rightarrow> nat set) \<Rightarrow> bytes list \<Rightarrow> v1_torrent \<Rightarrow> usize \<Rightarrow> 'io processor \<Rightarrow> bool"
where
  "on_course good got data torrent max_out pr \<longleftrightarrow>
     (let t = ts_tracking (pr_state pr); hs = pr_handlers pr in
      processor_inv torrent max_out pr \<and> pr_loop pr = Looping \<and> tracker_course torrent t \<and>
      handlers_course torrent data t hs \<and>
      senders_course (ends hs) (pr_channels pr) (pr_peer_to_tx pr) (ts_peers_not_choking (pr_state pr)) \<and>
      requests_course torrent (ends hs) (pr_channels pr) (in_flight (started t)) \<and>
      (\<forall>r \<in> set (ts_outstanding (pr_state pr)). wanted data r) \<and> (\<forall>m \<in> set (pr_wakeups pr). wanted_wakeup data m) \<and>
      (\<exists>io. pr_io pr = Some io \<and> good io \<and> store_course got torrent t hs io))"

section \<open>The tracker on course\<close>

lemma get_incomplete_iff: "k \<in> get_incomplete_pieces t \<longleftrightarrow> k \<in> ptb_pieces (started t) \<or> k \<in> pieces_not_started t"
  by (simp add: get_incomplete_pieces_def)

lemma tracked_incomplete:
  "(k, b) \<in> in_flight (started t) \<union> finished_blocks (started t) \<Longrightarrow> k \<in> get_incomplete_pieces t"
  using in_flight_pieces finished_pieces by (fastforce simp: get_incomplete_iff)

lemma in_flight_missing:
  "tracker_course torrent t \<Longrightarrow> (k, b) \<in> in_flight (started t) \<Longrightarrow> k \<notin> pieces_completed t"
  using tracked_incomplete [of k b t] by (auto simp: tracker_course_def)

lemma request_finished_course:
  assumes good: "tracker_good torrent max_out t" and course: "tracker_course torrent t"
    and t'_def: "t' = snd (set_request_finished k b t)"
  shows "tracker_course torrent t'" "pieces_completed t' = pieces_completed t"
    "in_flight (started t') = in_flight (started t) - {(k, b)}"
    "finished_blocks (started t') = finished_blocks (started t) \<union> ({(k, b)} \<inter> in_flight (started t))"
proof -
  have maps: "maps_ok (started t)" using good by (simp add: tracker_good_def tracker_inv_def)
  obtain r t1 where r: "set_request_finished k b t = (r, t1)" by fastforce
  note spec = set_request_finished_spec [OF maps r]
  have t': "t' = t1" by (simp add: t'_def r)
  show same: "pieces_completed t' = pieces_completed t" and
    fl: "in_flight (started t') = in_flight (started t) - {(k, b)}" and
    fin: "finished_blocks (started t') = finished_blocks (started t) \<union> ({(k, b)} \<inter> in_flight (started t))"
    using spec by (auto simp: t' split: if_splits)
  have "get_incomplete_pieces t' = get_incomplete_pieces t"
    using spec by (auto simp: t' get_incomplete_pieces_def split: if_splits)
  then show "tracker_course torrent t'" using course by (auto simp: tracker_course_def same fl fin)
qed

lemma piece_finished_course:
  assumes good: "tracker_good torrent max_out t" and course: "tracker_course torrent t"
    and k: "k \<in> pieces_completed t \<or> (k, b) \<in> in_flight (started t)"
    and t'_def: "t' = set_piece_finished k t"
  shows "tracker_course torrent t'" "pieces_completed t' = insert k (pieces_completed t)"
    "in_flight (started t') = in_flight (started t) - {k} \<times> UNIV"
    "finished_blocks (started t') = finished_blocks (started t) - {k} \<times> UNIV"
proof -
  have wf: "nested_wf (downloading (started t))" "nested_wf (blocks_done (started t))"
    and apart: "pieces_not_started t \<inter> ptb_pieces (started t) = {}"
    using good by (auto simp: tracker_good_def tracker_inv_def maps_ok_def)
  show comp: "pieces_completed t' = insert k (pieces_completed t)"
    and fl: "in_flight (started t') = in_flight (started t) - {k} \<times> UNIV"
    and fin: "finished_blocks (started t') = finished_blocks (started t) - {k} \<times> UNIV"
    using wf by (auto simp: t'_def set_piece_finished_def ptb_remove_piece_def in_flight_def finished_blocks_def split: if_splits)
  have inc: "get_incomplete_pieces t' = ptb_pieces (started t) - {k} \<union> pieces_not_started t"
    using wf by (auto simp: t'_def set_piece_finished_def ptb_remove_piece_def ptb_pieces_eq get_incomplete_pieces_def)
  have "k \<notin> pieces_not_started t"
    using k course apart in_flight_pieces [of k b "started t"] by (auto simp: tracker_course_def get_incomplete_iff)
  moreover have "unat k < length (ti_pieces (t_info torrent))"
    using k course tracked_incomplete [of k b t] by (auto simp: tracker_course_def)
  ultimately show "tracker_course torrent t'"
    using course by (auto simp: tracker_course_def comp fl fin inc get_incomplete_iff)
qed

lemma nothing_expired_course:
  assumes good: "tracker_good torrent max_out t" and course: "tracker_course torrent t"
    and exp: "remove_expired now t = ([], t')"
  shows "tracker_course torrent t'" "pieces_completed t' = pieces_completed t"
    "in_flight (started t') = in_flight (started t)" "finished_blocks (started t') = finished_blocks (started t)"
proof -
  have "maps_ok (started t)" using good by (simp add: tracker_good_def tracker_inv_def)
  from remove_expired_spec [OF exp this] obtain pre where
    post: "expire_post now (pbt_request_timeout t) (started t) pre [] (expirations (piece_to_blocks_outstanding t')) (started t')"
    and same: "pieces_not_started t' = pieces_not_started t" "pieces_completed t' = pieces_completed t"
    by blast
  show "in_flight (started t') = in_flight (started t)" "finished_blocks (started t') = finished_blocks (started t)"
    "pieces_completed t' = pieces_completed t"
    using post same by (auto simp: expire_post_def)
  then show "tracker_course torrent t'"
    using course post same by (auto simp: tracker_course_def get_incomplete_iff expire_post_def)
qed

lemma assignments_incomplete:
  assumes ok: "torrent_ok torrent"
  shows "tracker_inv n t \<Longrightarrow> generate_assignments iter now torrent offers t = Some (reqs, t') \<Longrightarrow>
    get_incomplete_pieces t' \<subseteq> get_incomplete_pieces t \<union> fst ` set offers"
proof (induction offers arbitrary: t reqs)
  case (Cons x offers)
  obtain p peers where x: "x = (p, peers)" by fastforce
  obtain rs1 t1 rs2 where t1: "assign_piece (now p) torrent p (iter peers) t = Some (rs1, t1)"
    and rest: "generate_assignments iter now torrent offers t1 = Some (rs2, t')"
    using Cons.prems(2) by (auto simp: x bind_eq_Some_conv)
  have inv1: "tracker_inv n t1" by (rule assign_inv [OF ok Cons.prems(1) t1])
  let ?rs = "assigned torrent p (iter peers) t"
  have len: "downloading_requests_len t \<le> pbt_max_outstanding_requests t" and maps: "maps_ok (started t)"
    using Cons.prems(1) by (simp_all add: tracker_inv_def)
  note keys = assigned_keys [OF ok, where piece_id = p and peers = "iter peers" and t = t]
  have new: "\<forall>r \<in> set ?rs. req_key r \<notin> in_flight (started t) \<and> req_key r \<notin> finished_blocks (started t)"
    using keys(2) by blast
  have "ptb_pieces (started t1) = req_index ` set ?rs \<union> ptb_pieces (started t)"
    "pieces_not_started t1 \<subseteq> pieces_not_started t"
    using t1 insert_all [OF maps keys(1) new, of "now p"] by (auto simp: assign_piece_eq [OF ok len] Let_def split: if_splits)
  moreover have "req_index ` set ?rs \<subseteq> {p}" using keys(2) by blast
  ultimately have "get_incomplete_pieces t1 \<subseteq> get_incomplete_pieces t \<union> {p}"
    by (auto simp: get_incomplete_pieces_def)
  then show ?case using Cons.IH [OF inv1 rest] by (auto simp: x)
qed simp

text \<open>A piece that is not completed is incomplete, and the other way round.\<close>

lemma incomplete_iff:
  assumes "tracker_good torrent max_out t" "tracker_course torrent t"
  shows "k \<in> get_incomplete_pieces t \<longleftrightarrow> unat k < length (ti_pieces (t_info torrent)) \<and> k \<notin> pieces_completed t"
proof
  assume "unat k < length (ti_pieces (t_info torrent)) \<and> k \<notin> pieces_completed t"
  moreover from this have "k \<in> as_u32 ` {..<length (ti_pieces (t_info torrent))}" by (intro image_eqI [of _ _ "unat k"]) simp_all
  ultimately show "k \<in> get_incomplete_pieces t"
    using assms(1) by (auto simp: tracker_good_def tracker_inv_def get_incomplete_iff)
qed (use assms(2) in \<open>auto simp: tracker_course_def\<close>)

section \<open>Handlers and channels\<close>

lemma ends_update [simp]:
  assumes "i < length hs"
  shows "ends (hs[i := (hs ! i)\<lparr>h_status := st\<rparr>]) = ends hs"
proof -
  have "map (\<lambda>h. (h_peer h, h_conn h)) (hs[i := (hs ! i)\<lparr>h_status := st\<rparr>]) = map (\<lambda>h. (h_peer h, h_conn h)) hs"
    using assms by (simp add: map_update list_update_same_conv)
  from arg_cong [OF this, of set] show ?thesis by (simp add: ends_def)
qed

lemma ends_append [simp]: "ends (hs @ [h]) = insert (h_peer h, h_conn h) (ends hs)"
  by (simp add: ends_def)

lemma ends_nth: "i < length hs \<Longrightarrow> (h_peer (hs ! i), h_conn (hs ! i)) \<in> ends hs"
  by (auto simp: ends_def)

fun writes :: "handler_status \<Rightarrow> (u32 \<times> u32) set" where
  "writes (Writing k b r) = {(k, b)}"
| "writes _ = {}"

fun finishes :: "handler_status \<Rightarrow> u32 set" where
  "finishes (Writing k b r) = (if r = Ok True then {k} else {})"
| "finishes _ = {}"

lemma writing_eq: "writing hs = (\<Union>h \<in> set hs. writes (h_status h))"
proof -
  have "x \<in> writes st \<longleftrightarrow> (\<exists>r. st = Writing (fst x) (snd x) r)" for x st by (cases st) auto
  then show ?thesis by (auto simp: writing_def)
qed

lemma finished_writes_eq: "finished_writes hs = (\<Union>h \<in> set hs. finishes (h_status h))"
proof -
  have "k \<in> finishes st \<longleftrightarrow> (\<exists>b. st = Writing k b (Ok True))" for k st by (cases st) auto
  then show ?thesis by (auto simp: finished_writes_def)
qed

lemma union_update:
  assumes "i < length xs" "g (xs ! i) = {}"
  shows "(\<Union>x \<in> set (xs[i := y]). g x) = (\<Union>x \<in> set xs. g x) \<union> g y"
proof -
  have "set xs = set (take i xs @ xs ! i # drop (Suc i) xs)" using id_take_nth_drop [OF assms(1)] by simp
  moreover have "set (xs[i := y]) = set (take i xs @ y # drop (Suc i) xs)" using upd_conv_take_nth_drop [OF assms(1)] by simp
  ultimately show ?thesis using assms(2) by auto
qed

text \<open>A handler begins or ends to write.\<close>

lemma writing_begins:
  assumes "i < length hs" "writes (h_status (hs ! i)) = {}"
  shows "writing (hs[i := (hs ! i)\<lparr>h_status := st\<rparr>]) = writing hs \<union> writes st"
    "finished_writes (hs[i := (hs ! i)\<lparr>h_status := st\<rparr>]) = finished_writes hs \<union> finishes st"
proof -
  have "finishes (h_status (hs ! i)) = {}" using assms(2) by (cases "h_status (hs ! i)") simp_all
  then show "writing (hs[i := (hs ! i)\<lparr>h_status := st\<rparr>]) = writing hs \<union> writes st"
    "finished_writes (hs[i := (hs ! i)\<lparr>h_status := st\<rparr>]) = finished_writes hs \<union> finishes st"
    using union_update [OF assms(1), of "\<lambda>h. writes (h_status h)" "(hs ! i)\<lparr>h_status := st\<rparr>"]
      union_update [OF assms(1), of "\<lambda>h. finishes (h_status h)" "(hs ! i)\<lparr>h_status := st\<rparr>"] assms(2)
    by (simp_all add: writing_eq finished_writes_eq)
qed

lemma writing_ends:
  assumes i: "i < length hs" and st: "writes st = {}"
  shows "writing hs = writing (hs[i := (hs ! i)\<lparr>h_status := st\<rparr>]) \<union> writes (h_status (hs ! i))"
    "finished_writes hs = finished_writes (hs[i := (hs ! i)\<lparr>h_status := st\<rparr>]) \<union> finishes (h_status (hs ! i))"
  using writing_begins [of i "hs[i := (hs ! i)\<lparr>h_status := st\<rparr>]" "h_status (hs ! i)"] assms by simp_all

lemma handlers_course_update:
  assumes "handlers_course torrent data t hs" "i < length hs" "status_course torrent data t' st"
    and others: "\<And>j. j < length hs \<Longrightarrow> j \<noteq> i \<Longrightarrow> status_course torrent data t' (h_status (hs ! j))"
    and mono: "pieces_completed t \<subseteq> pieces_completed t'" and new: "\<forall>(k, b) \<in> writes st. (k, b) \<notin> writing hs"
  shows "handlers_course torrent data t' (hs[i := (hs ! i)\<lparr>h_status := st\<rparr>])"
proof -
  have absent: "h_status (hs ! j) \<noteq> Writing k b r" if "st = Writing k b r'" "j < length hs" for j k b r r'
    using new that nth_mem [OF that(2)] by (auto simp: writing_def)
  then show ?thesis
    using assms(1-3) others mono
    by (auto simp: handlers_course_def all_set_conv_all_nth nth_list_update split: if_splits)
qed

lemma status_course_mono:
  "status_course torrent data t st \<Longrightarrow> pieces_completed t \<subseteq> pieces_completed t' \<Longrightarrow>
   (\<And>k b r. st = Writing k b r \<Longrightarrow> (k, b) \<in> in_flight (started t) \<Longrightarrow> k \<in> pieces_completed t' \<or> (k, b) \<in> in_flight (started t')) \<Longrightarrow>
   status_course torrent data t' st"
  by (cases st) auto

lemma handlers_course_mono:
  assumes "handlers_course torrent data t hs" "pieces_completed t \<subseteq> pieces_completed t'"
    "in_flight (started t) \<subseteq> in_flight (started t')"
  shows "handlers_course torrent data t' hs"
  using assms status_course_mono [of torrent data t _ t'] unfolding handlers_course_def by (meson subsetD)

lemma writing_blocks: "handlers_course torrent data t hs \<Longrightarrow> writing hs \<subseteq> blocks torrent"
  by (auto simp: handlers_course_def writing_def)

text \<open>What is sent keeps the channels on course.\<close>

lemma requests_send_all:
  assumes course: "requests_course torrent E chs fl" and E: "\<forall>(p, c) \<in> E. deliverable chs c"
    and sent: "\<forall>(c, m) \<in> set xs. request_course torrent m"
    and new: "\<forall>(k, b) \<in> fl' - fl. \<exists>(p, c) \<in> E. (c, Request k b (block_len torrent k b)) \<in> set xs"
  shows "requests_course torrent E (send_all xs chs) fl'"
proof -
  have "request_course torrent m" if "c < length chs" "m \<in> set (ch_messages (send_all xs chs ! c))" for c m
    using that course sent by (auto simp: send_all_messages requests_course_def split: if_splits)
  moreover have "\<exists>(p, c) \<in> E. Request k b (block_len torrent k b) \<in> set (ch_messages (send_all xs chs ! c))"
    if kb: "(k, b) \<in> fl'" for k b
  proof -
    let ?m = "Request k b (block_len torrent k b)"
    obtain p c where pc: "(p, c) \<in> E" "?m \<in> set (ch_messages (chs ! c)) \<or> (c, ?m) \<in> set xs"
      using course new kb unfolding requests_course_def by blast
    then have "deliverable chs c" "c < length chs" using E by (auto simp: deliverable_def)
    then have "?m \<in> set (ch_messages (send_all xs chs ! c))"
      using pc(2) by (force simp: send_all_messages)
    then show ?thesis using pc(1) by blast
  qed
  ultimately show ?thesis by (auto simp: requests_course_def)
qed

end
