(* ===== verification/Download_Course.thy ===== *)
theory Download_Course
  imports Honest_Peers
begin

text \<open>
  Every honest step keeps the download on course (\<open>course_step\<close>): one lemma for each branch of the loop and for each thing a
  handler does, with what it changes of the tracker, the store and the channels.
\<close>

section \<open>The branches of the loop on course\<close>

lemma some_in_flight:
  assumes "ptb_downloading_requests_len m \<noteq> 0" "nested_wf (downloading m)"
  shows "in_flight m \<noteq> {}"
proof -
  obtain p bm where bm: "(p, bm) \<in> set (downloading m)" "bm \<noteq> []"
    using assms(1) unfolding ptb_downloading_requests_len_def bt_sum_0_iff by fastforce
  then obtain b d rest where "bm = (b, d) # rest" by (cases bm) auto
  moreover have "bt_get (downloading m) p = Some bm" using bm(1) assms(2) by (simp add: nested_wf_def bt_get_eq_iff)
  ultimately have "(p, b) \<in> in_flight m" by (simp add: in_flight_def visit_req_map_def)
  then show ?thesis by blast
qed

text \<open>The torrent's pieces have the sizes that the requests assume.\<close>

definition sized :: "v1_torrent \<Rightarrow> bytes list \<Rightarrow> bool" where
  "sized torrent data \<longleftrightarrow>
     torrent_ok torrent \<and> length data = length (ti_pieces (t_info torrent)) \<and>
     (\<forall>k. unat k < length data \<longrightarrow> length (data ! unat k) = assigned_size torrent k)"

lemma describes_sized: "torrent_ok torrent \<Longrightarrow> describes H torrent data \<Longrightarrow> sized torrent data"
  by (simp add: sized_def describes_def)

text \<open>The blocks that are done with.\<close>

definition settled :: "v1_torrent \<Rightarrow> piece_block_tracker \<Rightarrow> (u32 \<times> u32) set" where
  "settled torrent t = {(k, b) \<in> blocks torrent. k \<in> pieces_completed t \<or> (k, b) \<in> finished_blocks (started t)}"

text \<open>A message other than a block: nothing but the peer's own entries changes.\<close>

lemma handle_msg_course:
  assumes h: "handle_msg ops p tx msg (s, chs, io) = (status, s', chs', io')" and tx: "deliverable chs tx"
    and msg: "\<And>k b blk. msg \<noteq> Piece k b blk" and req: "\<And>k b n. msg = Request k b n \<Longrightarrow> inside data k b n"
  shows "io' = io \<and> ts_tracking s' = ts_tracking s \<and> ts_outstanding s' = ts_outstanding s \<and>
    ts_peers_not_choking s' \<subseteq> insert p (ts_peers_not_choking s) \<and>
    (\<exists>ys. chs' = send_all ys chs \<and> set ys \<subseteq> {(tx, Flag Interested)}) \<and> status_course torrent data t status \<and> writes status = {}"
proof -
  have spec: "ts_tracking s' = ts_tracking s" "\<exists>ys. chs' = send_all ys chs \<and> set ys \<subseteq> {(tx, Flag Interested)}"
    using handle_msg_spec [OF h] by auto
  have tell: "status = Waking Wakeup" if "tell_interest tx change chs = (status, chs')" for change
  proof (cases change)
    case (Some b)
    moreover obtain chs1 where "send tx (interest_msg b) chs = (True, chs1)" using send_True [OF tx] by blast
    ultimately show ?thesis using that by (simp add: tell_interest_def)
  qed (use that in \<open>simp add: tell_interest_def\<close>)
  have add: "ts_outstanding s' = ts_outstanding s \<and> ts_peers_not_choking s' = ts_peers_not_choking s \<and> io' = io \<and> status = Waking Wakeup"
    if "(case add_pieces_for_peer p xs s of (change, s'') \<Rightarrow>
        case tell_interest tx change chs of (st, chs'') \<Rightarrow> (st, s'', chs'', io)) = (status, s', chs', io')" for xs
  proof -
    obtain change s1 where c: "add_pieces_for_peer p xs s = (change, s1)" by fastforce
    obtain st chs1 where tl: "tell_interest tx change chs = (st, chs1)" by fastforce
    have "st = status" "s1 = s'" "chs1 = chs'" "io' = io" using that by (simp_all add: c tl)
    then show ?thesis using add_pieces_spec(2,5) [OF c] tell [of change] tl by simp
  qed
  have "io' = io \<and> ts_outstanding s' = ts_outstanding s \<and> ts_peers_not_choking s' \<subseteq> insert p (ts_peers_not_choking s) \<and>
    status_course torrent data t status \<and> writes status = {}"
  proof (cases msg)
    case (Flag f)
    then have "status = Waking Wakeup" "io' = io" "s' = set_flag p f s" using h by simp_all
    then show ?thesis by (cases f) (auto simp: set_peer_choked_us_facts set_peers_interested_facts)
  next
    case (Have i)
    then show ?thesis using add [of "[i]"] h by auto
  next
    case (BitField bf)
    then show ?thesis using add [of "pieces_present bf"] h by auto
  next
    case (Request k b n)
    have "inside data k b n" using req [OF Request] .
    then show ?thesis using h Request by (auto simp: Let_def wanted_def split: if_splits)
  qed (use h msg in auto)
  then show ?thesis using spec by blast
qed

lemma store_course_update:
  assumes "store_course got torrent t hs io"
    and "pieces_completed t' = pieces_completed t" "finished_writes hs' = finished_writes hs"
    and "\<And>k. k \<notin> pieces_completed t \<Longrightarrow>
      spans torrent (finished_blocks (started t') \<union> writing hs') k = spans torrent (finished_blocks (started t) \<union> writing hs) k"
  shows "store_course got torrent t' hs' io"
  using assms by (simp add: store_course_def)

lemma course_accept:
  assumes A: "bytes_laws A" and course: "on_course good got data torrent max_out pr"
  shows "on_course good got data torrent max_out (accept_peer A p True pr)"
proof -
  let ?c = "length (pr_channels pr)" and ?E = "ends (pr_handlers pr)"
  let ?fl = "in_flight (started (ts_tracking (pr_state pr)))"
  note parts = course [unfolded on_course_def Let_def]
  have inv: "processor_inv torrent max_out pr" using parts by simp
  obtain bf where eq: "accept_peer A p True pr =
      pr\<lparr>pr_channels := send_all [(?c, BitField bf), (?c, Flag Choke), (?c, Flag NotInterested)]
            (pr_channels pr @ [\<lparr>ch_messages = [], ch_open = True\<rparr>]),
         pr_peer_to_tx := bt_insert p ?c (pr_peer_to_tx pr),
         pr_handlers := pr_handlers pr @ [\<lparr>h_peer = p, h_conn = ?c, h_status = Idle\<rparr>]\<rparr>"
    using accept_peer_eq [OF A inv, of p True] by (auto simp: Let_def simp del: send_all_simps)
  let ?chs = "pr_channels pr @ [\<lparr>ch_messages = [], ch_open = True\<rparr>]"
  have E: "\<forall>(p, c) \<in> ?E. deliverable (pr_channels pr) c" using parts by (auto simp: senders_course_def)
  have "requests_course torrent ?E (pr_channels pr) ?fl" using parts by simp
  then have "requests_course torrent (insert (p, ?c) ?E) ?chs ?fl"
    using E by (fastforce simp: requests_course_def nth_append less_Suc_eq deliverable_def)
  moreover have deliv: "\<forall>(p, c) \<in> insert (p, ?c) ?E. deliverable ?chs c"
    using E by (auto simp: deliverable_def nth_append)
  ultimately have req: "requests_course torrent (insert (p, ?c) ?E)
      (send_all [(?c, BitField bf), (?c, Flag Choke), (?c, Flag NotInterested)] ?chs) ?fl"
    by (rule requests_send_all) auto
  have send: "senders_course (insert (p, ?c) ?E) (send_all [(?c, BitField bf), (?c, Flag Choke), (?c, Flag NotInterested)] ?chs)
      (bt_insert p ?c (pr_peer_to_tx pr)) (ts_peers_not_choking (pr_state pr))"
    using parts deliv by (auto simp: senders_course_def simp del: send_all_simps)
  have "handlers_course torrent data (ts_tracking (pr_state pr)) (pr_handlers pr @ [\<lparr>h_peer = p, h_conn = ?c, h_status = Idle\<rparr>])"
    using parts by (auto simp: handlers_course_def nth_append less_Suc_eq)
  moreover have "processor_inv torrent max_out (accept_peer A p True pr)" by (rule accept_peer_inv [OF A inv])
  moreover obtain io where "pr_io pr = Some io" "good io" "store_course got torrent (ts_tracking (pr_state pr)) (pr_handlers pr) io"
    using parts by blast
  moreover from this(3) have "store_course got torrent (ts_tracking (pr_state pr))
      (pr_handlers pr @ [\<lparr>h_peer = p, h_conn = ?c, h_status = Idle\<rparr>]) io"
    by (rule store_course_update) (simp_all add: finished_writes_append writing_eq)
  ultimately show ?thesis
    using parts req send unfolding eq by (simp add: on_course_def Let_def del: send_all_simps)
qed

context reliable_store
begin

lemma course_quiet_message:
  assumes course: "on_course good got data torrent max_out pr" and i: "i < length (pr_handlers pr)"
    and idle: "h_status (pr_handlers pr ! i) = Idle"
    and msg: "\<And>k b blk. msg \<noteq> Piece k b blk" and honest: "honest_message data pr i msg"
  shows "on_course good got data torrent max_out (deliver ops i msg pr)"
proof -
  let ?h = "pr_handlers pr ! i" and ?t = "ts_tracking (pr_state pr)"
  note parts = course [unfolded on_course_def Let_def]
  have E: "\<forall>(p, c) \<in> ends (pr_handlers pr). deliverable (pr_channels pr) c" using parts by (auto simp: senders_course_def)
  then have tx: "deliverable (pr_channels pr) (h_conn ?h)" using ends_nth [OF i] by auto
  obtain status s chs io where h: "handle_msg ops (h_peer ?h) (h_conn ?h) msg (pr_state pr, pr_channels pr, pr_io pr) =
      (status, s, chs, io)" by (metis prod_cases4)
  have req: "\<And>k b n. msg = Request k b n \<Longrightarrow> inside data k b n" using honest by (cases msg) auto
  note spec = handle_msg_course [OF h tx msg req, of torrent ?t]
  obtain ys where ys: "chs = send_all ys (pr_channels pr)" "set ys \<subseteq> {(h_conn ?h, Flag Interested)}" using spec by blast
  have "processor_inv torrent max_out (deliver ops i msg pr)" by (rule deliver_inv [OF i]) (use parts in simp)
  moreover have "requests_course torrent (ends (pr_handlers pr)) chs (in_flight (started ?t))"
    unfolding ys(1) by (rule requests_send_all [OF _ E]) (use parts ys(2) in auto)
  moreover have "senders_course (ends (pr_handlers pr)) chs (pr_peer_to_tx pr) (ts_peers_not_choking s)"
  proof -
    have "ts_peers_not_choking s \<subseteq> insert (h_peer ?h) (ts_peers_not_choking (pr_state pr))" using spec by blast
    moreover have "h_peer ?h \<in> fst ` ends (pr_handlers pr)" using imageI [OF ends_nth [OF i], of fst] by simp
    moreover have "senders_course (ends (pr_handlers pr)) (pr_channels pr) (pr_peer_to_tx pr) (ts_peers_not_choking (pr_state pr))"
      using parts by simp
    ultimately show ?thesis unfolding senders_course_def ys(1) send_all_facts by blast
  qed
  moreover have "handlers_course torrent data ?t ((pr_handlers pr)[i := ?h\<lparr>h_status := status\<rparr>])"
    by (rule handlers_course_update) (use parts i spec in \<open>auto simp: handlers_course_def\<close>)
  moreover obtain io0 where io0: "pr_io pr = Some io0" "good io0" "store_course got torrent ?t (pr_handlers pr) io0"
    using parts by blast
  moreover have "store_course got torrent ?t ((pr_handlers pr)[i := ?h\<lparr>h_status := status\<rparr>]) io0"
    by (rule store_course_update [OF io0(3) refl]) (use writing_begins [OF i, of status] idle spec in \<open>cases status; simp\<close>)+
  moreover have "io = pr_io pr" "ts_tracking s = ?t" "ts_outstanding s = ts_outstanding (pr_state pr)" using spec by simp_all
  moreover from this(1) have "deliver ops i msg pr =
      pr\<lparr>pr_state := s, pr_channels := chs, pr_handlers := (pr_handlers pr)[i := ?h\<lparr>h_status := status\<rparr>]\<rparr>"
    by (simp add: deliver_def Let_def h set_status_def)
  ultimately show ?thesis
    using parts i by (simp add: on_course_def)
qed

lemma course_block:
  assumes sized: "sized torrent data" and course: "on_course good got data torrent max_out pr"
    and i: "i < length (pr_handlers pr)"
    and idle: "h_status (pr_handlers pr ! i) = Idle" and honest: "honest_message data pr i (Piece k b blk)"
  shows "on_course good got data torrent max_out (deliver ops i (Piece k b blk) pr)"
    "\<exists>f. h_status (pr_handlers (deliver ops i (Piece k b blk) pr) ! i) = Writing k b (Ok f)"
    "pr_state (deliver ops i (Piece k b blk) pr) = pr_state pr"
    "pr_handlers (deliver ops i (Piece k b blk) pr) =
       (pr_handlers pr)[i := (pr_handlers pr ! i)\<lparr>h_status := h_status (pr_handlers (deliver ops i (Piece k b blk) pr) ! i)\<rparr>]"
    "pr_wakeups (deliver ops i (Piece k b blk) pr) = pr_wakeups pr"
proof -
  let ?h = "pr_handlers pr ! i" and ?t = "ts_tracking (pr_state pr)" and ?hs = "pr_handlers pr"
  note parts = course [unfolded on_course_def Let_def]
  obtain n where n: "Request k b n \<in> set (ch_messages (pr_channels pr ! h_conn ?h))"
    "(k, b) \<in> in_flight (started ?t)" "(k, b) \<notin> writing ?hs" "unat k < length data" "blk = block_of (data ! unat k) b n"
    using honest by auto
  have "deliverable (pr_channels pr) (h_conn ?h)" using parts ends_nth [OF i] by (auto simp: senders_course_def)
  then have kb: "(k, b) \<in> blocks torrent" "n = block_len torrent k b"
    using parts n(1) by (fastforce simp: requests_course_def deliverable_def)+
  have ok: "torrent_ok torrent" "length (data ! unat k) = assigned_size torrent k" using sized n(4) by (auto simp: sized_def)
  note bounds = block_bounds_torrent [OF ok(1) kb(1)]
  have missing: "k \<notin> pieces_completed ?t" using in_flight_missing parts n(2) by blast
  obtain io where io: "pr_io pr = Some io" "good io" "store_course got torrent ?t ?hs io" using parts by blast
  let ?S = "finished_blocks (started ?t) \<union> writing ?hs"
  have got: "got io (unat k) = spans torrent ?S k" "k \<in> finished_writes ?hs \<longleftrightarrow> got io (unat k) = {..<assigned_size torrent k}"
    using io(3) missing bounds(3) by (auto simp: store_course_def)
  have "maps_ok (started ?t)" using parts by (simp add: processor_inv_def tracker_good_def tracker_inv_def)
  then have "(k, b) \<notin> ?S" "?S \<subseteq> blocks torrent"
    using n(2,3) parts writing_blocks [of torrent data ?t ?hs] by (auto simp: maps_ok_def tracker_course_def)
  then have free: "got io (unat k) \<inter> span torrent k b = {}" using spans_disjoint [OF ok(1) kb(1)] got(1) by simp
  have nonempty: "unat b \<in> span torrent k b" "unat b < assigned_size torrent k" using bounds by (auto simp: span_def)
  then have "got io (unat k) \<noteq> {..<assigned_size torrent k}" using free by auto
  then have old: "k \<notin> finished_writes ?hs" using got(2) by simp
  have pre: "0 < unat n" "unat b + unat n \<le> length (data ! unat k)" "got io (unat k) \<inter> block_range (b, n) = {}"
    using bounds free kb(2) ok(2) by (simp_all add: span_def)
  obtain io' where w: "io_handler_write ops (Some io) k b blk =
      (Ok (got io' (unat k) = {..<assigned_size torrent k}), Some io')" "good io'"
    "got io' = (got io)(unat k := got io (unat k) \<union> span torrent k b)"
    using handler_write_block [OF io(2) n(4) pre] unfolding n(5) ok(2) span_def kb(2) by blast
  define f where "f = (got io' (unat k) = {..<assigned_size torrent k})"
  define hs' where "hs' = ?hs[i := ?h\<lparr>h_status := Writing k b (Ok f)\<rparr>]"
  have eq: "deliver ops i (Piece k b blk) pr = pr\<lparr>pr_io := Some io', pr_handlers := hs'\<rparr>"
    by (simp add: deliver_def Let_def io(1) w(1) set_status_def hs'_def f_def)
  show "\<exists>f. h_status (pr_handlers (deliver ops i (Piece k b blk) pr) ! i) = Writing k b (Ok f)"
    "pr_state (deliver ops i (Piece k b blk) pr) = pr_state pr"
    "pr_handlers (deliver ops i (Piece k b blk) pr) =
       (pr_handlers pr)[i := ?h\<lparr>h_status := h_status (pr_handlers (deliver ops i (Piece k b blk) pr) ! i)\<rparr>]"
    "pr_wakeups (deliver ops i (Piece k b blk) pr) = pr_wakeups pr"
    using i by (simp_all add: eq hs'_def)
  have new: "writing hs' = insert (k, b) (writing ?hs)" "finished_writes hs' = finished_writes ?hs \<union> (if f then {k} else {})"
    using writing_begins [OF i, of "Writing k b (Ok f)"] idle by (simp_all add: hs'_def)
  have "store_course got torrent ?t hs' io'"
    unfolding store_course_def
  proof (intro allI impI)
    fix j :: u32 assume j: "unat j < length (ti_pieces (t_info torrent))"
    have more: "finished_blocks (started ?t) \<union> writing hs' = insert (k, b) ?S" using new(1) by auto
    show "if j \<in> pieces_completed ?t then got io' (unat j) = {..<assigned_size torrent j}
      else got io' (unat j) = spans torrent (finished_blocks (started ?t) \<union> writing hs') j \<and>
        (j \<in> finished_writes hs' \<longleftrightarrow> got io' (unat j) = {..<assigned_size torrent j})"
    proof (cases "j = k")
      case True
      have "got io' (unat k) = spans torrent (insert (k, b) ?S) k" using got(1) by (auto simp: w(3) spans_simps)
      moreover have "k \<in> finished_writes hs' \<longleftrightarrow> f" using old new(2) by simp
      ultimately show ?thesis using missing True more by (simp add: f_def)
    next
      case False
      then have "got io' (unat j) = got io (unat j)" by (simp add: w(3) word_unat_eq_iff)
      moreover have "j \<in> finished_writes hs' \<longleftrightarrow> j \<in> finished_writes ?hs" using new(2) False by simp
      ultimately show ?thesis using io(3) j False more by (simp add: store_course_def spans_simps)
    qed
  qed
  moreover have "handlers_course torrent data ?t hs'"
    unfolding hs'_def by (rule handlers_course_update) (use parts i n kb in \<open>auto simp: handlers_course_def\<close>)
  moreover have "processor_inv torrent max_out (deliver ops i (Piece k b blk) pr)"
    by (rule deliver_inv [OF i]) (use parts in simp)
  ultimately show "on_course good got data torrent max_out (deliver ops i (Piece k b blk) pr)"
    using parts w(2) i unfolding eq by (simp add: on_course_def hs'_def)
qed

text \<open>A write is answered: the block becomes done, or the piece completed.\<close>

lemma course_answered:
  assumes course: "on_course good got data torrent max_out pr" and i: "i < length (pr_handlers pr)"
    and st: "h_status (pr_handlers pr ! i) = Writing k b r"
  defines "pr' \<equiv> write_answered i k b r pr"
  shows "on_course good got data torrent max_out pr'"
    "insert (k, b) (settled torrent (ts_tracking (pr_state pr))) \<subseteq> settled torrent (ts_tracking (pr_state pr'))"
    "\<exists>m. pr_handlers pr' = (pr_handlers pr)[i := (pr_handlers pr ! i)\<lparr>h_status := Waking m\<rparr>]"
    "pr_wakeups pr' = pr_wakeups pr"
proof -
  let ?h = "pr_handlers pr ! i" and ?t = "ts_tracking (pr_state pr)" and ?hs = "pr_handlers pr"
  note parts = course [unfolded on_course_def Let_def]
  have hc: "handlers_course torrent data ?t ?hs" and tc: "tracker_course torrent ?t"
    and tg: "tracker_good torrent max_out ?t" and inv: "processor_inv torrent max_out pr"
    using parts by (auto simp: processor_inv_def)
  have "status_course torrent data ?t (h_status ?h)" using hc i by (simp add: handlers_course_def)
  then obtain f where r: "r = Ok f" and kb: "(k, b) \<in> blocks torrent" "k \<in> pieces_completed ?t \<or> (k, b) \<in> in_flight (started ?t)"
    by (cases r) (auto simp: st)
  have k: "unat k < length (ti_pieces (t_info torrent))" using kb(1) by (simp add: blocks_def)
  obtain io where io: "pr_io pr = Some io" "good io" "store_course got torrent ?t ?hs io" using parts by blast
  define m where "m = (if f then PieceComplete k else Wakeup)"
  define t' where "t' = (if f then set_piece_finished k ?t else snd (set_request_finished k b ?t))"
  define hs' where "hs' = ?hs[i := ?h\<lparr>h_status := Waking m\<rparr>]"
  have eq: "pr' = pr\<lparr>pr_state := (pr_state pr)\<lparr>ts_tracking := t'\<rparr>, pr_handlers := hs'\<rparr>"
    by (simp add: pr'_def write_answered_def finish_write_def r set_status_def t'_def hs'_def m_def)
  have wr: "writing ?hs = insert (k, b) (writing hs')" "finished_writes ?hs = finished_writes hs' \<union> (if f then {k} else {})"
    using writing_ends [OF i, of "Waking m"] by (simp_all add: hs'_def st r)
  have tr: "tracker_course torrent t' \<and>
      pieces_completed t' = pieces_completed ?t \<union> (if f then {k} else {}) \<and>
      in_flight (started t') = in_flight (started ?t) - (if f then {k} \<times> UNIV else {(k, b)}) \<and>
      finished_blocks (started t') = (if f then finished_blocks (started ?t) - {k} \<times> UNIV
        else finished_blocks (started ?t) \<union> ({(k, b)} \<inter> in_flight (started ?t)))"
    using piece_finished_course [OF tg tc kb(2), of t'] request_finished_course [OF tg tc, of t' k b] by (simp add: t'_def)
  have hs: "handlers_course torrent data t' hs'"
    unfolding hs'_def
  proof (rule handlers_course_update [OF hc i])
    fix j assume j: "j < length ?hs" "j \<noteq> i"
    have "status_course torrent data ?t (h_status (?hs ! j))" using hc j by (simp add: handlers_course_def)
    then show "status_course torrent data t' (h_status (?hs ! j))"
    proof (rule status_course_mono)
      fix k' b' r' assume w: "h_status (?hs ! j) = Writing k' b' r'" "(k', b') \<in> in_flight (started ?t)"
      have "k' \<notin> pieces_completed ?t" using in_flight_missing [OF tc w(2)] .
      then have "(k', b') \<noteq> (k, b)" using hc i j st w(1) unfolding handlers_course_def by blast
      then show "k' \<in> pieces_completed t' \<or> (k', b') \<in> in_flight (started t')" using tr w(2) by auto
    qed (use tr in simp)
  qed (use tr in \<open>simp_all add: m_def\<close>)
  have store: "store_course got torrent t' hs' io"
    unfolding store_course_def
  proof (intro allI impI)
    fix j :: u32 assume j: "unat j < length (ti_pieces (t_info torrent))"
    note old = io(3) [unfolded store_course_def, rule_format, OF j]
    show "if j \<in> pieces_completed t' then got io (unat j) = {..<assigned_size torrent j}
      else got io (unat j) = spans torrent (finished_blocks (started t') \<union> writing hs') j \<and>
        (j \<in> finished_writes hs' \<longleftrightarrow> got io (unat j) = {..<assigned_size torrent j})"
    proof (cases "j \<in> pieces_completed t'")
      case True
      then show ?thesis using old tr wr(2) by (auto split: if_splits)
    next
      case False
      have "c \<in> {b. (j, b) \<in> finished_blocks (started t') \<union> writing hs'} \<longleftrightarrow>
          c \<in> {b. (j, b) \<in> finished_blocks (started ?t) \<union> writing ?hs}" for c
        using False tr wr(1) kb(2) by (auto split: if_splits)
      then have "spans torrent (finished_blocks (started t') \<union> writing hs') j =
          spans torrent (finished_blocks (started ?t) \<union> writing ?hs) j"
        unfolding spans_def by (metis (no_types, lifting) Collect_cong mem_Collect_eq)
      moreover have "j \<in> finished_writes hs' \<longleftrightarrow> j \<in> finished_writes ?hs" using False tr wr(2) by (auto split: if_splits)
      ultimately show ?thesis using False old tr by (auto split: if_splits)
    qed
  qed
  have "requests_course torrent (ends ?hs) (pr_channels pr) (in_flight (started t'))"
    using parts tr by (auto simp: requests_course_def)
  moreover have "processor_inv torrent max_out pr'" unfolding pr'_def by (rule write_answered_inv [OF i inv])
  ultimately show "on_course good got data torrent max_out pr'"
    using parts store hs tr io i unfolding eq by (simp add: on_course_def hs'_def)
  show "\<exists>m. pr_handlers pr' = (pr_handlers pr)[i := ?h\<lparr>h_status := Waking m\<rparr>]" "pr_wakeups pr' = pr_wakeups pr"
    by (auto simp: eq hs'_def)
  show "insert (k, b) (settled torrent ?t) \<subseteq> settled torrent (ts_tracking (pr_state pr'))"
    using tr kb by (auto simp: eq settled_def split: if_splits)
qed

text \<open>A handler hands its message over, and the timer finds nothing to give up.\<close>

lemma course_sent:
  assumes course: "on_course good got data torrent max_out pr" and i: "i < length (pr_handlers pr)"
    and st: "h_status (pr_handlers pr ! i) = Waking m"
  shows "on_course good got data torrent max_out (set_status i Idle (pr\<lparr>pr_wakeups := pr_wakeups pr @ [m]\<rparr>))"
proof -
  let ?h = "pr_handlers pr ! i" and ?t = "ts_tracking (pr_state pr)" and ?hs = "pr_handlers pr"
  note parts = course [unfolded on_course_def Let_def]
  have hc: "handlers_course torrent data ?t ?hs" using parts by simp
  then have "status_course torrent data ?t (Waking m)" using i st by (metis handlers_course_def nth_mem)
  moreover have "handlers_course torrent data ?t (?hs[i := ?h\<lparr>h_status := Idle\<rparr>])"
    by (rule handlers_course_update [OF hc i]) (use hc in \<open>auto simp: handlers_course_def\<close>)
  moreover obtain io where io: "pr_io pr = Some io" "good io" "store_course got torrent ?t ?hs io" using parts by blast
  moreover have "store_course got torrent ?t (?hs[i := ?h\<lparr>h_status := Idle\<rparr>]) io"
    by (rule store_course_update [OF io(3) refl]) (use writing_begins [OF i, of Idle] st in simp_all)
  moreover have "processor_inv torrent max_out (pr\<lparr>pr_wakeups := pr_wakeups pr @ [m]\<rparr>)"
    using parts by (simp add: processor_inv_def)
  then have "processor_inv torrent max_out (set_status i Idle (pr\<lparr>pr_wakeups := pr_wakeups pr @ [m]\<rparr>))"
    using i by simp
  ultimately show ?thesis
    using parts i by (simp add: on_course_def set_status_def)
qed

lemma course_timer:
  assumes iter: "hash_iteration iter" and course: "on_course good got data torrent max_out pr"
    and quiet: "fst (remove_expired now (ts_tracking (pr_state pr))) = []"
  shows "on_course good got data torrent max_out (timer_tick iter now pr)"
    "settled torrent (ts_tracking (pr_state (timer_tick iter now pr))) = settled torrent (ts_tracking (pr_state pr))"
proof -
  let ?t = "ts_tracking (pr_state pr)"
  note parts = course [unfolded on_course_def Let_def]
  have inv: "processor_inv torrent max_out pr" and good: "tracker_good torrent max_out ?t" and tc: "tracker_course torrent ?t"
    using parts by (auto simp: processor_inv_def)
  obtain t' where t': "remove_expired now ?t = ([], t')" using quiet by (cases "remove_expired now ?t") auto
  note same = nothing_expired_course [OF good tc t']
  have eq: "timer_tick iter now pr = pr\<lparr>pr_state := (pr_state pr)\<lparr>ts_tracking := t'\<rparr>\<rparr>"
    by (simp add: timer_tick_eq [OF iter] t' Let_def)
  have "processor_inv torrent max_out (timer_tick iter now pr)" by (rule timer_tick_inv [OF iter inv])
  moreover have "handlers_course torrent data t' (pr_handlers pr)"
    by (rule handlers_course_mono [of torrent data ?t]) (use parts same in simp_all)
  moreover obtain io where io: "pr_io pr = Some io" "good io" "store_course got torrent ?t (pr_handlers pr) io" using parts by blast
  moreover have "store_course got torrent t' (pr_handlers pr) io"
    by (rule store_course_update [OF io(3)]) (simp_all add: same)
  ultimately show "on_course good got data torrent max_out (timer_tick iter now pr)"
    using parts same unfolding eq by (simp add: on_course_def)
  show "settled torrent (ts_tracking (pr_state (timer_tick iter now pr))) = settled torrent ?t"
    by (simp add: eq settled_def same)
qed

text \<open>Serving wanted requests leaves the store as it is.\<close>

lemma serve_wanted:
  "\<forall>r \<in> set deque. wanted data r \<Longrightarrow> good io \<Longrightarrow>
     \<exists>io'. fst (serve_requests ops txs deque (Some io) chs) = Some io' \<and> good io' \<and> got io' = got io"
proof (induction deque arbitrary: io chs)
  case (Cons r deque)
  show ?case
  proof (cases "bt_get txs (req_peer_id r)")
    case None
    then show ?thesis using Cons by simp
  next
    case (Some c)
    have "unat (req_index r) < length data" "unat (req_begin r) + unat (req_length r) \<le> length (data ! unat (req_index r))"
      using Cons.prems(1) by (auto simp: wanted_def inside_def)
    from handler_read_block [OF Cons.prems(2) this] obtain res io1
      where rd: "io_handler_read ops (Some io) (req_index r) (req_begin r) (req_length r) = (res, Some io1)"
        "good io1" "got io1 = got io" by (metis prod.collapse)
    show ?thesis
    proof (cases res)
      case (Ok block)
      then show ?thesis
        using Cons.IH [OF _ rd(2), of "snd (send c (Piece (req_index r) (req_begin r) block) chs)"] Cons.prems(1) Some rd by simp
    qed (use Some rd in simp_all)
  qed
qed simp

lemma wake_store:
  assumes io: "pr_io pr = Some io" "good io" and q: "\<forall>r \<in> set (ts_outstanding (pr_state pr)). wanted data r" "wanted_wakeup data m"
  shows "\<exists>io'. pr_io (process_wakeup ops iter now m pr) = Some io' \<and> good io' \<and> got io' = got io"
    "\<forall>r \<in> set (ts_outstanding (pr_state (process_wakeup ops iter now m pr))). wanted data r"
proof -
  let ?txs = "prune_closed_tx (pr_channels pr) (pr_peer_to_tx pr)"
  obtain s1 chs1 where act: "wakeup_action m ?txs (pr_state pr, pr_channels pr) = (s1, chs1)" by fastforce
  have s1: "\<forall>r \<in> set (ts_outstanding s1). wanted data r"
    using act q by (cases m) (auto simp: wakeup_action_def queue_requests_def split: if_splits)
  have "(\<exists>io'. pr_io (process_wakeup ops iter now m pr) = Some io' \<and> good io' \<and> got io' = got io) \<and>
    (\<forall>r \<in> set (ts_outstanding (pr_state (process_wakeup ops iter now m pr))). wanted data r)"
  proof (cases "compute_requests_for_download iter now (pr_torrent pr) ?txs s1 chs1")
    case None
    then show ?thesis using io q by (simp add: process_wakeup_def act)
  next
    case (Some x)
    obtain s2 chs2 where x: "x = (s2, chs2)" by fastforce
    have out: "ts_outstanding s2 = ts_outstanding s1"
      using Some by (auto simp: x compute_requests_for_download_def case_prod_beta)
    obtain deque q where pop: "pop_requests 4 0 (ts_outstanding s2) = (deque, q)" by fastforce
    then have sub: "set deque \<subseteq> set (ts_outstanding s1)" "set q \<subseteq> set (ts_outstanding s1)"
      using pop_requests_eq [of 0 4 "ts_outstanding s2"] set_take_subset set_drop_subset by (fastforce simp: out)+
    obtain io' chs3 where serve: "serve_requests ops ?txs deque (Some io) chs2 = (io', chs3)" by fastforce
    have eq: "process_wakeup ops iter now m pr =
        pr\<lparr>pr_peer_to_tx := ?txs, pr_state := s2\<lparr>ts_outstanding := q\<rparr>, pr_channels := chs3, pr_io := io'\<rparr>"
      by (simp add: process_wakeup_def act Some x dequeue_requests_def pop serve io(1))
    show ?thesis
      using serve_wanted [of deque io ?txs chs2] io(2) s1 sub serve by (auto simp: eq)
  qed
  then show "\<exists>io'. pr_io (process_wakeup ops iter now m pr) = Some io' \<and> good io' \<and> got io' = got io"
    "\<forall>r \<in> set (ts_outstanding (pr_state (process_wakeup ops iter now m pr))). wanted data r" by auto
qed

text \<open>The loop takes a wake-up: all requests of the new round can be sent.\<close>

lemma assigned_sendable:
  assumes iter: "hash_iteration iter" and inv: "processor_inv torrent max_out pr"
    and senders: "senders_course E (pr_channels pr) (pr_peer_to_tx pr) (ts_peers_not_choking (pr_state pr))"
    and r: "request_ok torrent iter (piece_id_to_peers (pr_state pr)) r"
  shows "sendable (prune_closed_tx (pr_channels pr) (pr_peer_to_tx pr)) (pr_channels pr) r"
    "(req_peer_id r, the (bt_get (prune_closed_tx (pr_channels pr) (pr_peer_to_tx pr)) (req_peer_id r))) \<in> E"
    "req_index r \<in> get_incomplete_pieces (ts_tracking (pr_state pr))"
proof -
  let ?t = "ts_tracking (pr_state pr)" and ?p = "req_peer_id r"
  have "finite (get_incomplete_pieces ?t)" by simp
  note avail = piece_id_to_peers_get [OF this]
  have "\<forall>(x, ps) \<in> set (piece_id_to_peers (pr_state pr)). finite ps"
    using avail by (auto simp: bt_get_eq_iff [symmetric] peers_that_choke_def peer_set_def split: if_splits)
  then obtain ps where ps: "bt_get (piece_id_to_peers (pr_state pr)) (req_index r) = Some ps" "?p \<in> ps"
    using hash_iteration.request_ok_peer [OF iter r avail(2)] by blast
  then show "req_index r \<in> get_incomplete_pieces ?t" using avail(1) by (simp split: if_splits)
  have unchoked: "?p \<in> ts_peers_not_choking (pr_state pr)"
    using ps avail(1) [of "req_index r"] by (auto simp: peers_that_choke_def split: if_splits)
  obtain c where c: "bt_get (pr_peer_to_tx pr) ?p = Some c" "(?p, c) \<in> E" "deliverable (pr_channels pr) c"
  proof -
    obtain c0 where "(?p, c0) \<in> E" using unchoked senders unfolding senders_course_def by force
    then obtain c where "bt_get (pr_peer_to_tx pr) ?p = Some c" using senders unfolding senders_course_def by blast
    moreover from this have "(?p, c) \<in> E" using senders unfolding senders_course_def by blast
    moreover from this have "deliverable (pr_channels pr) c" using senders unfolding senders_course_def by blast
    ultimately show ?thesis using that by blast
  qed
  have "bt_wf (pr_peer_to_tx pr)" using inv by (simp add: processor_inv_def)
  then have tx: "bt_get (prune_closed_tx (pr_channels pr) (pr_peer_to_tx pr)) ?p = Some c"
    using c by (simp add: prune_closed_get(2))
  show "sendable (prune_closed_tx (pr_channels pr) (pr_peer_to_tx pr)) (pr_channels pr) r"
    using tx c(3) by (simp add: sendable_def)
  show "(?p, the (bt_get (prune_closed_tx (pr_channels pr) (pr_peer_to_tx pr)) ?p)) \<in> E"
    using tx c(2) by simp
qed

text \<open>With a peer that has everything and does not choke us, a round leaves something in flight.\<close>

lemma round_requests:
  assumes iter: "hash_iteration iter" and ok: "torrent_ok torrent" and good: "tracker_good torrent max_out (ts_tracking s)"
    and tc: "tracker_course torrent (ts_tracking s)" and si: "state_inv s"
    and gen: "generate_assignments iter now torrent (piece_id_to_peers s) (ts_tracking s) = Some (reqs, t')"
    and limit: "0 < max_out" and p: "p \<in> ts_peers_not_choking s" "k \<in> has_piece (ts_block_peer_map s) p"
    and k: "k \<in> get_incomplete_pieces (ts_tracking s)" "(k, b) \<in> blocks torrent" "(k, b) \<notin> finished_blocks (started (ts_tracking s))"
  shows "in_flight (started t') \<noteq> {}"
proof -
  let ?n = "length (ti_pieces (t_info torrent))"
  have inv: "tracker_inv ?n (ts_tracking s)" using good by (simp add: tracker_good_def)
  from generate_assignments_spec [OF ok inv, of iter now "piece_id_to_peers s"] gen
  have t': "tracker_inv ?n t'" "pbt_max_outstanding_requests t' = max_out"
    "finished_blocks (started t') = finished_blocks (started (ts_tracking s))" using good by (auto simp: tracker_good_def)
  have "finite (get_incomplete_pieces (ts_tracking s))" by simp
  note avail = piece_id_to_peers_get [OF this]
  let ?peers = "peers_that_choke False s \<inter> get_peers_with_piece (ts_block_peer_map s) k"
  have "p \<in> ?peers" using p k(1) si by (auto simp: state_inv_def peers_that_choke_def ppm_inv_def)
  moreover have fin: "finite ?peers" by (simp add: peers_that_choke_def peer_set_def)
  ultimately have "iter ?peers \<noteq> []" using hash_iteration.iter_Nil_iff [OF iter fin] by blast
  moreover have "(k, ?peers) \<in> set (piece_id_to_peers s)"
    using avail k(1) by (simp add: bt_get_eq_iff [symmetric])
  ultimately consider "downloading_requests_len t' = max_out" | "piece_requested torrent t' k"
    using round_exhausts [OF ok inv gen] t'(2) by auto
  then show ?thesis
  proof cases
    case 1
    then have "ptb_downloading_requests_len (started t') \<noteq> 0" using limit by (simp add: downloading_requests_len_def)
    moreover have "nested_wf (downloading (started t'))" using t'(1) by (simp add: tracker_inv_def maps_ok_def)
    ultimately show ?thesis by (rule some_in_flight)
  next
    case 2
    have "unat b \<in> set (block_begins (assigned_size torrent k))" by (rule block_bounds_torrent(4) [OF ok k(2)])
    then have "(k, as_u32 (unat b)) \<in> in_flight (started t') \<union> finished_blocks (started t')"
      using 2 unfolding piece_requested_def by blast
    then show ?thesis using k(3) t'(3) by auto
  qed
qed

lemma course_wake:
  assumes sized: "sized torrent data" and iter: "hash_iteration iter"
    and course: "on_course good got data torrent max_out pr" and wk: "pr_wakeups pr = m # rest"
    and pr'_def: "pr' = process_wakeup ops iter now m (pr\<lparr>pr_wakeups := rest\<rparr>)"
  shows "on_course good got data torrent max_out pr'"
    "settled torrent (ts_tracking (pr_state pr')) = settled torrent (ts_tracking (pr_state pr))"
    "pr_handlers pr' = pr_handlers pr" "pr_wakeups pr' = rest"
    "ts_peers_not_choking (pr_state pr') = ts_peers_not_choking (pr_state pr)"
    "ts_block_peer_map (pr_state pr') = ts_block_peer_map (pr_state pr)"
    "0 < max_out \<Longrightarrow> p \<in> ts_peers_not_choking (pr_state pr) \<Longrightarrow>
      k \<in> has_piece (ts_block_peer_map (pr_state pr)) p \<Longrightarrow>
      k \<in> get_incomplete_pieces (ts_tracking (pr_state pr)) \<Longrightarrow> (k, b) \<in> blocks torrent \<Longrightarrow>
      (k, b) \<notin> finished_blocks (started (ts_tracking (pr_state pr))) \<Longrightarrow>
      in_flight (started (ts_tracking (pr_state pr'))) \<noteq> {}"
proof -
  let ?t = "ts_tracking (pr_state pr)" and ?chs = "pr_channels pr" and ?E = "ends (pr_handlers pr)"
  define pr0 where "pr0 = pr\<lparr>pr_wakeups := rest\<rparr>"
  note parts = course [unfolded on_course_def Let_def]
  have inv: "processor_inv torrent max_out pr0" using parts by (simp add: processor_inv_def pr0_def)
  have senders: "senders_course ?E (pr_channels pr0) (pr_peer_to_tx pr0) (ts_peers_not_choking (pr_state pr0))"
    using parts by (simp add: pr0_def)
  have ok: "torrent_ok torrent" using sized by (simp add: sized_def)
  have tg: "tracker_good torrent max_out ?t" "pr_torrent pr0 = torrent" "state_inv (pr_state pr)"
    using inv by (simp_all add: processor_inv_def pr0_def)
  then have ti: "tracker_inv (length (ti_pieces (t_info torrent))) ?t" by (simp add: tracker_good_def)
  obtain reqs t1 ann served q io' where post: "wake_post iter now m pr0 pr' reqs t1 ann served q io'"
    using process_wakeup_spec [OF inv, of iter now m ops] unfolding pr'_def pr0_def [symmetric] by blast
  let ?txs = "prune_closed_tx (pr_channels pr0) (pr_peer_to_tx pr0)"
  note w = post [unfolded wake_post_def Let_def tg(2)]
  have gen: "generate_assignments iter now torrent (piece_id_to_peers (pr_state pr)) ?t = Some (reqs, t1)"
    using w by (simp add: pr0_def)
  from generate_assignments_spec [OF ok ti, of iter now "piece_id_to_peers (pr_state pr)"] gen
  have g: "in_flight (started t1) = req_key ` set reqs \<union> in_flight (started ?t)"
    "finished_blocks (started t1) = finished_blocks (started ?t)" "pieces_completed t1 = pieces_completed ?t"
    "\<forall>r \<in> set reqs. request_ok torrent iter (piece_id_to_peers (pr_state pr)) r" by auto
  have each: "sendable ?txs (pr_channels pr0) r" "(req_peer_id r, the (bt_get ?txs (req_peer_id r))) \<in> ?E"
    "req_index r \<in> get_incomplete_pieces ?t" if "r \<in> set reqs" for r
    using assigned_sendable [OF iter inv senders, of r] g(4) that by (simp_all add: pr0_def)
  have all: "filter (sendable ?txs (pr_channels pr0)) reqs = reqs" "filter (\<lambda>r. \<not> sendable ?txs (pr_channels pr0) r) reqs = []"
    using each(1) by (simp_all add: filter_id_conv filter_empty_conv)
  let ?out = "ann @ map (request_send ?txs) reqs @ served"
  have eq: "pr' = pr\<lparr>pr_wakeups := rest, pr_peer_to_tx := ?txs, pr_io := io',
      pr_state := (pr_state pr)\<lparr>ts_tracking := t1, ts_outstanding := q\<rparr>, pr_channels := send_all ?out ?chs\<rparr>"
    using w unfolding all by (simp add: pr0_def)
  have keys: "req_key r \<in> blocks torrent" "req_length r = block_len torrent (req_index r) (req_begin r)" if r: "r \<in> set reqs" for r
  proof -
    have k: "unat (req_index r) < length (ti_pieces (t_info torrent))"
      using each(3) [OF r] parts by (auto simp: tracker_course_def)
    have "(req_begin r, req_length r) \<in> set (piece_blocks (assigned_size torrent (req_index r)))"
      using g(4) r by (auto simp: request_ok_def)
    then show "req_key r \<in> blocks torrent" "req_length r = block_len torrent (req_index r) (req_begin r)"
      using piece_block_iff [OF ok k] by (auto simp: req_key_def)
  qed
  have inc: "get_incomplete_pieces t1 \<subseteq> get_incomplete_pieces ?t"
  proof -
    have fin: "finite (get_incomplete_pieces ?t)" by simp
    have "fst ` set (piece_id_to_peers (pr_state pr)) \<subseteq> get_incomplete_pieces ?t"
      using piece_id_to_peers_get [OF fin] by (auto simp: bt_get_eq_iff [symmetric] split: if_splits)
    then show ?thesis using assignments_incomplete [OF ok ti gen] by blast
  qed
  have tc: "tracker_course torrent t1"
    using parts inc keys(1) by (auto simp: tracker_course_def g)
  have quiet: "\<forall>x \<in> set ann \<union> set served. request_course torrent (snd x)" using w by fastforce
  have out: "request_course torrent (snd (request_send ?txs r))" if "r \<in> set reqs" for r
    using keys [OF that] by (simp add: request_send_def request_message_def req_key_def)
  have "requests_course torrent ?E (send_all ?out ?chs) (in_flight (started t1))"
  proof (rule requests_send_all)
    show "\<forall>(c, m) \<in> set ?out. request_course torrent m" using quiet out by (auto simp: case_prod_beta)
    show "\<forall>(k, b) \<in> in_flight (started t1) - in_flight (started ?t).
        \<exists>(p, c) \<in> ?E. (c, Request k b (block_len torrent k b)) \<in> set ?out"
    proof (intro ballI, clarify)
      fix k b assume "(k, b) \<in> in_flight (started t1)" "(k, b) \<notin> in_flight (started ?t)"
      then obtain r where r: "r \<in> set reqs" "req_index r = k" "req_begin r = b" using g(1) by (auto simp: req_key_def)
      then have "request_send ?txs r = (the (bt_get ?txs (req_peer_id r)), Request k b (block_len torrent k b))"
        using keys(2) by (simp add: request_send_def request_message_def)
      then have "(the (bt_get ?txs (req_peer_id r)), Request k b (block_len torrent k b)) \<in> set ?out"
        using r(1) by (force simp: image_iff)
      then show "\<exists>(p, c) \<in> ?E. (c, Request k b (block_len torrent k b)) \<in> set ?out" using each(2) [OF r(1)] by blast
    qed
  qed (use parts in \<open>auto simp: senders_course_def\<close>)
  moreover have "senders_course ?E (send_all ?out ?chs) ?txs (ts_peers_not_choking (pr_state pr))"
  proof -
    have "bt_wf (pr_peer_to_tx pr)" using inv by (simp add: processor_inv_def pr0_def)
    note pc = prune_closed_get(2) [OF this, of ?chs]
    have "bt_get ?txs p = Some c \<longleftrightarrow> bt_get (pr_peer_to_tx pr) p = Some c" for p c
    proof -
      have "(p, c) \<in> ?E \<Longrightarrow> deliverable ?chs c" "bt_get (pr_peer_to_tx pr) p = Some c \<Longrightarrow> (p, c) \<in> ?E"
        using parts unfolding senders_course_def by blast+
      then show ?thesis using pc by (auto simp: pr0_def)
    qed
    then have "bt_get ?txs = bt_get (pr_peer_to_tx pr)" by (intro ext) (metis option.exhaust)
    then show ?thesis using parts by (simp add: senders_course_def)
  qed
  moreover have "handlers_course torrent data t1 (pr_handlers pr)"
    by (rule handlers_course_mono [of torrent data ?t]) (use parts g in auto)
  moreover obtain io where io: "pr_io pr = Some io" "good io" "store_course got torrent ?t (pr_handlers pr) io" using parts by blast
  have m: "wanted_wakeup data m" "\<forall>x \<in> set rest. wanted_wakeup data x" using parts by (auto simp: wk)
  have "pr_io pr0 = Some io" "\<forall>r \<in> set (ts_outstanding (pr_state pr0)). wanted data r" "process_wakeup ops iter now m pr0 = pr'"
    "pr_io pr' = io'" "ts_outstanding (pr_state pr') = q"
    using io(1) parts by (simp_all add: pr0_def pr'_def) (simp_all add: eq pr'_def [symmetric])
  note ws = wake_store [OF this(1) io(2) this(2) m(1), of iter now, unfolded this(3), unfolded this(4,5)]
  obtain io1 where "io' = Some io1" "good io1" "got io1 = got io" using ws(1) by blast
  moreover have "\<forall>r \<in> set q. wanted data r" by (rule ws(2))
  moreover from \<open>got io1 = got io\<close> have "store_course got torrent t1 (pr_handlers pr) io1"
    using io(3) by (simp add: store_course_def g)
  moreover have "processor_inv torrent max_out pr'" unfolding pr'_def pr0_def [symmetric] by (rule process_wakeup_inv [OF inv])
  ultimately show "on_course good got data torrent max_out pr'"
    using parts tc m(2) unfolding eq by (simp add: on_course_def)
  show "settled torrent (ts_tracking (pr_state pr')) = settled torrent ?t" by (simp add: eq settled_def g)
  show "pr_handlers pr' = pr_handlers pr" "pr_wakeups pr' = rest" 
    "ts_peers_not_choking (pr_state pr') = ts_peers_not_choking (pr_state pr)"
    "ts_block_peer_map (pr_state pr') = ts_block_peer_map (pr_state pr)" by (simp_all add: eq)
  show "in_flight (started (ts_tracking (pr_state pr'))) \<noteq> {}"
    if "0 < max_out" "p \<in> ts_peers_not_choking (pr_state pr)"
      "k \<in> has_piece (ts_block_peer_map (pr_state pr)) p"
      "k \<in> get_incomplete_pieces ?t" "(k, b) \<in> blocks torrent" "(k, b) \<notin> finished_blocks (started ?t)"
    using round_requests [OF iter ok tg(1) _ tg(3) gen that] parts by (simp add: eq)
qed

section \<open>Every honest step\<close>

lemma course_step:
  assumes sized: "sized torrent data" and A: "bytes_laws A" and iter: "hash_iteration iter"
    and course: "on_course good got data torrent max_out pr" and step: "honest_step data ops A iter pr ev pr'"
  shows "on_course good got data torrent max_out pr' \<and>
    settled torrent (ts_tracking (pr_state pr)) \<subseteq> settled torrent (ts_tracking (pr_state pr'))"
proof -
  have step: "processor_step ops A iter pr ev pr'" and honest: "honest data pr ev"
    using step by (simp_all add: honest_step_def)
  from step show ?thesis
  proof cases
    case (peer_starts p is_open)
    then show ?thesis using course_accept [OF A course, of p] honest by simp
  next
    case (peer_sends i msg)
    show ?thesis
    proof (cases "\<exists>k b blk. msg = Piece k b blk")
      case True
      then show ?thesis
        using course_block(1,3) [OF sized course peer_sends(4,5)] honest peer_sends(1,2) by auto
    next
      case False
      let ?h = "pr_handlers pr ! i"
      obtain status s chs io where h: "handle_msg ops (h_peer ?h) (h_conn ?h) msg (pr_state pr, pr_channels pr, pr_io pr) =
          (status, s, chs, io)" by (metis prod_cases4)
      have "ts_tracking (pr_state pr') = ts_tracking (pr_state pr)"
        using handle_msg_spec [OF h] by (simp add: peer_sends(2) deliver_def Let_def h set_status_def)
      then show ?thesis
        using course_quiet_message [OF course peer_sends(4,5), of msg] False honest peer_sends(1,2) by auto
    qed
  next
    case (write_answered i k b r)
    then show ?thesis using course_answered(1,2) [OF course, of i k b r] by auto
  next
    case (wake_sent i m)
    then show ?thesis using course_sent [OF course, of i m] by (simp add: set_status_def)
  next
    case (wake_received m rest now)
    then show ?thesis using course_wake(1,2) [OF sized iter course wake_received(4) wake_received(2)] by simp
  next
    case (timer_ticks now)
    then show ?thesis using course_timer [OF iter course, of now] honest by simp
  next
    case (handler_done i)
    then have "status_course torrent data (ts_tracking (pr_state pr)) Returned"
      using course by (metis (no_types, lifting) handlers_course_def nth_mem on_course_def)
    then show ?thesis by simp
  qed (use honest in simp_all)
qed

lemma course_start:
  assumes sized: "sized torrent data" and init: "processor_init torrent max_out (processor_new cfg torrent io)"
    and io: "good io" "\<And>i. got io i = {}"
  shows "on_course good got data torrent max_out (processor_new cfg torrent io)"
proof -
  let ?t = "tracker_new (max_outstanding_requests cfg) (ti_pieces (t_info torrent))"
  have ok: "torrent_ok torrent" using sized by (simp add: sized_def)
  have t: "started ?t = empty_block_map" "pieces_completed ?t = {}"
    "get_incomplete_pieces ?t = as_u32 ` {..<length (ti_pieces (t_info torrent))}"
    by (auto simp: tracker_new_def get_incomplete_pieces_def ptb_pieces_eq empty_block_map_def bt_empty_def)
  have "tracker_course torrent ?t"
    using ok by (auto simp: tracker_course_def t torrent_ok_def)
  moreover have "store_course got torrent ?t [] io"
    using io(2) assigned_size_bounds(1) [OF ok]
    by (auto simp: store_course_def t writing_def finished_writes_def spans_simps lessThan_def)
  moreover have "processor_inv torrent max_out (processor_new cfg torrent io)" by (rule processor_new_inv [OF init])
  ultimately show ?thesis
    using io(1)
    by (simp add: on_course_def Let_def processor_new_def torrent_state_new_def handlers_course_def senders_course_def
        requests_course_def t ends_def bt_empty_def)
qed

end

end
