(* ===== verification/Download.thy ===== *)
theory Download
  imports Download_Course
begin

text \<open>
  From every state on course the download can be brought to its end (\<open>can_finish\<close>): the queue and the handlers run dry, a
  peer that has everything connects and unchokes us, the next wake-up asks for a block, and its answer makes the number of
  missing blocks smaller. Then the properties of a client whose peers are honest.
\<close>

section \<open>Progress\<close>

text \<open>
  The steps that bring a download to its end: a peer answers a request, a write is answered, a wake-up is sent or taken.
  Next to them the timer may tick.
\<close>

fun own_step :: "event \<Rightarrow> bool" where
  "own_step (PeerSends i (Piece k b block)) = True"
| "own_step (WriteAnswered i) = True"
| "own_step (WakeSent i) = True"
| "own_step (WakeReceived now) = True"
| "own_step _ = False"

fun is_tick :: "event \<Rightarrow> bool" where
  "is_tick (TimerTicks now) = True"
| "is_tick _ = False"

definition finishing_step ::
  "bytes list \<Rightarrow> 'io torrent_io_ops \<Rightarrow> bytes_api \<Rightarrow> (internal_peer_id set \<Rightarrow> internal_peer_id list) \<Rightarrow>
     'io processor \<Rightarrow> event \<Rightarrow> 'io processor \<Rightarrow> bool"
where
  "finishing_step data ops A iter pr ev pr' \<longleftrightarrow> honest_step data ops A iter pr ev pr' \<and> (own_step ev \<or> is_tick ev)"

text \<open>How many of these steps are left: four for each missing block that nobody writes, and what the handlers and wake-ups still need.\<close>

fun work :: "handler_status \<Rightarrow> nat" where
  "work (Writing k b r) = 3"
| "work (Waking m) = 2"
| "work _ = 0"

definition total_work :: "'io processor \<Rightarrow> nat" where
  "total_work pr = length (pr_wakeups pr) + sum_list (map (\<lambda>h. work (h_status h)) (pr_handlers pr))"

definition missing :: "v1_torrent \<Rightarrow> 'io processor \<Rightarrow> (u32 \<times> u32) set" where
  "missing torrent pr = blocks torrent - settled torrent (ts_tracking (pr_state pr)) - writing (pr_handlers pr)"

definition steps_left :: "v1_torrent \<Rightarrow> 'io processor \<Rightarrow> nat" where
  "steps_left torrent pr = 4 * card (missing torrent pr) + total_work pr"

lemma work_update:
  assumes "i < length hs"
  shows "sum_list (map (\<lambda>h. work (h_status h)) (hs[i := (hs ! i)\<lparr>h_status := st\<rparr>])) + work (h_status (hs ! i)) =
    sum_list (map (\<lambda>h. work (h_status h)) hs) + work st"
proof -
  have "work (h_status (hs ! i)) \<le> sum_list (map (\<lambda>h. work (h_status h)) hs)"
    using assms by (auto intro: member_le_sum_list)
  then show ?thesis using assms by (simp add: map_update sum_list_update)
qed

text \<open>
  Nobody has anything to do; the peers that unchoked us have the block between them; and what holds at rest: if they have
  a block that is not settled, some request is in flight.
\<close>

definition resting :: "'io processor \<Rightarrow> bool" where
  "resting pr \<longleftrightarrow> pr_wakeups pr = [] \<and> (\<forall>h \<in> set (pr_handlers pr). h_status h = Idle)"

definition offered :: "torrent_state \<Rightarrow> u32 \<Rightarrow> bool" where
  "offered s k \<longleftrightarrow> (\<exists>p \<in> ts_peers_not_choking s. k \<in> has_piece (ts_block_peer_map s) p)"

definition keeps_asking :: "v1_torrent \<Rightarrow> 'io processor \<Rightarrow> bool" where
  "keeps_asking torrent pr \<longleftrightarrow>
     (resting pr \<longrightarrow> (\<exists>(k, b) \<in> blocks torrent - settled torrent (ts_tracking (pr_state pr)). offered (pr_state pr) k) \<longrightarrow>
        in_flight (started (ts_tracking (pr_state pr))) \<noteq> {})"

lemma idle_update:
  assumes "i < length hs" "h_status (hs ! i) = Idle"
  shows "(\<forall>h \<in> set (hs[i := (hs ! i)\<lparr>h_status := st\<rparr>]). h_status h = Idle) \<longleftrightarrow> st = Idle \<and> (\<forall>h \<in> set hs. h_status h = Idle)"
  unfolding all_set_conv_all_nth using assms by (auto simp: nth_list_update)

lemma keeps_asking_same:
  assumes "keeps_asking torrent pr" "resting pr' \<Longrightarrow> resting pr" "pr_state pr' = pr_state pr"
  shows "keeps_asking torrent pr'"
  using assms by (simp add: keeps_asking_def)

context reliable_store
begin

lemma missing_block:
  assumes sized: "sized torrent data" and course: "on_course good got data torrent max_out pr" and rest: "resting pr"
    and k: "unat k < length (ti_pieces (t_info torrent))" "k \<notin> pieces_completed (ts_tracking (pr_state pr))"
  obtains b where "(k, b) \<in> blocks torrent - settled torrent (ts_tracking (pr_state pr))"
proof -
  let ?t = "ts_tracking (pr_state pr)"
  note parts = course [unfolded on_course_def Let_def]
  have none: "writing (pr_handlers pr) = {}" "finished_writes (pr_handlers pr) = {}"
    using rest by (auto simp: resting_def writing_def finished_writes_def)
  obtain io where io: "store_course got torrent ?t (pr_handlers pr) io" using parts by blast
  then have "spans torrent (finished_blocks (started ?t)) k \<noteq> {..<assigned_size torrent k}"
    using k none by (auto simp: store_course_def)
  moreover have "torrent_ok torrent" "finished_blocks (started ?t) \<subseteq> blocks torrent"
    using sized parts by (auto simp: sized_def tracker_course_def)
  ultimately obtain b where "(k, b) \<in> blocks torrent" "(k, b) \<notin> finished_blocks (started ?t)"
    using spans_full_iff [OF _ k(1)] by blast
  then show ?thesis using that k(2) by (auto simp: settled_def)
qed

text \<open>At rest with a request in flight, its answer can come.\<close>

lemma can_answer:
  assumes sized: "sized torrent data" and course: "on_course good got data torrent max_out pr" and rest: "resting pr"
    and kb: "(k, b) \<in> in_flight (started (ts_tracking (pr_state pr)))"
  shows "\<exists>ev pr'. own_step ev \<and> finishing_step data ops A iter pr ev pr'"
proof -
  let ?t = "ts_tracking (pr_state pr)" and ?hs = "pr_handlers pr"
  let ?msg = "Piece k b (block_of (data ! unat k) b (block_len torrent k b))"
  note parts = course [unfolded on_course_def Let_def]
  have loop: "pr_loop pr = Looping" and tc: "tracker_course torrent ?t" using parts by simp_all
  obtain q c where qc: "(q, c) \<in> ends ?hs" "Request k b (block_len torrent k b) \<in> set (ch_messages (pr_channels pr ! c))"
    using parts kb unfolding requests_course_def by blast
  then obtain i where i: "i < length ?hs" "h_conn (?hs ! i) = c" by (auto simp: ends_def in_set_conv_nth)
  have st: "h_status (?hs ! i) = Idle" using rest i by (simp add: resting_def)
  have "unat k < length data" using tc kb sized by (auto simp: tracker_course_def blocks_def sized_def)
  moreover have "writing ?hs = {}" using rest by (auto simp: resting_def writing_def)
  ultimately have "honest_message data pr i ?msg" using qc(2) i(2) kb by auto
  then have "finishing_step data ops A iter pr (PeerSends i ?msg) (deliver ops i ?msg pr)"
    using processor_step.peer_sends [OF loop i(1) st] by (simp add: finishing_step_def honest_step_def)
  then show ?thesis using own_step.simps(1) by blast
qed

text \<open>When none of the steps is possible, and every piece that is not completed is on offer, there is nothing left to get.\<close>

lemma stuck_resting:
  assumes course: "on_course good got data torrent max_out pr"
    and stuck: "\<nexists>ev pr'. own_step ev \<and> finishing_step data ops A iter pr ev pr'"
  shows "resting pr"
proof -
  note parts = course [unfolded on_course_def Let_def]
  have loop: "pr_loop pr = Looping" using parts by simp
  have no: "\<not> processor_step ops A iter pr ev pr'" if "own_step ev" "honest data pr ev" for ev pr'
    using stuck that by (auto simp: finishing_step_def honest_step_def)
  have none: "pr_wakeups pr = []"
  proof (rule ccontr)
    assume "pr_wakeups pr \<noteq> []"
    then obtain m rest where "pr_wakeups pr = m # rest" by (cases "pr_wakeups pr") auto
    have "honest data pr (WakeReceived (\<lambda>_. 0))" "own_step (WakeReceived (\<lambda>_. 0))" by simp_all
    from no [OF this(2,1)] processor_step.wake_received [OF loop \<open>pr_wakeups pr = m # rest\<close>] show False by blast
  qed
  moreover have "h_status (pr_handlers pr ! i) = Idle" if i: "i < length (pr_handlers pr)" for i
  proof (cases "h_status (pr_handlers pr ! i)")
    case (Writing k b r)
    then show ?thesis using no [of "WriteAnswered i"] processor_step.write_answered [OF loop i Writing] by (simp, blast)
  next
    case (Waking m)
    have "length (pr_wakeups pr) < wakeup_capacity" using none by (simp add: wakeup_capacity_def)
    from processor_step.wake_sent [OF loop i Waking this] show ?thesis using no [of "WakeSent i"] by (simp, blast)
  next
    case Returned
    have "status_course torrent data (ts_tracking (pr_state pr)) (h_status (pr_handlers pr ! i))"
      using parts i by (simp add: handlers_course_def)
    then show ?thesis using Returned by simp
  qed simp
  ultimately show ?thesis by (auto simp: resting_def in_set_conv_nth)
qed

lemma stuck_complete:
  assumes sized: "sized torrent data" and course: "on_course good got data torrent max_out pr"
    and asking: "keeps_asking torrent pr"
    and offers: "\<forall>(k, b) \<in> blocks torrent - settled torrent (ts_tracking (pr_state pr)). offered (pr_state pr) k"
    and stuck: "\<nexists>ev pr'. own_step ev \<and> finishing_step data ops A iter pr ev pr'"
    and k: "unat k < length (ti_pieces (t_info torrent))"
  shows "k \<in> pieces_completed (ts_tracking (pr_state pr))"
proof (rule ccontr)
  assume "k \<notin> pieces_completed (ts_tracking (pr_state pr))"
  have rest: "resting pr" by (rule stuck_resting [OF course stuck])
  obtain b where b: "(k, b) \<in> blocks torrent - settled torrent (ts_tracking (pr_state pr))"
    using missing_block [OF sized course rest k \<open>k \<notin> _\<close>] by blast
  then have "offered (pr_state pr) k" using offers by blast
  then have "in_flight (started (ts_tracking (pr_state pr))) \<noteq> {}" using asking rest b unfolding keeps_asking_def by blast
  then show False using can_answer [OF sized course rest] stuck by (metis ex_in_conv surj_pair)
qed

text \<open>Every honest step keeps asking: a handler or a wake-up has work left, or a round has just asked for what is on offer.\<close>

lemma keeps_asking_step:
  assumes sized: "sized torrent data" and A: "bytes_laws A" and iter: "hash_iteration iter" and limit: "0 < max_out"
    and course: "on_course good got data torrent max_out pr" and course': "on_course good got data torrent max_out pr'"
    and asking: "keeps_asking torrent pr" and step: "honest_step data ops A iter pr ev pr'"
  shows "keeps_asking torrent pr'"
proof -
  have honest: "honest data pr ev" and step: "processor_step ops A iter pr ev pr'"
    using step by (simp_all add: honest_step_def)
  note parts = course [unfolded on_course_def Let_def]
  from step show ?thesis
  proof cases
    case (peer_starts p is_open)
    have "processor_inv torrent max_out pr" using parts by simp
    from accept_peer_eq [OF A this, of p is_open] have "resting pr' \<Longrightarrow> resting pr" "pr_state pr' = pr_state pr"
      by (auto simp: peer_starts(2) resting_def Let_def split: if_splits)
    then show ?thesis by (rule keeps_asking_same [OF asking])
  next
    case (peer_sends i msg)
    let ?h = "pr_handlers pr ! i"
    obtain status s chs io where h: "handle_msg ops (h_peer ?h) (h_conn ?h) msg (pr_state pr, pr_channels pr, pr_io pr) =
        (status, s, chs, io)" by (metis prod_cases4)
    have pr': "pr_wakeups pr' = pr_wakeups pr" "pr_handlers pr' = (pr_handlers pr)[i := ?h\<lparr>h_status := status\<rparr>]" "pr_state pr' = s"
      by (simp_all add: peer_sends(2) deliver_def Let_def h set_status_def)
    have rest: "resting pr' \<Longrightarrow> status = Idle \<and> resting pr"
      using idle_update [OF peer_sends(4,5), of status] by (simp add: resting_def pr')
    have "s = pr_state pr" if "status = Idle"
      using h that by (cases msg) (auto simp: tell_interest_def Let_def split: prod.splits option.splits bool.splits)
    then show ?thesis using asking rest by (auto simp: keeps_asking_def pr'(3))
  next
    case (write_answered i k b r)
    obtain m where "pr_handlers pr' = (pr_handlers pr)[i := (pr_handlers pr ! i)\<lparr>h_status := Waking m\<rparr>]"
      using course_answered(3) [OF course write_answered(4,5)] write_answered(2) by blast
    moreover from this have "(pr_handlers pr ! i)\<lparr>h_status := Waking m\<rparr> \<in> set (pr_handlers pr')"
      by (simp add: set_update_memI [OF write_answered(4)])
    ultimately have "\<not> resting pr'" by (force simp: resting_def)
    then show ?thesis by (simp add: keeps_asking_def)
  next
    case (wake_sent i m)
    then have "\<not> resting pr'" by (simp add: resting_def set_status_def)
    then show ?thesis by (simp add: keeps_asking_def)
  next
    case (wake_received m rest now)
    note w = course_wake [OF sized iter course wake_received(4) wake_received(2)]
    have "in_flight (started (ts_tracking (pr_state pr'))) \<noteq> {}"
      if kb: "(k, b) \<in> blocks torrent - settled torrent (ts_tracking (pr_state pr'))" and off: "offered (pr_state pr') k" for k b
    proof -
      obtain p where p: "p \<in> ts_peers_not_choking (pr_state pr)" "k \<in> has_piece (ts_block_peer_map (pr_state pr)) p"
        using off by (auto simp: offered_def w(5,6))
      have "(k, b) \<in> blocks torrent" "k \<notin> pieces_completed (ts_tracking (pr_state pr))"
        "(k, b) \<notin> finished_blocks (started (ts_tracking (pr_state pr)))"
        using kb [unfolded w(2)] by (auto simp: settled_def)
      moreover from this have "k \<in> get_incomplete_pieces (ts_tracking (pr_state pr))"
        using parts incomplete_iff by (auto simp: processor_inv_def blocks_def)
      ultimately show ?thesis using w(7) [OF limit p] by blast
    qed
    then show ?thesis by (auto simp: keeps_asking_def)
  next
    case (timer_ticks now)
    let ?t = "ts_tracking (pr_state pr)"
    obtain t' where t': "remove_expired now ?t = ([], t')" using honest timer_ticks(1) by (cases "remove_expired now ?t") auto
    have eq: "pr' = pr\<lparr>pr_state := (pr_state pr)\<lparr>ts_tracking := t'\<rparr>\<rparr>"
      by (simp add: timer_ticks(2) timer_tick_eq [OF iter] t' Let_def)
    have "tracker_good torrent max_out ?t" "tracker_course torrent ?t" using parts by (auto simp: processor_inv_def)
    note same = nothing_expired_course [OF this t']
    show ?thesis using asking by (simp add: keeps_asking_def eq resting_def offered_def settled_def same)
  next
    case (handler_done i)
    then have "status_course torrent data (ts_tracking (pr_state pr)) Returned"
      using parts by (metis handlers_course_def nth_mem)
    then show ?thesis by simp
  qed (use honest in simp_all)
qed

text \<open>Each of the steps leaves one step less, and a tick no more; nothing on offer or settled is lost.\<close>

lemma steps_less:
  assumes "missing torrent pr' \<subseteq> missing torrent pr" "total_work pr' + n \<le> total_work pr"
  shows "steps_left torrent pr' + n \<le> steps_left torrent pr"
proof -
  have "card (missing torrent pr') \<le> card (missing torrent pr)" using assms(1) by (intro card_mono) simp_all
  then show ?thesis using assms(2) by (simp add: steps_left_def)
qed

lemma answer_less:
  assumes sized: "sized torrent data" and course: "on_course good got data torrent max_out pr"
    and i: "i < length (pr_handlers pr)" "h_status (pr_handlers pr ! i) = Idle" and honest: "honest_message data pr i (Piece k b blk)"
  shows "steps_left torrent (deliver ops i (Piece k b blk) pr) + 1 \<le> steps_left torrent pr"
proof -
  let ?pr' = "deliver ops i (Piece k b blk) pr" and ?t = "ts_tracking (pr_state pr)"
  note blk = course_block [OF sized course i honest]
  obtain f where f: "h_status (pr_handlers ?pr' ! i) = Writing k b (Ok f)" using blk(2) by blast
  have hs: "pr_handlers ?pr' = (pr_handlers pr)[i := (pr_handlers pr ! i)\<lparr>h_status := Writing k b (Ok f)\<rparr>]"
    using blk(4) unfolding f .
  have fl: "(k, b) \<in> in_flight (started ?t)" "(k, b) \<notin> writing (pr_handlers pr)" using honest by auto
  have tc: "tracker_course torrent ?t" "maps_ok (started ?t)"
    using course by (simp_all add: on_course_def Let_def processor_inv_def tracker_good_def tracker_inv_def)
  then have "(k, b) \<in> missing torrent pr"
    using fl in_flight_missing [OF tc(1) fl(1)] by (auto simp: missing_def settled_def tracker_course_def maps_ok_def)
  moreover have "missing torrent ?pr' = missing torrent pr - {(k, b)}"
    using writing_begins(1) [OF i(1), of "Writing k b (Ok f)"] i(2) by (auto simp: missing_def blk(3) hs)
  ultimately have "card (missing torrent ?pr') + 1 = card (missing torrent pr)"
    using card_Suc_Diff1 [of "missing torrent pr" "(k, b)"] by simp
  moreover have "total_work ?pr' = total_work pr + 3"
    using work_update [OF i(1), of "Writing k b (Ok f)"] i(2) by (simp add: total_work_def hs blk(5))
  ultimately show ?thesis by (simp add: steps_left_def)
qed

lemma finishing_less:
  assumes sized: "sized torrent data" and iter: "hash_iteration iter"
    and course: "on_course good got data torrent max_out pr" and step: "finishing_step data ops A iter pr ev pr'"
  shows "steps_left torrent pr' + (if own_step ev then 1 else 0) \<le> steps_left torrent pr \<and>
    offered (pr_state pr') k = offered (pr_state pr) k"
proof -
  have honest: "honest data pr ev" and step: "processor_step ops A iter pr ev pr'" and ev: "own_step ev \<or> is_tick ev"
    using step by (simp_all add: finishing_step_def honest_step_def)
  note parts = course [unfolded on_course_def Let_def]
  from step show ?thesis
  proof cases
    case (peer_sends i msg)
    then obtain k b blk where msg: "msg = Piece k b blk" using ev by (cases msg) auto
    then have honest: "honest_message data pr i (Piece k b blk)" using honest peer_sends(1) by simp
    show ?thesis
      using answer_less [OF sized course peer_sends(4,5) honest] course_block(3) [OF sized course peer_sends(4,5) honest]
      by (simp add: peer_sends(1,2) msg)
  next
    case (write_answered i k b r)
    let ?hs = "pr_handlers pr"
    obtain m where m: "pr_handlers pr' = ?hs[i := (?hs ! i)\<lparr>h_status := Waking m\<rparr>]"
      using course_answered(3) [OF course write_answered(4,5)] write_answered(2) by blast
    note c = course_answered(2,4) [OF course write_answered(4,5), folded write_answered(2)]
    have "writing ?hs = insert (k, b) (writing (pr_handlers pr'))"
      using writing_ends(1) [OF write_answered(4), of "Waking m"] by (simp add: m write_answered(5))
    then have "missing torrent pr' \<subseteq> missing torrent pr" using c(1) by (auto simp: missing_def)
    moreover have "total_work pr' + 1 \<le> total_work pr"
      using work_update [OF write_answered(4), of "Waking m"] by (simp add: total_work_def m write_answered(5) c(2))
    moreover have "ts_peers_not_choking (pr_state pr') = ts_peers_not_choking (pr_state pr)"
      "ts_block_peer_map (pr_state pr') = ts_block_peer_map (pr_state pr)"
      by (auto simp: write_answered(2) Event_Loop.write_answered_def finish_write_def set_status_def split: res.split)
    ultimately show ?thesis using steps_less [of torrent pr' pr 1] by (simp add: write_answered(1) offered_def)
  next
    case (wake_sent i m)
    have "missing torrent pr' = missing torrent pr"
      using writing_begins(1) [OF wake_sent(4), of Idle] by (simp add: missing_def wake_sent(2,5) set_status_def)
    moreover have "total_work pr' + 1 \<le> total_work pr"
      using work_update [OF wake_sent(4), of Idle] by (simp add: total_work_def wake_sent(2,5) set_status_def)
    ultimately show ?thesis
      using steps_less [of torrent pr' pr 1] by (simp add: wake_sent(1,2) offered_def set_status_def)
  next
    case (wake_received m rest now)
    note w = course_wake [OF sized iter course wake_received(4) wake_received(2)]
    have "missing torrent pr' = missing torrent pr" "total_work pr' + 1 \<le> total_work pr"
      by (simp_all add: missing_def total_work_def w(2-4) wake_received(4))
    then show ?thesis using steps_less [of torrent pr' pr 1] by (simp add: wake_received(1) offered_def w(5,6))
  next
    case (timer_ticks now)
    let ?t = "ts_tracking (pr_state pr)"
    obtain t' where t': "remove_expired now ?t = ([], t')" using honest timer_ticks(1) by (cases "remove_expired now ?t") auto
    have eq: "pr' = pr\<lparr>pr_state := (pr_state pr)\<lparr>ts_tracking := t'\<rparr>\<rparr>"
      by (simp add: timer_ticks(2) timer_tick_eq [OF iter] t' Let_def)
    have "tracker_good torrent max_out ?t" "tracker_course torrent ?t" using parts by (auto simp: processor_inv_def)
    note same = nothing_expired_course [OF this t']
    show ?thesis by (simp add: timer_ticks(1) eq steps_left_def missing_def total_work_def offered_def settled_def same)
  qed (use ev in simp_all)
qed

text \<open>Along a run: its own steps are counted, and what holds of every state of it.\<close>

lemma finishing_run:
  assumes sized: "sized torrent data" and A: "bytes_laws A" and iter: "hash_iteration iter" and limit: "0 < max_out"
    and "run (finishing_step data ops A iter) pr evs pr'"
  shows "on_course good got data torrent max_out pr \<Longrightarrow> keeps_asking torrent pr \<Longrightarrow>
    \<forall>(k, b) \<in> blocks torrent - settled torrent (ts_tracking (pr_state pr)). offered (pr_state pr) k \<Longrightarrow>
    length (filter own_step evs) + steps_left torrent pr' \<le> steps_left torrent pr \<and>
    on_course good got data torrent max_out pr' \<and> keeps_asking torrent pr' \<and>
    (\<forall>(k, b) \<in> blocks torrent - settled torrent (ts_tracking (pr_state pr')). offered (pr_state pr') k)"
  using assms(5)
proof (induction rule: run.induct)
  case (run_Cons pr ev pr1 evs pr')
  have honest: "honest_step data ops A iter pr ev pr1" using run_Cons.hyps(1) by (simp add: finishing_step_def)
  note c1 = course_step [OF sized A iter run_Cons.prems(1) honest]
  note less = finishing_less [OF sized iter run_Cons.prems(1) run_Cons.hyps(1)]
  have "keeps_asking torrent pr1"
    using keeps_asking_step [OF sized A iter limit run_Cons.prems(1) _ run_Cons.prems(2) honest] c1 by blast
  moreover have "\<forall>(k, b) \<in> blocks torrent - settled torrent (ts_tracking (pr_state pr1)). offered (pr_state pr1) k"
  proof (intro ballI, clarify)
    fix k b assume "(k, b) \<in> blocks torrent" "(k, b) \<notin> settled torrent (ts_tracking (pr_state pr1))"
    then have "offered (pr_state pr) k" using run_Cons.prems(3) conjunct2 [OF c1] by blast
    then show "offered (pr_state pr1) k" using less by simp
  qed
  ultimately have "length (filter own_step evs) + steps_left torrent pr' \<le> steps_left torrent pr1 \<and>
    on_course good got data torrent max_out pr' \<and> keeps_asking torrent pr' \<and>
    (\<forall>(k, b) \<in> blocks torrent - settled torrent (ts_tracking (pr_state pr')). offered (pr_state pr') k)"
    by (rule run_Cons.IH [OF conjunct1 [OF c1]])
  moreover have "length (filter own_step (ev # evs)) = length (filter own_step evs) + (if own_step ev then 1 else 0)" by simp
  ultimately show ?case using conjunct1 [OF less] by linarith
qed simp

lemma can_finish:
  assumes sized: "sized torrent data" and A: "bytes_laws A" and iter: "hash_iteration iter" and limit: "0 < max_out"
  shows "on_course good got data torrent max_out pr \<Longrightarrow> keeps_asking torrent pr \<Longrightarrow>
    \<forall>(k, b) \<in> blocks torrent - settled torrent (ts_tracking (pr_state pr)). offered (pr_state pr) k \<Longrightarrow>
    \<exists>evs pr'. run (finishing_step data ops A iter) pr evs pr' \<and> (\<nexists>ev pr''. own_step ev \<and> finishing_step data ops A iter pr' ev pr'')"
proof (induction "steps_left torrent pr" arbitrary: pr rule: less_induct)
  case less
  show ?case
  proof (cases "\<exists>ev pr1. own_step ev \<and> finishing_step data ops A iter pr ev pr1")
    case False
    then show ?thesis using run_Nil [of "finishing_step data ops A iter" pr] by blast
  next
    case True
    then obtain ev pr1 where s: "own_step ev" "finishing_step data ops A iter pr ev pr1" by blast
    then have r: "run (finishing_step data ops A iter) pr [ev] pr1" by (blast intro: run_Cons run_Nil)
    note f = finishing_run [OF assms r less.prems]
    then have "steps_left torrent pr1 < steps_left torrent pr" using s(1) by simp
    then obtain evs pr' where "run (finishing_step data ops A iter) pr1 evs pr'"
      "\<nexists>ev pr''. own_step ev \<and> finishing_step data ops A iter pr' ev pr''"
      using less.hyps f by blast
    then show ?thesis using run_Cons [of "finishing_step data ops A iter", OF s(2)] by blast
  qed
qed

text \<open>The store of a completed piece.\<close>

lemma completed_contents:
  assumes "on_course good got data torrent max_out pr" "k \<in> pieces_completed (ts_tracking (pr_state pr))"
  shows "\<exists>io. pr_io pr = Some io \<and> good io \<and> got io (unat k) = {..<assigned_size torrent k}"
  using assms by (fastforce simp: on_course_def Let_def store_course_def tracker_course_def)

end

section \<open>The client\<close>

lemma honest_course:
  assumes F: "reliable_file F contents pos" and A: "bytes_laws A" and iter: "hash_iteration iter"
    and data: "describes H torrent data" and even: "use_file_writer cfg \<longrightarrow> even_pieces torrent"
    and reach: "reachable (started_as (start_processing F created torrent cfg) torrent)
      (honest_step data (boxed_ops F H) A iter) pr"
  shows "torrent_ok torrent"
    "on_course (boxed_good contents H data) boxed_got data torrent (max_outstanding_requests cfg) pr"
proof -
  note store = reliable_file.boxed_reliable [OF F, of H data]
  have "torrent_ok torrent \<and> on_course (boxed_good contents H data) boxed_got data torrent (max_outstanding_requests cfg) pr"
    using reach
  proof (induction rule: reachable.induct)
    case (start pr)
    then have ok: "torrent_ok torrent" and new: "start_processing F created torrent cfg = Ok pr"
      by (auto simp: started_as_def)
    obtain io where io: "pr = processor_new cfg torrent io" "boxed_good contents H data io" "\<And>i. boxed_got io i = {}"
      by (rule reliable_file.started_good [OF F ok data new even]) blast
    have "processor_init torrent (max_outstanding_requests cfg) (processor_new cfg torrent io)"
      using ok by (auto simp: processor_init_def)
    then show ?case
      using reliable_store.course_start [OF store describes_sized [OF ok data] _ io(2,3)] ok by (simp add: io(1))
  next
    case (next_state pr ev pr')
    then show ?case
      using reliable_store.course_step [OF store describes_sized [OF _ data] A iter] by blast
  qed
  then show "torrent_ok torrent"
    "on_course (boxed_good contents H data) boxed_got data torrent (max_outstanding_requests cfg) pr" by simp_all
qed

lemma course_piece:
  assumes "torrent_ok torrent" "describes H torrent data"
    and "on_course (boxed_good contents H data) boxed_got data torrent max_out pr" "k \<in> pieces_completed (ts_tracking (pr_state pr))"
  obtains io where "pr_io pr = Some io" "boxed_piece contents io (unat k) = Some (data ! unat k)"
proof -
  obtain io where io: "pr_io pr = Some io" "boxed_good contents H data io" "boxed_got io (unat k) = {..<assigned_size torrent k}"
    using reliable_store.completed_contents assms(3,4) by (fastforce simp: on_course_def Let_def store_course_def tracker_course_def)
  have "unat k < length data"
    using assms(2-4) by (auto simp: describes_def on_course_def Let_def tracker_course_def)
  moreover from this have "length (data ! unat k) = assigned_size torrent k" using assms(2) by (simp add: describes_def)
  ultimately show ?thesis using that [OF io(1)] boxed_full [OF io(2)] io(3) by simp
qed

text \<open>
  C5. A download among honest peers stays sound. Whatever the connected peers say and in whatever order, as long as they
  stay connected, answer only what they were asked, with the torrent's bytes, and no request expires:
  the event loop and the I/O task live, no handler has ended, a piece is still tracked as missing exactly when it
  is not completed, and the store holds the torrent's bytes of every completed piece.
\<close>

theorem honest_download_sound:
  assumes "reliable_file F contents pos" and "bytes_laws A" and "hash_iteration iter"
    and "describes H torrent data" and "use_file_writer cfg \<longrightarrow> even_pieces torrent"
    and "reachable (started_as (start_processing F created torrent cfg) torrent)
      (honest_step data (boxed_ops F H) A iter) pr"
  shows "pr_loop pr = Looping \<and> (\<forall>h \<in> set (pr_handlers pr). h_status h \<noteq> Returned) \<and>
    get_incomplete_pieces (ts_tracking (pr_state pr)) =
      {k. unat k < length (ti_pieces (t_info torrent)) \<and> k \<notin> pieces_completed (ts_tracking (pr_state pr))} \<and>
    (\<exists>io. pr_io pr = Some io \<and>
      (\<forall>k \<in> pieces_completed (ts_tracking (pr_state pr)). boxed_piece contents io (unat k) = Some (data ! unat k)))"
proof -
  note course = honest_course [OF assms]
  have parts: "pr_loop pr = Looping" "tracker_good torrent (max_outstanding_requests cfg) (ts_tracking (pr_state pr))"
    "tracker_course torrent (ts_tracking (pr_state pr))" "\<exists>io. pr_io pr = Some io"
    "\<forall>h \<in> set (pr_handlers pr). status_course torrent data (ts_tracking (pr_state pr)) (h_status h)"
    using course(2) by (auto simp: on_course_def Let_def processor_inv_def handlers_course_def)
  have "h_status h \<noteq> Returned" if "h \<in> set (pr_handlers pr)" for h using parts(5) that by auto
  moreover have "boxed_piece contents io (unat k) = Some (data ! unat k)"
    if "pr_io pr = Some io" "k \<in> pieces_completed (ts_tracking (pr_state pr))" for io k
    using course_piece [OF course(1) assms(4) course(2) that(2)] that(1) by auto
  ultimately show ?thesis using parts(1,4) incomplete_iff [OF parts(2,3)] by blast
qed

text \<open>Every state of such a run keeps asking.\<close>

lemma honest_asking:
  assumes F: "reliable_file F contents pos" and A: "bytes_laws A" and iter: "hash_iteration iter"
    and data: "describes H torrent data" and even: "use_file_writer cfg \<longrightarrow> even_pieces torrent"
    and limit: "0 < max_outstanding_requests cfg"
    and reach: "reachable (started_as (start_processing F created torrent cfg) torrent)
      (honest_step data (boxed_ops F H) A iter) pr"
  shows "keeps_asking torrent pr"
  using reach
proof (induction rule: reachable.induct)
  case (start pr)
  then obtain io where "pr = processor_new cfg torrent io"
    by (auto simp: started_as_def start_processing_def res_bind_Ok_iff split: if_splits)
  then show ?case by (simp add: keeps_asking_def offered_def processor_new_def torrent_state_new_def)
next
  case (next_state pr ev pr')
  have reach': "reachable (started_as (start_processing F created torrent cfg) torrent) (honest_step data (boxed_ops F H) A iter) pr'"
    by (rule reachable.next_state [OF next_state.hyps])
  note c = honest_course [OF F A iter data even next_state.hyps(1)] honest_course [OF F A iter data even reach']
  show ?case
    by (rule reliable_store.keeps_asking_step [OF reliable_file.boxed_reliable [OF F] describes_sized [OF c(1) data] A iter limit c(2,4)
          next_state.IH next_state.hyps(2)])
qed

text \<open>The download is over, with the right bytes.\<close>

definition has_everything :: "('f \<Rightarrow> bytes) \<Rightarrow> v1_torrent \<Rightarrow> bytes list \<Rightarrow> 'f boxed_io processor \<Rightarrow> bool" where
  "has_everything contents torrent data pr \<longleftrightarrow>
     (\<forall>k. unat k < length (ti_pieces (t_info torrent)) \<longrightarrow> k \<in> pieces_completed (ts_tracking (pr_state pr))) \<and>
     (\<exists>io. pr_io pr = Some io \<and> (\<forall>i < length data. boxed_piece contents io i = Some (data ! i)))"

lemma course_everything:
  assumes "torrent_ok torrent" "describes H torrent data"
    and c: "on_course (boxed_good contents H data) boxed_got data torrent max_out pr"
    and all: "\<And>k. unat k < length (ti_pieces (t_info torrent)) \<Longrightarrow> k \<in> pieces_completed (ts_tracking (pr_state pr))"
  shows "has_everything contents torrent data pr"
proof -
  obtain io where io: "pr_io pr = Some io" using c by (auto simp: on_course_def Let_def)
  have "boxed_piece contents io i = Some (data ! i)" if i: "i < length data" for i
  proof -
    have "unat (as_u32 i) = i" "i < length (ti_pieces (t_info torrent))"
      using i assms(1,2) by (auto simp: describes_def torrent_ok_def intro!: unat_as_u32_small)
    then show ?thesis using course_piece [OF assms(1,2) c, of "as_u32 i"] all io by auto
  qed
  then show ?thesis using all io by (simp add: has_everything_def)
qed


section \<open>A concrete download\<close>

lemma tiny_described: "describes toy_digest tiny_torrent [[1, 2, 3]]" "even_pieces tiny_torrent"
proof -
  have "allocate_torrent tiny_torrent = Some \<lparr>total_pieces = 1, max_piece_size = 3, last_piece_size = 3\<rparr>"
    by (simp add: tiny_torrent_def allocate_torrent_def i64_as_usize_def usize_mul_def usize_sub_def)
  then show "describes toy_digest tiny_torrent [[1, 2, 3]]" "even_pieces tiny_torrent"
    by (simp_all add: describes_def tiny_torrent_def toy_digest_def assigned_size_def even_pieces_def i64_as_usize_def)
qed

lemma tiny_honest: "reachable (started_as (start_processing list_file_api (Ok ([], 0)) tiny_torrent default_config) tiny_torrent)
    (honest_step [[1, 2, 3]] (boxed_ops list_file_api toy_digest) list_bytes sorted_iter) tiny1"
proof (rule reachable.next_state)
  show "reachable (started_as (start_processing list_file_api (Ok ([], 0)) tiny_torrent default_config) tiny_torrent)
      (honest_step [[1, 2, 3]] (boxed_ops list_file_api toy_digest) list_bytes sorted_iter) tiny0"
    by (rule reachable.start) (rule tiny_start)
  show "honest_step [[1, 2, 3]] (boxed_ops list_file_api toy_digest) list_bytes sorted_iter tiny0 (PeerStarts [1] True) tiny1"
    using tiny_steps(1) by (simp add: honest_step_def)
qed

lemma honest_download_sound_witness: "pr_loop tiny1 = Looping \<and> get_incomplete_pieces (ts_tracking (pr_state tiny1)) =
    {k. unat k < 1 \<and> k \<notin> pieces_completed (ts_tracking (pr_state tiny1))}"
proof -
  from honest_download_sound [OF list_file.reliable_file_axioms list_bytes.bytes_laws_axioms sorted_iter.hash_iteration_axioms
      tiny_described(1) _ tiny_honest] tiny_described(2)
  show ?thesis by (simp add: tiny_torrent_def)
qed

text \<open>The peer announces the piece and unchokes us.\<close>

definition tiny_have :: "list_file boxed_io processor" where
  "tiny_have = deliver (boxed_ops list_file_api toy_digest) 0 (Have 0) tiny1"

definition tiny_told :: "list_file boxed_io processor" where
  "tiny_told = set_status 0 Idle (tiny_have\<lparr>pr_wakeups := [Wakeup]\<rparr>)"

definition tiny_open :: "list_file boxed_io processor" where
  "tiny_open = deliver (boxed_ops list_file_api toy_digest) 0 (Flag Unchoke) tiny_told"

abbreviation tiny_honest_step :: "list_file boxed_io processor \<Rightarrow> event \<Rightarrow> list_file boxed_io processor \<Rightarrow> bool" where
  "tiny_honest_step \<equiv> honest_step [[1, 2, 3]] (boxed_ops list_file_api toy_digest) list_bytes sorted_iter"

lemma tiny_open_facts:
  "reachable (started_as (start_processing list_file_api (Ok ([], 0)) tiny_torrent default_config) tiny_torrent) tiny_honest_step tiny_open"
  "offered (pr_state tiny_open) 0"
proof -
  have inv: "processor_inv tiny_torrent (max_outstanding_requests default_config) tiny0"
    by (rule processor.reachable_inv [OF started_reachable [OF tiny0_reachable]])
  obtain bf where eq: "tiny1 = (let c = length (pr_channels tiny0);
        chs = send_all [(c, BitField bf), (c, Flag Choke), (c, Flag NotInterested)] (pr_channels tiny0 @ [\<lparr>ch_messages = [], ch_open = True\<rparr>])
      in tiny0\<lparr>pr_channels := chs, pr_peer_to_tx := bt_insert [1] c (pr_peer_to_tx tiny0),
        pr_handlers := pr_handlers tiny0 @ [\<lparr>h_peer = [1], h_conn = c, h_status = Idle\<rparr>]\<rparr>)"
    using accept_peer_eq [OF list_bytes.bytes_laws_axioms inv, of "[1]" True] unfolding tiny1_def by auto
  have chs: "pr_channels tiny1 = send_all [(0, BitField bf), (0, Flag Choke), (0, Flag NotInterested)] [\<lparr>ch_messages = [], ch_open = True\<rparr>]"
    and wk: "pr_wakeups tiny1 = pr_wakeups tiny0"
    by (simp_all only: eq) (simp_all add: Let_def tiny0_facts del: send_all_simps)
  have ch: "deliverable (pr_channels tiny1) 0" "pr_wakeups tiny1 = []"
    by (simp add: chs deliverable_def [of "[_]"] del: send_all_simps) (simp add: wk tiny0_def processor_new_def)
  obtain change s where add: "add_pieces_for_peer [1] [0] (pr_state tiny1) = (change, s)" by fastforce
  obtain status chs where tell: "tell_interest 0 change (pr_channels tiny1) = (status, chs)" by fastforce
  have "status = Waking Wakeup"
    using tell send_True [OF ch(1), of "interest_msg (the change)"] by (cases change) (auto simp: tell_interest_def split: prod.splits bool.splits)
  then have h: "pr_loop tiny_have = Looping" "pr_handlers tiny_have = [\<lparr>h_peer = [1], h_conn = 0, h_status = Waking Wakeup\<rparr>]"
    "pr_wakeups tiny_have = []" "pr_state tiny_have = s"
    by (simp_all add: tiny_have_def deliver_def Let_def tiny1_facts add tell set_status_def ch(2))
  have "tiny_honest_step tiny1 (PeerSends 0 (Have 0)) tiny_have"
    using processor_step.peer_sends [OF tiny1_facts(2), of 0] by (simp add: honest_step_def tiny_have_def tiny1_facts)
  then have r: "reachable (started_as (start_processing list_file_api (Ok ([], 0)) tiny_torrent default_config) tiny_torrent) tiny_honest_step tiny_have"
    by (rule reachable.next_state [OF tiny_honest])
  have t: "pr_loop tiny_told = Looping" "pr_handlers tiny_told = [\<lparr>h_peer = [1], h_conn = 0, h_status = Idle\<rparr>]" "pr_state tiny_told = s"
    by (simp_all add: tiny_told_def set_status_def h)
  have "tiny_honest_step tiny_have (WakeSent 0) tiny_told"
    using processor_step.wake_sent [OF h(1), of 0 Wakeup] by (simp add: honest_step_def tiny_told_def h wakeup_capacity_def)
  with r have r: "reachable (started_as (start_processing list_file_api (Ok ([], 0)) tiny_torrent default_config) tiny_torrent) tiny_honest_step tiny_told"
    by (rule reachable.next_state)
  have "tiny_honest_step tiny_told (PeerSends 0 (Flag Unchoke)) tiny_open"
    using processor_step.peer_sends [OF t(1), of 0] by (simp add: honest_step_def tiny_open_def t)
  with r show "reachable (started_as (start_processing list_file_api (Ok ([], 0)) tiny_torrent default_config) tiny_torrent) tiny_honest_step tiny_open"
    by (rule reachable.next_state)
  have "pr_state tiny_open = set_peer_choked_us [1] False s"
    by (simp add: tiny_open_def deliver_def Let_def t set_status_def)
  then show "offered (pr_state tiny_open) 0"
    using add_pieces_spec(3) [OF add, of "[1]"] by (simp add: offered_def set_peer_choked_us_facts)
qed


end
