(* ===== verification/Tracker_Tests.thy ===== *)
theory Tracker_Tests
  imports Assignment_Progress
begin

text \<open>
  The unit tests of \<open>src/peer/state/piece.rs\<close> with the torrents they use (\<open>src/peer/mod.rs\<close>), each as a
  Boolean function that calls the model where the test calls the program: true when the test passes,
  false when an assertion fails or an \<open>unwrap\<close> panics. \<open>iter\<close> is the iteration order of the hash sets, \<open>now\<close> the time at which a piece
  is assigned, and \<open>later\<close> the time after \<open>sleep(11 s)\<close>. The lemmas show that the model passes the tests.
\<close>

section \<open>The torrents of the tests\<close>

definition torrent_fixture_impl :: "bytes \<Rightarrow> usize \<Rightarrow> i64 \<Rightarrow> i64 \<Rightarrow> v1_torrent" where
  "torrent_fixture_impl info_hash pieces_len piece_length len =
     (let pieces = map (\<lambda>i. \<lparr>piece_hash = replicate 20 (word_of_nat (i * 11))\<rparr>) [1..<Suc pieces_len] in
      \<lparr>t_info = \<lparr>ti_length = len, ti_piece_length = piece_length, ti_pieces = pieces, ti_name = ascii ''test.txt'',
         ti_info_hash = info_hash\<rparr>,
       t_announce = [], t_announce_list = []\<rparr>)"

definition torrent_fixture :: "bytes \<Rightarrow> v1_torrent" where
  "torrent_fixture info_hash = torrent_fixture_impl info_hash 2 5120000 10240000"

definition gen_availiable_piece_to_peers :: "v1_torrent \<Rightarrow> (u32, internal_peer_id set) btree" where
  "gen_availiable_piece_to_peers torrent =
     (let peers = set [replicate 10 0] in
      fold (\<lambda>(idx, ps) acc. bt_insert (as_u32 idx) ps acc)
        (map (\<lambda>(idx, _). (idx, peers)) (enumerate 0 (ti_pieces (t_info torrent)))) bt_empty)"

definition setup_piece_block_tracker :: "piece_block_tracker \<times> v1_torrent \<times> usize" where
  "setup_piece_block_tracker =
     (let pieces = 2; max_outstanding_requests = 2; requests_per_piece = 4;
          torrent_len = word_of_nat (PIECE_BLOCK_SIZE * requests_per_piece * pieces);
          piece_len = word_of_int (sint torrent_len div int pieces);
          torrent = torrent_fixture_impl (replicate 20 1) 2 piece_len torrent_len
      in (tracker_new max_outstanding_requests (ti_pieces (t_info torrent)), torrent, requests_per_piece))"

section \<open>The tests of the tracker\<close>

definition correctly_assigns_pieces_when_not_hitting_threshold ::
  "(internal_peer_id set \<Rightarrow> internal_peer_id list) \<Rightarrow> (u32 \<Rightarrow> instant) \<Rightarrow> bool" where
  "correctly_assigns_pieces_when_not_hitting_threshold iter now =
     (let torrent = torrent_fixture (replicate 20 1);
          pbt = tracker_new 2 (ti_pieces (t_info torrent)) in
      case generate_assignments iter now torrent (gen_availiable_piece_to_peers torrent) pbt of
        None \<Rightarrow> False
      | Some (assignments, pbt) \<Rightarrow>
          assignments \<noteq> [] \<and> downloading_requests_len pbt = 2 \<and> outstanding_pieces_len pbt = 1 \<and>
          card (pieces_not_started pbt) = 1)"

text \<open>\<open>for assigned in assignments { pbt.set_request_finished(..).unwrap() }\<close>.\<close>

fun finish_requests :: "peer_requested_piece list \<Rightarrow> piece_block_tracker \<Rightarrow> piece_block_tracker option" where
  "finish_requests [] pbt = Some pbt"
| "finish_requests (req # rest) pbt =
     (case set_request_finished (req_index req) (req_begin req) pbt of
        (None, _) \<Rightarrow> None
      | (Some _, pbt) \<Rightarrow> finish_requests rest pbt)"

definition correctly_expires_completed_requests_by_not_expiring ::
  "(internal_peer_id set \<Rightarrow> internal_peer_id list) \<Rightarrow> (u32 \<Rightarrow> instant) \<Rightarrow> instant \<Rightarrow> bool" where
  "correctly_expires_completed_requests_by_not_expiring iter now later =
     (case setup_piece_block_tracker of (pbt, torrent, _) \<Rightarrow>
      case generate_assignments iter now torrent (gen_availiable_piece_to_peers torrent) pbt of
        None \<Rightarrow> False
      | Some (assignments, pbt) \<Rightarrow>
          assignments \<noteq> [] \<and>
          (case finish_requests assignments pbt of
             None \<Rightarrow> False
           | Some pbt \<Rightarrow> fst (remove_expired later pbt) = []))"

definition correctly_expires_incompleted_requests_by_expiring ::
  "(internal_peer_id set \<Rightarrow> internal_peer_id list) \<Rightarrow> (u32 \<Rightarrow> instant) \<Rightarrow> instant \<Rightarrow> bool" where
  "correctly_expires_incompleted_requests_by_expiring iter now later =
     (case setup_piece_block_tracker of (pbt, torrent, _) \<Rightarrow>
      case generate_assignments iter now torrent (gen_availiable_piece_to_peers torrent) pbt of
        None \<Rightarrow> False
      | Some (assignments, pbt) \<Rightarrow> assignments \<noteq> [] \<and> length (fst (remove_expired later pbt)) = 2)"

text \<open>The loop of the last test: the requests of one round are finished at the start of the next.\<close>

fun threshold_rounds ::
  "(internal_peer_id set \<Rightarrow> internal_peer_id list) \<Rightarrow> (u32 \<Rightarrow> instant) \<Rightarrow> v1_torrent \<Rightarrow>
     (u32, internal_peer_id set) btree \<Rightarrow> nat \<Rightarrow> peer_requested_piece set \<Rightarrow> peer_requested_piece list \<Rightarrow>
     piece_block_tracker \<Rightarrow> bool"
where
  "threshold_rounds iter now torrent available 0 requests_made ack_reqs pbt = True"
| "threshold_rounds iter now torrent available (Suc n) requests_made ack_reqs pbt =
     (case Option.bind (finish_requests ack_reqs pbt) (generate_assignments iter now torrent available) of
        None \<Rightarrow> False
      | Some (assignments, pbt) \<Rightarrow>
          assignments \<noteq> [] \<and> distinct assignments \<and> set assignments \<inter> requests_made = {} \<and>
          threshold_rounds iter now torrent available n (requests_made \<union> set assignments) assignments pbt)"

definition correctly_assigns_pieces_when_hitting_threshold ::
  "(internal_peer_id set \<Rightarrow> internal_peer_id list) \<Rightarrow> (u32 \<Rightarrow> instant) \<Rightarrow> bool" where
  "correctly_assigns_pieces_when_hitting_threshold iter now =
     (case setup_piece_block_tracker of (pbt, torrent, requests_per_piece) \<Rightarrow>
      threshold_rounds iter now torrent (gen_availiable_piece_to_peers torrent) requests_per_piece {} [] pbt)"

section \<open>The tests of the allocation\<close>

text \<open>The two tests differ in the number of the piece.\<close>

definition create_correct_request ::
  "(internal_peer_id set \<Rightarrow> internal_peer_id list) \<Rightarrow> u32 \<Rightarrow> bool" where
  "create_correct_request iter piece_id =
     (let torrent = torrent_fixture (replicate 20 1); peer_id = replicate 20 2 in
      case piece_block_allocation_new piece_id torrent (iter {peer_id}) empty_block_map 1024 of
        Some (Some requests_to_make, _) \<Rightarrow>
          requests_to_make \<noteq> [] \<and>
          requests_to_make ! 0 =
            \<lparr>req_peer_id = peer_id, req_index = piece_id, req_begin = 0, req_length = as_u32 PIECE_BLOCK_SIZE\<rparr> \<and>
          last requests_to_make =
            \<lparr>req_peer_id = peer_id, req_index = piece_id, req_begin = 5111808, req_length = 8192\<rparr>
      | _ \<Rightarrow> False)"

definition create_correct_request_first_piece :: "(internal_peer_id set \<Rightarrow> internal_peer_id list) \<Rightarrow> bool" where
  "create_correct_request_first_piece iter = create_correct_request iter 0"

definition create_correct_request_last_piece :: "(internal_peer_id set \<Rightarrow> internal_peer_id list) \<Rightarrow> bool" where
  "create_correct_request_last_piece iter = create_correct_request iter 1"

section \<open>The model passes them\<close>

lemma fixture_ok: "torrent_ok (torrent_fixture h)"
  by (simp add: torrent_ok_def torrent_fixture_def torrent_fixture_impl_def torrent_wf_def Let_def i64_as_usize_def)

lemma fixture_size: "k = 0 \<or> k = 1 \<Longrightarrow> assigned_size (torrent_fixture h) k = 5120000"
  by (auto simp: assigned_size_def torrent_fixture_def torrent_fixture_impl_def allocate_torrent_def i64_as_usize_def usize_sub_def
      usize_mul_def usize_max_def Let_def)

definition setup_torrent :: v1_torrent where
  "setup_torrent = fst (snd setup_piece_block_tracker)"

lemma setup_ok: "torrent_ok setup_torrent"
  by (simp add: torrent_ok_def setup_torrent_def setup_piece_block_tracker_def torrent_fixture_impl_def torrent_wf_def Let_def
      i64_as_usize_def PIECE_BLOCK_SIZE_def)

lemma setup_size: "k = 0 \<or> k = 1 \<Longrightarrow> assigned_size setup_torrent k = 65536"
  by (auto simp: assigned_size_def setup_torrent_def setup_piece_block_tracker_def torrent_fixture_impl_def allocate_torrent_def
      i64_as_usize_def usize_sub_def usize_mul_def usize_max_def Let_def PIECE_BLOCK_SIZE_def)

lemma setup_begins: "block_begins 65536 = [0, 16384, 32768, 49152]"
  by (simp add: block_begins_def PIECE_BLOCK_SIZE_def upt_rec)

lemma iter_single: "hash_iteration iter \<Longrightarrow> iter {x} = [x]"
  using hash_iteration.set_iter [of iter "{x}"] hash_iteration.distinct_iter [of iter "{x}"]
  by (cases "iter {x}") (auto simp: subset_singleton_iff)

lemma alloc_tests_pass:
  assumes iter: "hash_iteration iter"
  shows "create_correct_request_first_piece iter" "create_correct_request_last_piece iter"
proof -
  have begins: "block_begins 5120000 = 0 # map (\<lambda>k. k * PIECE_BLOCK_SIZE) [1..<312] @ [5111808]"
  proof -
    have "[0..<Suc n] = 0 # [1..<n] @ [n]" if "1 \<le> n" for n
      using that upt_conv_Cons [of 0 "Suc n"] upt_Suc_append [of 1 n] by simp
    from this [of 312] have "[0..<313] = 0 # [1..<312] @ [312]" by simp
    then show ?thesis by (simp only: block_begins_def PIECE_BLOCK_SIZE_def) simp
  qed
  have "create_correct_request iter k" if k: "k = 0 \<or> k = 1" for k
    unfolding create_correct_request_def Let_def iter_single [OF iter] piece_block_allocation_eq [OF fixture_ok]
    by (simp add: fixture_size [OF k] fresh_blocks_def contains_inprogress_def empty_block_map_def visit_req_map_def bt_empty_def
        begins mk_request_def PIECE_BLOCK_SIZE_def)
  then show "create_correct_request_first_piece iter" "create_correct_request_last_piece iter"
    by (simp_all add: create_correct_request_first_piece_def create_correct_request_last_piece_def)
qed

lemma available_peers: "length (ti_pieces (t_info torrent)) = 2 \<Longrightarrow>
    gen_availiable_piece_to_peers torrent = [(0, {replicate 10 0}), (1, {replicate 10 0})]"
  by (cases "ti_pieces (t_info torrent)"; cases "tl (ti_pieces (t_info torrent))")
    (auto simp: gen_availiable_piece_to_peers_def bt_empty_def Let_def)

text \<open>One round of assignments on the two pieces, from any tracker.\<close>

lemmas tracker_eval = assigned_def downloading_requests_len_def ptb_downloading_requests_len_def fresh_blocks_def
  contains_inprogress_def visit_req_map_def mk_request_def inprogress_insert_def ptb_insert_request_def bt_empty_def
  tracker_new_def empty_block_map_def Let_def

lemma setup_eq: "setup_piece_block_tracker = (tracker_new 2 (ti_pieces (t_info setup_torrent)), setup_torrent, 4)"
  "length (ti_pieces (t_info setup_torrent)) = 2"
  by (simp_all add: setup_torrent_def setup_piece_block_tracker_def torrent_fixture_impl_def Let_def)

lemma two_pieces: "{0..<2 :: nat} = {0, 1}"
  by auto

lemmas round_eval = assign_piece_eq [OF setup_ok] setup_eq(2) setup_size setup_begins two_pieces tracker_eval

lemma setup_tests_pass:
  assumes iter: "hash_iteration iter" and later: "now 0 + 11 * 10 ^ 9 \<le> later"
  shows "correctly_expires_incompleted_requests_by_expiring iter now later"
    "correctly_expires_completed_requests_by_not_expiring iter now later"
    "correctly_assigns_pieces_when_hitting_threshold iter now"
proof -
  note defs = setup_eq(1) available_peers [OF setup_eq(2)]
  show "correctly_expires_incompleted_requests_by_expiring iter now later"
    using later
    by (simp add: correctly_expires_incompleted_requests_by_expiring_def defs iter_single [OF iter] round_eval
        remove_expired_def inprogress_remove_expired_def checked_duration_since_def)
  show "correctly_expires_completed_requests_by_not_expiring iter now later"
    using later
    by (simp add: correctly_expires_completed_requests_by_not_expiring_def defs iter_single [OF iter] round_eval
        set_request_finished_def ptb_set_request_finished_def set_started_def
        remove_expired_def inprogress_remove_expired_def checked_duration_since_def)
  have "threshold_rounds iter now setup_torrent [(0, {replicate 10 0}), (1, {replicate 10 0})] (Suc (Suc (Suc (Suc 0)))) {} []
      (tracker_new 2 (ti_pieces (t_info setup_torrent)))"
    by (simp add: iter_single [OF iter] round_eval set_request_finished_def ptb_set_request_finished_def set_started_def)
  moreover have "Suc (Suc (Suc (Suc 0))) = 4" by simp
  ultimately show "correctly_assigns_pieces_when_hitting_threshold iter now"
    by (simp only: correctly_assigns_pieces_when_hitting_threshold_def defs prod.case)
qed

lemma fixture_test_passes:
  assumes iter: "hash_iteration iter"
  shows "correctly_assigns_pieces_when_not_hitting_threshold iter now"
proof -
  let ?T = "torrent_fixture (replicate 20 1)"
  have two: "length (ti_pieces (t_info ?T)) = 2"
    by (simp add: torrent_fixture_def torrent_fixture_impl_def Let_def)
  have "block_begins 5120000 = 0 # 16384 # map (\<lambda>k. k * PIECE_BLOCK_SIZE) [2..<313]"
    using upt_conv_Cons [of 0 313] upt_conv_Cons [of 1 313]
    by (simp add: block_begins_def PIECE_BLOCK_SIZE_def numeral_2_eq_2 del: upt_rec_numeral)
  then show ?thesis
    by (simp add: correctly_assigns_pieces_when_not_hitting_threshold_def iter_single [OF iter] assign_piece_eq [OF fixture_ok]
        available_peers [OF two] fixture_size two two_pieces tracker_eval outstanding_pieces_len_def ptb_pieces_def bt_keys_def
        del: upt_rec_numeral)
qed

end
