(* ===== verification/Execution.thy ===== *)
theory Execution
  imports Loop_Properties Tracker_Tests
begin

text \<open>
  The step relation of the loop as a function of the label: every event has at most one outcome
  (\<open>exec_step_iff\<close>), so a run is a list of events that can be evaluated (\<open>exec_run_iff\<close>). \<open>fair_run\<close> is a run in which the peers send a
  block only as the answer to a request they were sent, each request answered at most once and
  with the torrent's bytes, however late. The last part sets up a torrent of one piece in four blocks on which
  whole runs evaluate.
\<close>

section \<open>Executing the steps\<close>

text \<open>The step of a label is a function: what the loop does with it, or nothing if it cannot take it.\<close>

fun exec_event ::
  "'io torrent_io_ops \<Rightarrow> bytes_api \<Rightarrow> (internal_peer_id set \<Rightarrow> internal_peer_id list) \<Rightarrow> event \<Rightarrow>
     'io processor \<Rightarrow> 'io processor option"
where
  "exec_event ops A iter (ChannelCloses c) pr =
     (if c < length (pr_channels pr)
      then Some (pr\<lparr>pr_channels := (pr_channels pr)[c := (pr_channels pr ! c)\<lparr>ch_open := False\<rparr>]\<rparr>) else None)"
| "exec_event ops A iter (PeerStarts p is_open) pr =
     (if pr_loop pr = Looping then Some (accept_peer A p is_open pr) else None)"
| "exec_event ops A iter (TimerTicks now) pr =
     (if pr_loop pr = Looping then Some (timer_tick iter now pr) else None)"
| "exec_event ops A iter (WakeReceived now) pr =
     (case pr_wakeups pr of
        [] \<Rightarrow> None
      | msg # rest \<Rightarrow>
          if pr_loop pr = Looping then Some (process_wakeup ops iter now msg (pr\<lparr>pr_wakeups := rest\<rparr>)) else None)"
| "exec_event ops A iter (PeerSends i msg) pr =
     (if pr_loop pr = Looping \<and> i < length (pr_handlers pr) \<and> h_status (pr_handlers pr ! i) = Idle
      then Some (deliver ops i msg pr) else None)"
| "exec_event ops A iter (PeerHangsUp i) pr =
     (if pr_loop pr = Looping \<and> i < length (pr_handlers pr) \<and> h_status (pr_handlers pr ! i) = Idle
      then Some (set_status i Returned pr) else None)"
| "exec_event ops A iter (HandlerDone i) pr =
     (if pr_loop pr = Looping \<and> i < length (pr_handlers pr) \<and> h_status (pr_handlers pr ! i) = Returned
      then Some (reap_handler i pr) else None)"
| "exec_event ops A iter (WriteAnswered i) pr =
     (if pr_loop pr = Looping \<and> i < length (pr_handlers pr) then
        (case h_status (pr_handlers pr ! i) of
           Writing index begin res \<Rightarrow> Some (write_answered i index begin res pr)
         | _ \<Rightarrow> None)
      else None)"
| "exec_event ops A iter (WakeSent i) pr =
     (if pr_loop pr = Looping \<and> i < length (pr_handlers pr) \<and> length (pr_wakeups pr) < wakeup_capacity then
        (case h_status (pr_handlers pr ! i) of
           Waking msg \<Rightarrow> Some (set_status i Idle (pr\<lparr>pr_wakeups := pr_wakeups pr @ [msg]\<rparr>))
         | _ \<Rightarrow> None)
      else None)"

lemma exec_step_iff: "exec_event ops A iter ev pr = Some pr' \<longleftrightarrow> processor_step ops A iter pr ev pr'"
proof
  assume "exec_event ops A iter ev pr = Some pr'"
  then show "processor_step ops A iter pr ev pr'"
    by (cases ev) (auto intro: processor_step.intros split: if_splits list.splits handler_status.splits)
next
  assume "processor_step ops A iter pr ev pr'"
  then show "exec_event ops A iter ev pr = Some pr'" by cases simp_all
qed

fun exec_run ::
  "'io torrent_io_ops \<Rightarrow> bytes_api \<Rightarrow> (internal_peer_id set \<Rightarrow> internal_peer_id list) \<Rightarrow> event list \<Rightarrow>
     'io processor \<Rightarrow> 'io processor option"
where
  "exec_run ops A iter [] pr = Some pr"
| "exec_run ops A iter (ev # evs) pr = Option.bind (exec_event ops A iter ev pr) (exec_run ops A iter evs)"

lemma exec_run_iff: "exec_run ops A iter evs pr = Some pr' \<longleftrightarrow> run (processor_step ops A iter) pr evs pr'"
proof (induction evs arbitrary: pr)
  case (Cons ev evs)
  then show ?case
    by (auto simp: bind_eq_Some_conv exec_step_iff intro: run_Cons elim: run_ConsE)
qed (auto intro: run_Nil elim: run_NilE)

section \<open>Fair answers\<close>

text \<open>
  The answers sent so far, as the requests they answer with the channel of each. A block is fair if it has
  the torrent's bytes and there are more requests for it on its peer's channel than answers.
\<close>

fun answer_to :: "'io processor \<Rightarrow> event \<Rightarrow> (nat \<times> messages) list" where
  "answer_to pr (PeerSends i (Piece k b block)) = [(h_conn (pr_handlers pr ! i), Request k b (as_u32 (length block)))]"
| "answer_to pr _ = []"

fun fair_event :: "bytes list \<Rightarrow> (nat \<times> messages) list \<Rightarrow> 'io processor \<Rightarrow> event \<Rightarrow> bool" where
  "fair_event data sent pr (PeerSends i (Piece k b block)) =
     (let c = h_conn (pr_handlers pr ! i); request = Request k b (as_u32 (length block)) in
      count_list sent (c, request) < count_list (ch_messages (pr_channels pr ! c)) request \<and>
      unat k < length data \<and> block = take (length block) (drop (unat b) (data ! unat k)))"
| "fair_event data sent pr _ = True"

fun fair_run ::
  "bytes list \<Rightarrow> 'io torrent_io_ops \<Rightarrow> bytes_api \<Rightarrow> (internal_peer_id set \<Rightarrow> internal_peer_id list) \<Rightarrow>
     event list \<Rightarrow> (nat \<times> messages) list \<times> 'io processor \<Rightarrow> ((nat \<times> messages) list \<times> 'io processor) option"
where
  "fair_run data ops A iter [] st = Some st"
| "fair_run data ops A iter (ev # evs) (sent, pr) =
     (if fair_event data sent pr ev
      then Option.bind (exec_event ops A iter ev pr) (\<lambda>pr'. fair_run data ops A iter evs (answer_to pr ev @ sent, pr'))
      else None)"

lemma fair_run_append: "fair_run data ops A iter (es @ fs) st = Option.bind (fair_run data ops A iter es st) (fair_run data ops A iter fs)"
proof (induction es arbitrary: st)
  case (Cons e es)
  then show ?case by (cases st) (auto split: Option.bind_splits)
qed simp

lemma fair_run_run: "fair_run data ops A iter evs (sent, pr) = Some (sent', pr') \<Longrightarrow> run (processor_step ops A iter) pr evs pr'"
proof (induction evs arbitrary: sent pr)
  case (Cons ev evs)
  then show ?case by (auto simp: bind_eq_Some_conv exec_step_iff split: if_splits intro: run_Cons)
qed (auto intro: run_Nil)

section \<open>What a new channel starts with\<close>

lemma step_new_channel:
  assumes A: "bytes_laws A" and iter: "hash_iteration iter" and inv: "processor_inv torrent max_out pr"
    and step: "processor_step ops A iter pr ev pr'"
    and c: "length (pr_channels pr) \<le> c" "c < length (pr_channels pr')" "m \<in> set (ch_messages (pr_channels pr' ! c))"
  shows "(\<exists>bf. m = BitField bf) \<or> m = Flag Choke \<or> m = Flag NotInterested"
  using step
proof cases
  case (peer_starts p is_open)
  let ?c = "length (pr_channels pr)"
  obtain bf where "pr_channels pr' = send_all [(?c, BitField bf), (?c, Flag Choke), (?c, Flag NotInterested)]
      (pr_channels pr @ [\<lparr>ch_messages = [], ch_open = is_open\<rparr>])"
    using accept_peer_channels [OF A inv] peer_starts by blast
  then show ?thesis
    using c by (auto simp: send_all_messages nth_append simp del: send_all_simps split: if_splits)
next
  case (wake_received msg rest now)
  have "processor_inv torrent max_out (pr\<lparr>pr_wakeups := rest\<rparr>)" using inv by (simp add: processor_inv_def)
  from wake_appends [OF iter this, of ops now msg] have False
    using c wake_received process_wakeup_spec [OF \<open>processor_inv torrent max_out (pr\<lparr>pr_wakeups := rest\<rparr>)\<close>, of iter now msg ops]
    by (auto simp: wake_post_def Let_def)
  then show ?thesis ..
next
  case (peer_sends i msg)
  let ?h = "pr_handlers pr ! i"
  obtain status s chs io where h: "handle_msg ops (h_peer ?h) (h_conn ?h) msg (pr_state pr, pr_channels pr, pr_io pr) =
      (status, s, chs, io)" by (metis prod_cases4)
  then have "length (pr_channels pr') = length (pr_channels pr)"
    using handle_msg_spec [OF h] peer_sends by (auto simp: deliver_def Let_def set_status_def)
  then show ?thesis using c by simp
next
  case (timer_ticks now)
  then show ?thesis using c by (auto simp: timer_tick_eq [OF iter] Let_def split: prod.splits if_splits)
next
  case (write_answered i index off res)
  then show ?thesis using c by (auto simp: write_answered_def set_status_def split: prod.splits)
qed (use c in \<open>auto simp: set_status_def reap_handler_def Let_def\<close>)

section \<open>One piece of four blocks\<close>

definition late_torrent :: v1_torrent where
  "late_torrent = \<lparr>t_info = \<lparr>ti_length = 65536, ti_piece_length = 65536, ti_pieces = [\<lparr>piece_hash = []\<rparr>],
     ti_name = [], ti_info_hash = []\<rparr>, t_announce = [], t_announce_list = []\<rparr>"

definition late0 :: "memory_torrent_io processor" where
  "late0 = processor_new default_config late_torrent [memory_from (replicate 65536 0)]"

lemma late_torrent_facts: "torrent_ok late_torrent" "assigned_size late_torrent 0 = 65536"
  "ti_pieces (t_info late_torrent) = [\<lparr>piece_hash = []\<rparr>]"
  by (simp_all add: torrent_ok_def late_torrent_def torrent_wf_def Let_def i64_as_usize_def assigned_size_def allocate_torrent_def
      usize_sub_def usize_mul_def usize_max_def)

lemma late0_init: "processor_init late_torrent 128 late0"
  unfolding processor_init_def late0_def
  using late_torrent_facts(1) by (intro conjI exI [of _ default_config] exI) (simp_all add: default_config_def)

lemma length_copy_block [simp]: "length (copy_block mem b block) = length mem"
proof -
  have "length (fold (\<lambda>(idx, ele) m. m[idx + b := ele]) xs m) = length m" for xs :: "(nat \<times> u8) list" and m
    by (induction xs arbitrary: m) (auto simp: case_prod_beta)
  then show ?thesis by (simp add: copy_block_def)
qed

lemma sorted_iter_two: "sorted_iter {[0], [1]} = [[0], [1]]" "sorted_iter {[1], [0]} = [[0], [1]]"
  by (simp_all add: sorted_iter_def)

text \<open>What the simplifier needs to execute an event.\<close>

lemmas loop_eval = processor_new_def accept_peer_def init_connection_def put_bit_set_def put_bit_def writer_new_def usize_sub_def
  u32_add_def list_bytes_eval send_def torrent_state_new_def deliver_def set_status_def add_pieces_for_peer_def add_peer_id_def
  our_interest_def peer_interest_def ppm_add_piece_def tell_interest_def wakeup_capacity_def default_config_def interest_msg_def
  process_wakeup_def prune_closed_tx_def wakeup_action_def compute_requests_for_download_def piece_id_to_peers_def
  peers_that_choke_def peer_set_def get_incomplete_pieces_def ptb_pieces_def bt_keys_def get_peers_with_piece_def bt_collect_def
  dequeue_requests_def set_peer_choked_us_def default_peer_state_def PIECE_BLOCK_SIZE_def
  timer_tick_eq [OF sorted_iter.hash_iteration_axioms] remove_expired_def inprogress_remove_expired_def checked_duration_since_def
  assign_piece_eq [OF late_torrent_facts(1)] late_torrent_facts(2,3) setup_begins tracker_eval sorted_iter_two

lemmas write_eval = io_handler_write_def io_handler_task_def memory_ops_def memory_write_piece_def usize_add_def usize_max_def
  memory_from_def slices_insert_eq ins_spec_def ins_at_def ins_left_def ins_right_def is_complete_def slices_new_def
  write_answered_def finish_write_def set_request_finished_def ptb_set_request_finished_def set_started_def

text \<open>A peer connects, has the piece and unchokes us.\<close>

definition joins :: "nat \<Rightarrow> internal_peer_id \<Rightarrow> event list" where
  "joins i p = [PeerStarts p True, PeerSends i (Have 0), WakeSent i, WakeReceived (\<lambda>_. 0),
     PeerSends i (Flag Unchoke), WakeSent i, WakeReceived (\<lambda>_. 0)]"

text \<open>A peer sends a block.\<close>

definition block_arrives :: "nat \<Rightarrow> u32 \<Rightarrow> event list" where
  "block_arrives i b =
     [PeerSends i (Piece 0 b (replicate 16384 0)), WriteAnswered i, WakeSent i, WakeReceived (\<lambda>_. 10 ^ 10)]"

end
