(* ===== verification/Late_Answers.thy ===== *)
theory Late_Answers
  imports Honest_Peers Execution
begin

text \<open>
  Why \<open>Download\<close> assumes that no request is given up: a peer that answers after the request has expired and was
  given to another peer makes a block arrive twice, and the record of the piece shrinks when it does
  (\<open>Slices\<close>). The tracker (\<open>src/peer/state/piece.rs\<close>) then has every block of the piece as done while the store does not
  report it as finished. No request for the piece is made any more, and no answer to a
  request can complete it. The second part is a run in which this happens between two peers that send only
  the torrent's bytes, each of them one answer to each request.
\<close>

section \<open>A stalled piece\<close>

text \<open>Every block of the piece is done in the tracker, the piece is not, and nobody is writing to it.\<close>

definition stalled :: "v1_torrent \<Rightarrow> u32 \<Rightarrow> 'io processor \<Rightarrow> bool" where
  "stalled torrent k pr \<longleftrightarrow>
     (let t = ts_tracking (pr_state pr) in
      k \<notin> pieces_completed t \<and> {k} \<times> UNIV \<inter> in_flight (started t) = {} \<and>
      {k} \<times> as_u32 ` set (block_begins (assigned_size torrent k)) \<subseteq> finished_blocks (started t) \<and>
      k \<notin> fst ` writing (pr_handlers pr))"

lemma stalled_facts:
  assumes "stalled torrent k pr"
  shows "k \<notin> pieces_completed (ts_tracking (pr_state pr))" "(k, b) \<notin> in_flight (started (ts_tracking (pr_state pr)))"
    "x \<in> {k} \<times> as_u32 ` set (block_begins (assigned_size torrent k)) \<Longrightarrow> x \<in> finished_blocks (started (ts_tracking (pr_state pr)))"
    "(k, b) \<notin> writing (pr_handlers pr)"
  using assms unfolding stalled_def Let_def by (blast, blast, blast, force)

text \<open>What keeps a piece stalled: the same entries for it in the tracker, and no new write.\<close>

definition keeps_piece :: "u32 \<Rightarrow> piece_block_tracker \<Rightarrow> piece_block_tracker \<Rightarrow> bool" where
  "keeps_piece k t t' \<longleftrightarrow>
     (k \<in> pieces_completed t' \<longrightarrow> k \<in> pieces_completed t) \<and>
     {k} \<times> UNIV \<inter> in_flight (started t') \<subseteq> in_flight (started t) \<and>
     {k} \<times> UNIV \<inter> finished_blocks (started t) \<subseteq> finished_blocks (started t')"

lemma keeps_piece_refl [simp]: "keeps_piece k t t"
  by (simp add: keeps_piece_def)

lemma stalled_kept:
  assumes "stalled torrent k pr" "keeps_piece k (ts_tracking (pr_state pr)) (ts_tracking (pr_state pr'))"
    and "k \<in> fst ` writing (pr_handlers pr') \<longrightarrow> k \<in> fst ` writing (pr_handlers pr)"
  shows "stalled torrent k pr'"
  using assms unfolding stalled_def keeps_piece_def Let_def by blast

lemma drop_requests_finished: "finished_blocks (started (drop_requests rs t)) = finished_blocks (started t)"
proof (induction rs arbitrary: t)
  case (Cons r rs)
  have "finished_blocks (started (snd (remove_request r t))) = finished_blocks (started t)"
    by (auto simp: remove_request_def ptb_remove_downloading_request_def set_started_def finished_blocks_def
        split: option.splits prod.splits)
  then show ?case using Cons by simp
qed simp

lemma writing_update:
  assumes "\<And>k b r. st = Writing k b r \<Longrightarrow> k \<noteq> x"
  shows "x \<in> fst ` writing (hs[i := h\<lparr>h_status := st\<rparr>]) \<longrightarrow> x \<in> fst ` writing hs"
proof
  assume "x \<in> fst ` writing (hs[i := h\<lparr>h_status := st\<rparr>])"
  then obtain b r h' where h': "h' \<in> set (hs[i := h\<lparr>h_status := st\<rparr>])" "h_status h' = Writing x b r"
    by (auto simp: writing_def)
  then have "h' \<in> set hs" using set_update_subset_insert assms by fastforce
  then show "x \<in> fst ` writing hs" using h'(2) by (force simp: writing_def)
qed

text \<open>A round of assignments asks for no block that is done.\<close>

lemma wake_keeps_piece:
  assumes inv: "processor_inv torrent max_out pr" and stall: "stalled torrent k pr"
    and pr'_def: "pr' = process_wakeup ops iter now m pr"
  shows "keeps_piece k (ts_tracking (pr_state pr)) (ts_tracking (pr_state pr'))" "pr_handlers pr' = pr_handlers pr"
proof -
  let ?t = "ts_tracking (pr_state pr)"
  have ok: "torrent_ok torrent" "pr_torrent pr = torrent" "tracker_inv (length (ti_pieces (t_info torrent))) ?t"
    "tracker_good torrent max_out ?t"
    using inv by (auto simp: processor_inv_def tracker_good_def)
  obtain reqs t1 ann served q io where post: "wake_post iter now m pr pr' reqs t1 ann served q io"
    using process_wakeup_spec [OF inv] unfolding pr'_def by blast
  note w = post [unfolded wake_post_def Let_def ok(2)]
  from generate_assignments_spec [OF ok(1,3), of iter now "piece_id_to_peers (pr_state pr)"] w
  have g: "in_flight (started t1) = req_key ` set reqs \<union> in_flight (started ?t)"
    "finished_blocks (started t1) = finished_blocks (started ?t)" "pieces_completed t1 = pieces_completed ?t"
    "req_key ` set reqs \<inter> (in_flight (started ?t) \<union> finished_blocks (started ?t)) = {}"
    "\<forall>r \<in> set reqs. request_ok torrent iter (piece_id_to_peers (pr_state pr)) r"
    "tracker_inv (length (ti_pieces (t_info torrent))) t1"
    "pbt_max_outstanding_requests t1 = pbt_max_outstanding_requests ?t" by auto
  have other: "req_index r \<noteq> k" if r: "r \<in> set reqs" for r
  proof
    assume k: "req_index r = k"
    then have "(req_begin r, req_length r) \<in> set (piece_blocks (assigned_size torrent k))"
      using g(5) r by (auto simp: request_ok_def)
    then have "req_key r \<in> {k} \<times> as_u32 ` set (block_begins (assigned_size torrent k))"
      using k by (auto simp: piece_blocks_def req_key_def)
    then have "req_key r \<in> finished_blocks (started ?t)" by (rule stalled_facts(3) [OF stall])
    then show False using g(4) r by blast
  qed
  have "tracker_good torrent max_out t1" using ok(4) g(6,7) by (simp add: tracker_good_def)
  note d = drop_requests_facts [OF this, of "filter (\<lambda>r. \<not> sendable (prune_closed_tx (pr_channels pr) (pr_peer_to_tx pr)) (pr_channels pr) r) reqs"]
  have track: "ts_tracking (pr_state pr') =
      drop_requests (filter (\<lambda>r. \<not> sendable (prune_closed_tx (pr_channels pr) (pr_peer_to_tx pr)) (pr_channels pr) r) reqs) t1"
    using w by simp
  show "keeps_piece k ?t (ts_tracking (pr_state pr'))"
    unfolding track keeps_piece_def drop_requests_finished
    using d g(1-3) other by (auto simp: req_key_def)
  show "pr_handlers pr' = pr_handlers pr" using w by simp
qed

lemma finish_keeps_piece:
  assumes good: "tracker_good torrent max_out t" and other: "j \<noteq> k"
  shows "keeps_piece k t (snd (set_request_finished j b t))" "keeps_piece k t (set_piece_finished j t)"
proof -
  have maps: "maps_ok (started t)" using good by (simp add: tracker_good_def tracker_inv_def)
  obtain r t' where r: "set_request_finished j b t = (r, t')" by fastforce
  show "keeps_piece k t (snd (set_request_finished j b t))"
    using set_request_finished_spec [OF maps r] by (auto simp: r keeps_piece_def set_started_def split: if_splits)
  have wf: "nested_wf (downloading (started t))" "nested_wf (blocks_done (started t))"
    using maps by (simp_all add: maps_ok_def)
  show "keeps_piece k t (set_piece_finished j t)"
    using other wf by (auto simp: keeps_piece_def set_piece_finished_def ptb_remove_piece_def in_flight_def finished_blocks_def
        split: if_splits)
qed

lemma stalled_step:
  assumes A: "bytes_laws A" and iter: "hash_iteration iter" and inv: "processor_inv torrent max_out pr"
    and stall: "stalled torrent k pr" and step: "processor_step ops A iter pr ev pr'"
    and ok: "\<And>i b block. ev \<noteq> PeerSends i (Piece k b block)"
  shows "stalled torrent k pr'"
proof -
  have good: "tracker_good torrent max_out (ts_tracking (pr_state pr))" and si: "state_inv (pr_state pr)"
    using inv by (simp_all add: processor_inv_def)
  from step show ?thesis
  proof cases
    case (peer_starts p is_open)
    obtain hs where "ts_tracking (pr_state (accept_peer A p is_open pr)) = ts_tracking (pr_state pr)"
      "pr_handlers (accept_peer A p is_open pr) = pr_handlers pr @ hs" "\<forall>h \<in> set hs. h_status h = Idle"
      using accept_peer_eq [OF A inv, of p is_open] that [of "[]"]
      by (cases is_open) (auto simp: Let_def simp del: send_all_simps)
    then have "ts_tracking (pr_state pr') = ts_tracking (pr_state pr)" "writing (pr_handlers pr') = writing (pr_handlers pr)"
      by (auto simp: peer_starts(2) writing_def)
    then show ?thesis using stall by (simp add: stalled_def)
  next
    case (peer_sends i msg)
    let ?h = "pr_handlers pr ! i"
    obtain status s chs io where h: "handle_msg ops (h_peer ?h) (h_conn ?h) msg (pr_state pr, pr_channels pr, pr_io pr) =
        (status, s, chs, io)" using prod_cases4 by blast
    have pr': "ts_tracking (pr_state pr') = ts_tracking (pr_state pr)"
      "pr_handlers pr' = (pr_handlers pr)[i := ?h\<lparr>h_status := status\<rparr>]"
      using handle_msg_spec [OF h] by (simp_all add: peer_sends deliver_def Let_def h set_status_def)
    have "j \<noteq> k" if "status = Writing j b r" for j b r
    proof -
      have "\<exists>blk. msg = Piece j b blk" using h that
        by (cases msg) (auto simp: tell_interest_def Let_def split: prod.splits option.splits if_splits bool.splits)
      then show ?thesis using ok peer_sends by auto
    qed
    then show ?thesis
      using writing_update [of status k] by (intro stalled_kept [OF stall]) (simp_all add: pr')
  next
    case (write_answered i j b r)
    have "(j, b) \<in> writing (pr_handlers pr)"
      using write_answered(4,5) nth_mem unfolding writing_def by fastforce
    then have j: "j \<noteq> k" using stalled_facts(4) [OF stall, of b] by auto
    obtain status s where f: "finish_write j b r (pr_state pr) = (status, s)" by fastforce
    have "keeps_piece k (ts_tracking (pr_state pr)) (ts_tracking s)" "\<And>k b r. status \<noteq> Writing k b r"
      using f finish_keeps_piece [OF good j] by (auto simp: finish_write_def split: res.splits if_splits)
    then show ?thesis
      using writing_update [of status k] write_answered(2)
      by (intro stalled_kept [OF stall]) (simp_all add: Event_Loop.write_answered_def f set_status_def)
  next
    case (wake_received m rest now)
    have "processor_inv torrent max_out (pr\<lparr>pr_wakeups := rest\<rparr>)" "stalled torrent k (pr\<lparr>pr_wakeups := rest\<rparr>)"
      using inv stall by (simp_all add: processor_inv_def stalled_def)
    note keep = wake_keeps_piece [OF this refl, of ops iter now m]
    show ?thesis by (rule stalled_kept [OF stall]) (use keep wake_received in simp_all)
  next
    case (timer_ticks now)
    obtain reqs t where r: "remove_expired now (ts_tracking (pr_state pr)) = (reqs, t)" by fastforce
    have "maps_ok (started (ts_tracking (pr_state pr)))" using good by (simp add: tracker_good_def tracker_inv_def)
    from remove_expired_spec [OF r this] have "keeps_piece k (ts_tracking (pr_state pr)) t"
      by (auto simp: keeps_piece_def expire_post_def)
    then show ?thesis
      using timer_ticks by (intro stalled_kept [OF stall]) (auto simp: timer_tick_eq [OF iter] r Let_def)
  next
    case (handler_done i)
    have "writing (pr_handlers pr') \<subseteq> writing (pr_handlers pr)"
      using set_take_subset set_drop_subset by (fastforce simp: handler_done reap_handler_def Let_def writing_def remove_at_def)
    then show ?thesis
      using state_remove_facts(3) [OF si] handler_done
      by (intro stalled_kept [OF stall]) (auto simp: reap_handler_def Let_def)
  next
    case (peer_hangs_up i)
    then show ?thesis
      using writing_update [of Returned k] by (intro stalled_kept [OF stall]) (simp_all add: set_status_def)
  next
    case (wake_sent i m)
    then show ?thesis
      using writing_update [of Idle k] by (intro stalled_kept [OF stall]) (simp_all add: set_status_def)
  qed (use stall in \<open>simp add: stalled_def\<close>)
qed

section \<open>Every request for the piece has been answered\<close>

fun asks_for :: "u32 \<Rightarrow> messages \<Rightarrow> bool" where
  "asks_for k (Request j b n) = (j = k)"
| "asks_for k _ = False"

definition all_answered :: "u32 \<Rightarrow> (nat \<times> messages) list \<Rightarrow> 'io processor \<Rightarrow> bool" where
  "all_answered k sent pr \<longleftrightarrow>
     list_all (\<lambda>(c, ch).
       list_all (\<lambda>m. asks_for k m \<longrightarrow> count_list (ch_messages ch) m \<le> count_list sent (c, m)) (ch_messages ch))
     (enumerate 0 (pr_channels pr))"

lemma all_answered_iff:
  "all_answered k sent pr \<longleftrightarrow> (\<forall>c < length (pr_channels pr). \<forall>b n.
     count_list (ch_messages (pr_channels pr ! c)) (Request k b n) \<le> count_list sent (c, Request k b n))"
proof -
  have "(\<forall>m \<in> set ms. asks_for k m \<longrightarrow> count_list ms m \<le> count_list sent (c, m)) \<longleftrightarrow>
      (\<forall>b n. count_list ms (Request k b n) \<le> count_list sent (c, Request k b n))" for ms c
  proof
    assume all: "\<forall>m \<in> set ms. asks_for k m \<longrightarrow> count_list ms m \<le> count_list sent (c, m)"
    have "count_list ms (Request k b n) = 0" if "Request k b n \<notin> set ms" for b n using that by simp
    then show "\<forall>b n. count_list ms (Request k b n) \<le> count_list sent (c, Request k b n)"
      using all by (metis asks_for.simps(1) le0)
  next
    assume all: "\<forall>b n. count_list ms (Request k b n) \<le> count_list sent (c, Request k b n)"
    show "\<forall>m \<in> set ms. asks_for k m \<longrightarrow> count_list ms m \<le> count_list sent (c, m)"
    proof (intro ballI impI)
      fix m assume "asks_for k m"
      then obtain b n where "m = Request k b n" by (cases m) auto
      then show "count_list ms m \<le> count_list sent (c, m)" using all by simp
    qed
  qed
  then have "list_all (\<lambda>m. asks_for k m \<longrightarrow> count_list ms m \<le> count_list sent (c, m)) ms \<longleftrightarrow>
      (\<forall>b n. count_list ms (Request k b n) \<le> count_list sent (c, Request k b n))" for ms c
    by (simp add: list_all_iff)
  then show ?thesis by (simp add: all_answered_def) (simp add: list_all_length nth_enumerate_eq)
qed

lemma all_answeredD:
  "all_answered k sent pr \<Longrightarrow> c < length (pr_channels pr) \<Longrightarrow>
    count_list (ch_messages (pr_channels pr ! c)) (Request k b n) \<le> count_list sent (c, Request k b n)"
  by (simp add: all_answered_iff)

lemma no_new_request:
  assumes A: "bytes_laws A" and iter: "hash_iteration iter" and inv: "processor_inv torrent max_out pr"
    and step: "processor_step ops A iter pr ev pr'" and quiet: "\<And>b. (k, b) \<notin> in_flight (started (ts_tracking (pr_state pr')))"
  obtains new where "appends (pr_channels pr) (pr_channels pr') new" "\<And>c b n. Request k b n \<notin> set (new c)"
proof (cases "\<exists>now. ev = WakeReceived now")
  case True
  then obtain now msg rest where w: "pr' = process_wakeup ops iter now msg (pr\<lparr>pr_wakeups := rest\<rparr>)"
    using step by (auto elim: step_wakeE)
  have "processor_inv torrent max_out (pr\<lparr>pr_wakeups := rest\<rparr>)" using inv by (simp add: processor_inv_def)
  from wake_appends [OF iter this, of ops now msg] obtain new where new: "appends (pr_channels pr) (pr_channels pr') new"
    "\<forall>c i b l. Request i b l \<in> set (new c) \<longrightarrow> (i, b) \<in> in_flight (started (ts_tracking (pr_state pr')))"
    unfolding w by simp blast
  show ?thesis by (rule that [OF new(1)]) (use new(2) quiet in blast)
next
  case False
  then obtain new where "appends (pr_channels pr) (pr_channels pr') new" "\<forall>c. \<forall>m \<in> set (new c). \<not> is_request m"
    using step_appends_no_request [OF A iter inv step] by blast
  then show ?thesis using that [of new] by fastforce
qed

lemma stalled_fair_step:
  assumes A: "bytes_laws A" and iter: "hash_iteration iter" and inv: "processor_inv torrent max_out pr"
    and stall: "stalled torrent k pr" and all: "all_answered k sent pr"
    and fair: "fair_event data sent pr ev" and step: "processor_step ops A iter pr ev pr'"
  shows "stalled torrent k pr'" "all_answered k (answer_to pr ev @ sent) pr'"
proof -
  show stall': "stalled torrent k pr'"
  proof (rule stalled_step [OF A iter inv stall step])
    fix i b block
    show "ev \<noteq> PeerSends i (Piece k b block)"
    proof
      assume ev: "ev = PeerSends i (Piece k b block)"
      then have "h_conn (pr_handlers pr ! i) < length (pr_channels pr)"
        using step inv nth_mem by (force simp: processor_inv_def greeted_def elim!: step_sendsE)
      from all_answeredD [OF all this, of b "as_u32 (length block)"] show False using fair ev by (simp add: Let_def)
    qed
  qed
  obtain new where new: "appends (pr_channels pr) (pr_channels pr') new" "\<And>c b n. Request k b n \<notin> set (new c)"
    using no_new_request [OF A iter inv step] stalled_facts(2) [OF stall'] by blast
  have old: "count_list (ch_messages (pr_channels pr' ! c)) (Request k b n) \<le> count_list sent (c, Request k b n)"
    if c: "c < length (pr_channels pr')" for c b n
  proof (cases "c < length (pr_channels pr)")
    case True
    moreover have "count_list (new c) (Request k b n) = 0" using new(2) by (simp add: count_list_0_iff)
    ultimately show ?thesis using new(1) all_answeredD [OF all True, of b n] by (simp add: appends_def)
  next
    case False
    then have "Request k b n \<notin> set (ch_messages (pr_channels pr' ! c))"
      using step_new_channel [OF A iter inv step _ c, of "Request k b n"] by auto
    then show ?thesis by simp
  qed
  show "all_answered k (answer_to pr ev @ sent) pr'"
    unfolding all_answered_iff using old by (auto intro: trans_le_add2)
qed

lemma stalled_fair_run:
  assumes A: "bytes_laws A" and iter: "hash_iteration iter"
  shows "processor_inv torrent max_out pr \<Longrightarrow> stalled torrent k pr \<Longrightarrow> all_answered k sent pr \<Longrightarrow>
    fair_run data ops A iter evs (sent, pr) = Some (sent', pr') \<Longrightarrow>
    processor_inv torrent max_out pr' \<and> stalled torrent k pr' \<and> all_answered k sent' pr'"
proof (induction evs arbitrary: sent pr)
  case (Cons ev evs)
  then obtain pr1 where fair: "fair_event data sent pr ev" and step: "processor_step ops A iter pr ev pr1"
    and rest: "fair_run data ops A iter evs (answer_to pr ev @ sent, pr1) = Some (sent', pr')"
    by (auto simp: bind_eq_Some_conv exec_step_iff split: if_splits)
  have "processor_inv torrent max_out pr1"
    by (rule invariant_system.step_inv [OF processor_machine [OF A iter] Cons.prems(1) step])
  then show ?case
    using Cons.IH [OF _ _ _ rest] stalled_fair_step [OF A iter Cons.prems(1-3) fair step] by blast
qed simp

section \<open>Two peers and a late answer\<close>

text \<open>
  The first peer is asked for all four blocks and sends the first. A second peer joins. After ten seconds the three
  other requests are given up and made again to the second peer. Then both peers send all they were asked for,
  the first one in another order.
\<close>

definition late_events :: "event list" where
  "late_events = joins 0 [1] @ block_arrives 0 0 @ joins 1 [0] @ [TimerTicks (10 ^ 10), WakeReceived (\<lambda>_. 10 ^ 10)] @
     block_arrives 0 32768 @ block_arrives 1 16384 @ block_arrives 1 32768 @ block_arrives 0 16384 @ block_arrives 0 49152 @
     block_arrives 1 49152"

lemma nothing_in_flight: "bt_get (downloading m) k = Some [] \<Longrightarrow> {k} \<times> UNIV \<inter> in_flight m = {}"
  by (auto simp: in_flight_def visit_req_map_def)

lemma late_run:
  "\<exists>sent pr. fair_run [replicate 65536 0] memory_ops list_bytes sorted_iter late_events ([], late0) = Some (sent, pr) \<and>
     stalled late_torrent 0 pr \<and> all_answered 0 sent pr \<and>
     {(0, Request 0 0 16384), (0, Request 0 16384 16384), (0, Request 0 32768 16384), (0, Request 0 49152 16384)} \<subseteq> set sent"
  by (simp add: late_events_def joins_def block_arrives_def late0_def loop_eval write_eval stalled_def all_answered_def
      writing_def finished_blocks_def nothing_in_flight)

lemma stalled_incomplete:
  assumes "processor_inv torrent max_out pr" "stalled torrent k pr" "unat k < length (ti_pieces (t_info torrent))"
  shows "k \<in> get_incomplete_pieces (ts_tracking (pr_state pr)) - pieces_completed (ts_tracking (pr_state pr))"
proof -
  have "k \<in> as_u32 ` {..<length (ti_pieces (t_info torrent))}" using assms(3) by (intro image_eqI [of _ _ "unat k"]) simp_all
  then show ?thesis
    using assms(1) stalled_facts(1) [OF assms(2)]
    by (auto simp: processor_inv_def tracker_good_def tracker_inv_def get_incomplete_iff)
qed

section \<open>Properties\<close>

text \<open>
  C20. A stalled piece stays stalled. If the tracker has every block of a piece as done without the piece being
  completed, and all requests for the piece are answered, then however a run goes on in which peers
  send a block only as an answer to a request, the piece is never completed, no block of it is
  ever asked for again, and it stays on the list of pieces to download.
\<close>

theorem stalled_piece_never_completes:
  assumes "bytes_laws A" and "hash_iteration iter"
    and "reachable (processor_init torrent max_out) (processor_step ops A iter) pr"
    and "unat k < length (ti_pieces (t_info torrent))" and "stalled torrent k pr" and "all_answered k sent pr"
    and "fair_run data ops A iter evs (sent, pr) = Some (sent', pr')"
  shows "k \<in> get_incomplete_pieces (ts_tracking (pr_state pr')) - pieces_completed (ts_tracking (pr_state pr')) \<and>
    (\<forall>b. (k, b) \<notin> in_flight (started (ts_tracking (pr_state pr'))))"
proof -
  have "processor_inv torrent max_out pr"
    by (rule invariant_system.reachable_inv [OF processor_machine [OF assms(1,2)] assms(3)])
  from stalled_fair_run [OF assms(1,2) this assms(5-7)] show ?thesis
    using stalled_incomplete [OF _ _ assms(4)] stalled_facts(2) by blast
qed

lemma stalled_piece_never_completes_witness:
  "\<exists>sent (pr :: memory_torrent_io processor). stalled late_torrent 0 pr \<and> all_answered 0 sent pr \<and>
     0 \<in> get_incomplete_pieces (ts_tracking (pr_state pr)) - pieces_completed (ts_tracking (pr_state pr))"
proof -
  obtain sent pr where run: "fair_run [replicate 65536 0] memory_ops list_bytes sorted_iter late_events ([], late0) = Some (sent, pr)"
    "stalled late_torrent 0 pr" "all_answered 0 sent pr" using late_run by blast
  have reach: "reachable (processor_init late_torrent 128) (processor_step memory_ops list_bytes sorted_iter) pr"
    by (rule run_reachable [OF fair_run_run [OF run(1)]], rule reachable.start, rule late0_init)
  have k: "unat (0 :: u32) < length (ti_pieces (t_info late_torrent))" by (simp add: late_torrent_facts)
  have none: "fair_run [replicate 65536 0] memory_ops list_bytes sorted_iter [] (sent, pr) = Some (sent, pr)" by simp
  show ?thesis
    using stalled_piece_never_completes [OF list_bytes.bytes_laws_axioms sorted_iter.hash_iteration_axioms reach k run(2,3) none] run(2,3)
    by blast
qed

text \<open>
  C21. A late answer ends the download. There is a run in which the peers send only what they were asked for, each request answered once
  and with the torrent's bytes, and in which nobody leaves, but one request is answered after it was given up and given to
  another peer; at its end every block of the torrent has arrived and every request is answered, and however
  the run goes on with such answers, the torrent's piece is never completed.
\<close>

theorem late_answer_ends_download:
  "\<exists>sent pr. fair_run [replicate 65536 0] memory_ops list_bytes sorted_iter late_events ([], late0) = Some (sent, pr) \<and>
     {(0, Request 0 0 16384), (0, Request 0 16384 16384), (0, Request 0 32768 16384), (0, Request 0 49152 16384)} \<subseteq> set sent \<and>
     all_answered 0 sent pr \<and>
     (\<forall>evs sent' pr'. fair_run [replicate 65536 0] memory_ops list_bytes sorted_iter evs (sent, pr) = Some (sent', pr') \<longrightarrow>
        0 \<notin> pieces_completed (ts_tracking (pr_state pr')))"
proof -
  obtain sent pr where run: "fair_run [replicate 65536 0] memory_ops list_bytes sorted_iter late_events ([], late0) = Some (sent, pr)"
    "stalled late_torrent 0 pr" "all_answered 0 sent pr"
    "{(0, Request 0 0 16384), (0, Request 0 16384 16384), (0, Request 0 32768 16384), (0, Request 0 49152 16384)} \<subseteq> set sent"
    using late_run by blast
  have "processor_inv late_torrent 128 pr"
    by (rule processor.run_inv [OF fair_run_run [OF run(1)] processor.init_inv [OF late0_init]])
  note stuck = stalled_fair_run [OF list_bytes.bytes_laws_axioms sorted_iter.hash_iteration_axioms this run(2,3)]
  have "0 \<notin> pieces_completed (ts_tracking (pr_state pr'))"
    if "fair_run [replicate 65536 0] memory_ops list_bytes sorted_iter evs (sent, pr) = Some (sent', pr')" for evs sent' pr'
    using stuck [OF that] stalled_facts(1) by blast
  then show ?thesis by (intro exI [of _ sent] exI [of _ pr] conjI allI impI) (use run in simp_all)
qed

lemma late_answer_ends_download_witness:
  "\<exists>sent pr. fair_run [replicate 65536 0] memory_ops list_bytes sorted_iter late_events ([], late0) = Some (sent, pr) \<and>
     0 \<notin> pieces_completed (ts_tracking (pr_state pr))"
proof -
  obtain sent pr where run: "fair_run [replicate 65536 0] memory_ops list_bytes sorted_iter late_events ([], late0) = Some (sent, pr)"
    "\<forall>evs sent' pr'. fair_run [replicate 65536 0] memory_ops list_bytes sorted_iter evs (sent, pr) = Some (sent', pr') \<longrightarrow>
       0 \<notin> pieces_completed (ts_tracking (pr_state pr'))"
    using late_answer_ends_download by blast
  moreover have "fair_run [replicate 65536 0] memory_ops list_bytes sorted_iter [] (sent, pr) = Some (sent, pr)" by simp
  ultimately show ?thesis by blast
qed

end
