(* ===== verification/Interest.thy ===== *)
theory Interest
  imports Execution
begin

text \<open>
  \<open>add_pieces_for_peer\<close> (\<open>src/peer/state/mod.rs\<close>) compares what a peer has with the pieces that are not
  started, not with those that are not complete, and a piece is never put back among the former. Once every piece
  has been started, nobody is told that the client is interested, whichever peers come and go and
  however much is still missing.
\<close>

section \<open>Started for good\<close>

lemma assign_not_started:
  assumes "assign_piece now torrent p peers t = Some (reqs, t')"
  shows "pieces_not_started t' \<subseteq> pieces_not_started t"
proof -
  from assms obtain capacity x where "piece_block_allocation_new p torrent peers (started t) capacity = Some x"
    and x: "(case x of (alloc, _) \<Rightarrow> case alloc of
        None \<Rightarrow> Some ([], t)
      | Some reqs \<Rightarrow>
          (let t = (if reqs \<noteq> [] then t\<lparr>pieces_not_started := pieces_not_started t - {p}\<rparr> else t) in
           Some (reqs, t\<lparr>piece_to_blocks_outstanding := fold (inprogress_insert now) reqs (piece_to_blocks_outstanding t)\<rparr>))) =
      Some (reqs, t')"
    unfolding assign_piece_def bind_eq_Some_conv by blast
  then show ?thesis by (cases "fst x") (auto simp: case_prod_beta Let_def split: if_splits)
qed

lemma assignments_not_started:
  "generate_assignments iter now torrent offers t = Some (reqs, t') \<Longrightarrow> pieces_not_started t' \<subseteq> pieces_not_started t"
proof (induction offers arbitrary: t reqs)
  case (Cons x offers)
  obtain p peers where x: "x = (p, peers)" by fastforce
  from Cons.prems obtain rs t1 rs2 where "assign_piece (now p) torrent p (iter peers) t = Some (rs, t1)"
    "generate_assignments iter now torrent offers t1 = Some (rs2, t')"
    by (auto simp: x bind_eq_Some_conv)
  then show ?case using Cons.IH assign_not_started by blast
qed simp

lemma drop_not_started: "pieces_not_started (drop_requests rs t) = pieces_not_started t"
proof (induction rs arbitrary: t)
  case (Cons r rs)
  have "pieces_not_started (snd (remove_request r t)) = pieces_not_started t"
    by (simp add: remove_request_def set_started_def split: prod.split)
  then show ?case using Cons by simp
qed simp

lemma finish_not_started:
  assumes "finish_write k b r s = (status, s')"
  shows "pieces_not_started (ts_tracking s') = pieces_not_started (ts_tracking s)"
  using assms
  by (auto simp: finish_write_def set_piece_finished_def set_request_finished_def set_started_def split: res.splits prod.splits if_splits)

lemma expire_not_started: "remove_expired now t = (reqs, t') \<Longrightarrow> pieces_not_started t' = pieces_not_started t"
  by (auto simp: remove_expired_def split: prod.splits)

section \<open>What is sent when nothing is left to start\<close>

lemma uninterested: "pieces_not_started (ts_tracking s) = {} \<Longrightarrow> \<not> our_interest p s"
  by (simp add: our_interest_def peer_interest_eq)

lemma handler_uninterested:
  assumes h: "handle_msg ops p tx msg (s, chs, io) = (status, s', chs', io')" and none: "pieces_not_started (ts_tracking s) = {}"
  shows "chs' = chs"
proof -
  have quiet: "change = None" if "add_pieces_for_peer p xs s = (change, s1)" for xs change s1
    using add_pieces_spec(1,7) [OF that] uninterested [of s1 p] none by simp
  show ?thesis
  proof (cases msg)
    case (Have i)
    obtain change s1 where add: "add_pieces_for_peer p [i] s = (change, s1)" by fastforce
    then show ?thesis using h quiet [OF add] by (simp add: Have tell_interest_def)
  next
    case (BitField bf)
    obtain change s1 where add: "add_pieces_for_peer p (pieces_present bf) s = (change, s1)" by fastforce
    then show ?thesis using h quiet [OF add] by (simp add: BitField tell_interest_def)
  next
    case (Piece k b blk)
    then show ?thesis using h by (simp split: prod.splits)
  qed (use h in \<open>simp_all add: Let_def\<close>)
qed

lemma uninterested_step:
  assumes A: "bytes_laws A" and iter: "hash_iteration iter" and inv: "processor_inv torrent max_out pr"
    and none: "pieces_not_started (ts_tracking (pr_state pr)) = {}" and step: "processor_step ops A iter pr ev pr'"
  obtains new where "appends (pr_channels pr) (pr_channels pr') new" "\<And>c. Flag Interested \<notin> set (new c)"
    "pieces_not_started (ts_tracking (pr_state pr')) = {}"
  using step
proof cases
  case (peer_starts p is_open)
  let ?c = "length (pr_channels pr)"
  obtain bf where "pr_channels pr' = send_all [(?c, BitField bf), (?c, Flag Choke), (?c, Flag NotInterested)]
      (pr_channels pr @ [\<lparr>ch_messages = [], ch_open = is_open\<rparr>])"
    using accept_peer_channels [OF A inv] peer_starts by blast
  then have "appends (pr_channels pr) (pr_channels pr') (\<lambda>_. [])"
    by (auto simp: appends_def send_all_messages nth_append simp del: send_all_simps)
  moreover have "pr_state pr' = pr_state pr"
    using accept_peer_eq [OF A inv, of p is_open] peer_starts(2) by (cases is_open) (auto simp: Let_def simp del: send_all_simps)
  ultimately show ?thesis using that none by simp
next
  case (peer_sends i msg)
  let ?h = "pr_handlers pr ! i"
  obtain status s chs io where h: "handle_msg ops (h_peer ?h) (h_conn ?h) msg (pr_state pr, pr_channels pr, pr_io pr) =
      (status, s, chs, io)" by (metis prod_cases4)
  then have "pr_channels pr' = pr_channels pr" "ts_tracking (pr_state pr') = ts_tracking (pr_state pr)"
    using handler_uninterested [OF h none] handle_msg_spec [OF h] peer_sends by (simp_all add: deliver_def Let_def set_status_def)
  then show ?thesis using that [of "\<lambda>_. []"] none appends_refl by simp
next
  case (write_answered i k b r)
  obtain status s where f: "finish_write k b r (pr_state pr) = (status, s)" by fastforce
  then have "pr_channels pr' = pr_channels pr" "pr_state pr' = s"
    using write_answered(2) by (simp_all add: Event_Loop.write_answered_def set_status_def)
  then show ?thesis using that [of "\<lambda>_. []"] none finish_not_started [OF f] appends_refl by simp
next
  case (wake_received msg rest now)
  have inv0: "processor_inv torrent max_out (pr\<lparr>pr_wakeups := rest\<rparr>)" using inv by (simp add: processor_inv_def)
  obtain reqs t1 ann served q io where post: "wake_post iter now msg (pr\<lparr>pr_wakeups := rest\<rparr>) pr' reqs t1 ann served q io"
    using process_wakeup_spec [OF inv0, of iter now msg ops] wake_received(2) by blast
  let ?txs = "prune_closed_tx (pr_channels pr) (pr_peer_to_tx pr)"
  note w = post [unfolded wake_post_def Let_def, simplified]
  let ?xs = "ann @ map (request_send ?txs) (filter (sendable ?txs (pr_channels pr)) reqs) @ served"
  obtain new where new: "appends (pr_channels pr) (send_all ?xs (pr_channels pr)) new" "\<And>c. set (new c) \<subseteq> {m. (c, m) \<in> set ?xs}"
    using appends_send_all [of "pr_channels pr" ?xs] by blast
  have "(c, Flag Interested) \<notin> set ?xs" for c
    using w by (auto simp: request_send_def request_message_def)
  then have "Flag Interested \<notin> set (new c)" for c using new(2) by blast
  moreover have "pr_channels pr' = send_all ?xs (pr_channels pr)" using w by simp
  moreover have "pieces_not_started t1 = {}" using assignments_not_started w none by blast
  then have "pieces_not_started (ts_tracking (pr_state pr')) = {}" using w by (simp add: drop_not_started)
  ultimately show ?thesis using that [of new] new(1) by simp
next
  case (timer_ticks now)
  obtain reqs t where r: "remove_expired now (ts_tracking (pr_state pr)) = (reqs, t)" by fastforce
  then have "pr_channels pr' = pr_channels pr" "ts_tracking (pr_state pr') = t"
    using timer_ticks by (auto simp: timer_tick_eq [OF iter] Let_def)
  then show ?thesis using that [of "\<lambda>_. []"] none expire_not_started [OF r] appends_refl by simp
next
  case (channel_closes c)
  then show ?thesis
    using that [of "\<lambda>_. []"] none by (auto simp: appends_def nth_list_update)
next
  case (handler_done i)
  have "state_inv (pr_state pr)" using inv by (simp add: processor_inv_def)
  then show ?thesis
    using that [of "\<lambda>_. []"] none appends_refl handler_done state_remove_facts(3) by (simp add: reap_handler_def Let_def)
qed (use that [of "\<lambda>_. []"] none appends_refl in \<open>simp_all add: set_status_def\<close>)

section \<open>Properties\<close>

definition interested_told :: "'io processor \<Rightarrow> nat \<Rightarrow> messages list" where
  "interested_told pr c =
     (if c < length (pr_channels pr) then filter (\<lambda>m. m = Flag Interested) (ch_messages (pr_channels pr ! c)) else [])"

text \<open>
  C22. Once every piece has been started, the client never again tells a peer that it is interested: however the
  run goes on, with whatever peers and messages, every channel carries exactly the \<open>Interested\<close> messages it
  carried before, and a channel opened later none. A peer that follows the protocol does not unchoke a client
  that is not interested, so a piece whose only sender leaves then stays incomplete.
\<close>

theorem no_interest_after_start:
  assumes "bytes_laws A" and "hash_iteration iter"
    and "reachable (processor_init torrent max_out) (processor_step ops A iter) pr"
    and "pieces_not_started (ts_tracking (pr_state pr)) = {}"
    and "run (processor_step ops A iter) pr evs pr'"
  shows "interested_told pr' c = interested_told pr c"
proof -
  have "processor_inv torrent max_out pr"
    by (rule invariant_system.reachable_inv [OF processor_machine [OF assms(1,2)] assms(3)])
  with assms(5,4) show ?thesis
  proof (induction rule: run.induct)
    case (run_Cons pr ev pr1 evs pr')
    obtain new where new: "appends (pr_channels pr) (pr_channels pr1) new" "Flag Interested \<notin> set (new c)"
      "pieces_not_started (ts_tracking (pr_state pr1)) = {}"
      by (rule uninterested_step [OF assms(1,2) run_Cons.prems(2,1) run_Cons.hyps(1)]) blast
    have "filter (\<lambda>m. m = Flag Interested) (new c) = []" using new(2) by (auto simp: filter_empty_conv)
    moreover have "Flag Interested \<notin> set (ch_messages (pr_channels pr1 ! c))"
      if "length (pr_channels pr) \<le> c" "c < length (pr_channels pr1)"
      using step_new_channel [OF assms(1,2) run_Cons.prems(2) run_Cons.hyps(1) that, of "Flag Interested"] by auto
    then have "length (pr_channels pr) \<le> c \<Longrightarrow> interested_told pr1 c = []"
      by (auto simp: interested_told_def filter_empty_conv)
    ultimately have "interested_told pr1 c = interested_told pr c"
      using new(1) by (cases "c < length (pr_channels pr)") (auto simp: interested_told_def appends_def)
    moreover have "processor_inv torrent max_out pr1"
      by (rule invariant_system.step_inv [OF processor_machine [OF assms(1,2)] run_Cons.prems(2) run_Cons.hyps(1)])
    ultimately show ?case using run_Cons.IH new(3) by simp
  qed simp
qed

text \<open>A second peer joins when the only piece has been started by the first.\<close>

lemma all_started:
  "\<exists>pr. exec_run memory_ops list_bytes sorted_iter (joins 0 [1]) late0 = Some pr \<and>
     pieces_not_started (ts_tracking (pr_state pr)) = {} \<and> length (pr_channels pr) = 1 \<and>
     (\<exists>pr'. exec_run memory_ops list_bytes sorted_iter (joins 1 [0]) pr = Some pr' \<and> length (pr_channels pr') = 2)"
  by (simp add: joins_def late0_def loop_eval)

lemma no_interest_after_start_witness:
  "\<exists>pr pr'. exec_run memory_ops list_bytes sorted_iter (joins 0 [1]) late0 = Some pr \<and>
     exec_run memory_ops list_bytes sorted_iter (joins 1 [0]) pr = Some pr' \<and>
     length (pr_channels pr') = 2 \<and> Flag Interested \<notin> set (ch_messages (pr_channels pr' ! 1))"
proof -
  obtain pr pr' where run: "exec_run memory_ops list_bytes sorted_iter (joins 0 [1]) late0 = Some pr"
    "pieces_not_started (ts_tracking (pr_state pr)) = {}" "length (pr_channels pr) = 1"
    "exec_run memory_ops list_bytes sorted_iter (joins 1 [0]) pr = Some pr'" "length (pr_channels pr') = 2"
    using all_started by blast
  have reach: "reachable (processor_init late_torrent 128) (processor_step memory_ops list_bytes sorted_iter) pr"
    by (rule run_reachable [OF run(1) [unfolded exec_run_iff]], rule reachable.start, rule late0_init)
  have "interested_told pr' 1 = interested_told pr 1"
    by (rule no_interest_after_start [OF list_bytes.bytes_laws_axioms sorted_iter.hash_iteration_axioms reach run(2)
          run(4) [unfolded exec_run_iff]])
  then have "Flag Interested \<notin> set (ch_messages (pr_channels pr' ! 1))"
    using run(3,5) by (auto simp: interested_told_def filter_empty_conv)
  then show ?thesis using run by blast
qed

end
