(* ===== verification/Unit_Tests.thy ===== *)
theory Unit_Tests
  imports Bitfield Connection Slices Announce
begin

text \<open>
  The repository's own unit tests of the slices (\<open>src/peer/io/mod.rs\<close>), the bit fields
  (\<open>src/peer/bitfield.rs\<close>), the codecs (\<open>src/peer/protocol.rs\<close>) and the bencode parser (\<open>src/file/bencode.rs\<close>),
  each as a Boolean function that calls the model where the test calls the program: true when the test
  passes, false when an assertion fails or an \<open>unwrap\<close> panics. The lemmas show that the
  model passes them, for every implementation of the crates that keeps its laws. The literals of
  \<open>hex::decode\<close> are written decoded; \<open>round_trip\<close> and \<open>test_announce\<close> of \<open>bencode.rs\<close>, which
  read a file and a long capture, are covered by \<open>bencode_roundtrip\<close> only.
\<close>

section \<open>Slices\<close>

text \<open>A series of \<open>assert!(slices.insert(..) == ..)\<close>.\<close>

fun insert_asserts :: "slices \<Rightarrow> ((u32 \<times> u32) \<times> bool) list \<Rightarrow> bool" where
  "insert_asserts s [] = True"
| "insert_asserts s (((begin, len), expected) # rest) =
     (case slices_insert s begin len of None \<Rightarrow> False | Some (r, s') \<Rightarrow> r = expected \<and> insert_asserts s' rest)"

definition slices_returns_full_sequential :: bool where
  "slices_returns_full_sequential =
     insert_asserts (slices_new 15) [((0, 5), False), ((5, 5), False), ((10, 5), True)]"

definition slices_returns_full_reverse :: bool where
  "slices_returns_full_reverse =
     insert_asserts (slices_new 15) [((10, 5), False), ((5, 5), False), ((0, 5), True)]"

definition slices_returns_full_single_gap :: bool where
  "slices_returns_full_single_gap =
     insert_asserts (slices_new 15) [((10, 5), False), ((0, 5), False), ((5, 5), True)]"

definition slices_returns_full_double_gap :: bool where
  "slices_returns_full_double_gap =
     insert_asserts (slices_new 20) [((15, 5), False), ((0, 5), False), ((5, 5), False), ((10, 5), True)]"

definition slices_returns_full_double_gap_rev :: bool where
  "slices_returns_full_double_gap_rev =
     insert_asserts (slices_new 20) [((15, 5), False), ((5, 5), False), ((0, 5), False), ((10, 5), True)]"

definition slices_returns_full_double_gap_rev_2 :: bool where
  "slices_returns_full_double_gap_rev_2 =
     insert_asserts (slices_new 20) [((10, 5), False), ((5, 5), False), ((0, 5), False), ((15, 5), True)]"

lemmas slices_tests =
  slices_returns_full_sequential_def slices_returns_full_reverse_def slices_returns_full_single_gap_def
  slices_returns_full_double_gap_def slices_returns_full_double_gap_rev_def slices_returns_full_double_gap_rev_2_def

lemma slices_tests_pass:
  "slices_returns_full_sequential" "slices_returns_full_reverse" "slices_returns_full_single_gap"
  "slices_returns_full_double_gap" "slices_returns_full_double_gap_rev" "slices_returns_full_double_gap_rev_2"
  by (simp_all add: slices_tests slices_new_def slices_insert_eq u32_add_def ins_spec_def ins_at_def ins_left_def
      ins_right_def is_complete_def Let_def)

section \<open>Bit fields\<close>

definition expected_bits :: "bool list" where
  "expected_bits = [True, False, False, False, True, False, False, True, True, True, True, True, True, False, False, False]"

definition read_bits :: bool where
  "read_bits \<longleftrightarrow> map (get_bit [0b10001001, 0b11111000]) [0..<16] = map Some expected_bits"

definition roundtrip_bits :: "bytes_api \<Rightarrow> bool" where
  "roundtrip_bits A =
     (case put_bits A (writer_new []) expected_bits of
        None \<Rightarrow> False
      | Some writer \<Rightarrow> map (get_bit (bw_bytes writer)) [0..<16] = map Some expected_bits)"

lemma bitfield_tests_pass:
  "read_bits" "bytes_laws A \<Longrightarrow> roundtrip_bits A"
proof -
  let ?bs = "[0b10001001, 0b11111000] :: bytes"
  have "[0..<16] = [0, 1, 2, 3, 4, 5, 6, 7, 8, 9, 10, 11, 12, 13, 14, 15 :: nat]" by (simp add: upt_rec)
  moreover have "map (bf_bit ?bs) [0, 1, 2, 3, 4, 5, 6, 7, 8, 9, 10, 11, 12, 13, 14, 15] = expected_bits"
    by (simp add: bf_bit_def expected_bits_def bit_numeral_word_iff)
  moreover have "map (get_bit ?bs) [0..<16] = map Some (map (bf_bit ?bs) [0..<16])"
    by (simp add: get_bit_eq)
  ultimately show "read_bits" by (simp only: read_bits_def)
next
  assume A: "bytes_laws A"
  have len: "length expected_bits = 16" by (simp add: expected_bits_def)
  then obtain w where w: "put_bits A (writer_new []) expected_bits = Some w" "writer_rel w expected_bits"
    using put_bits_rel [OF A writer_rel_new, of expected_bits] by auto
  have "map (get_bit (bw_bytes w)) [0..<16] = map Some expected_bits"
    using w(2) len by (intro nth_equalityI) (auto simp: writer_rel_def get_bit_eq)
  then show "roundtrip_bits A" by (simp add: roundtrip_bits_def w(1))
qed

section \<open>Handshake and messages\<close>

text \<open>The test takes the hashes of two texts with the current time in them; \<open>digest\<close> is SHA-1.\<close>

definition do_sha1_hash :: "(bytes \<Rightarrow> bytes) \<Rightarrow> bytes \<Rightarrow> bytes" where
  "do_sha1_hash digest b = digest b"

definition round_trip_handshake :: "bytes_api \<Rightarrow> (bytes \<Rightarrow> bytes) \<Rightarrow> bytes \<Rightarrow> bool" where
  "round_trip_handshake A digest time =
     (let info_hash = do_sha1_hash digest (ascii ''info:'' @ time);
          peer_id = do_sha1_hash digest (ascii ''peer:'' @ time);
          buf = handshake_encode A \<lparr>peer_ctx = \<lparr>pc_info_hash = info_hash, pc_peer_id = peer_id\<rparr>\<rparr> [] in
      (case try_get_u8 A buf of
         Ok (b, rest) \<Rightarrow> b = 19 \<and>
           (case try_copy_to_slice A rest 19 of Ok (p_str, _) \<Rightarrow> p_str = HANDSHAKE_PROTOCOL_ID | _ \<Rightarrow> False)
       | _ \<Rightarrow> False) \<and>
      (case handshake_decode A buf of
         Ok (handshake, _) \<Rightarrow> pc_info_hash (peer_ctx handshake) = info_hash
       | _ \<Rightarrow> False))"

definition handshake_bytes :: bytes where
  "handshake_bytes =
     [0x13, 0x42, 0x69, 0x74, 0x54, 0x6f, 0x72, 0x72, 0x65, 0x6e, 0x74, 0x20, 0x70, 0x72, 0x6f, 0x74, 0x6f, 0x63,
      0x6f, 0x6c, 0x00, 0x00, 0x00, 0x00, 0x00, 0x00, 0x00, 0x00, 0x01, 0x64, 0xfe, 0x7e, 0xf1, 0x10, 0x5c, 0x57,
      0x76, 0x41, 0x70, 0xed, 0xf6, 0x03, 0xc4, 0x39, 0xd6, 0x42, 0x14, 0xf1, 0xb8, 0x6a, 0x73, 0x7f, 0xe8, 0x0c,
      0xaf, 0x68, 0x02, 0x59, 0x96, 0x37, 0x24, 0x65, 0x27, 0x56, 0xee, 0x4d, 0x16, 0x5b]"

definition handshake_cap :: "bytes_api \<Rightarrow> bool" where
  "handshake_cap A =
     (case handshake_decode A handshake_bytes of
        Ok (hs, _) \<Rightarrow> handshake_encode A hs [] = handshake_bytes
      | _ \<Rightarrow> False)"

definition bitfield_bytes :: bytes where
  "bitfield_bytes = [0x00, 0x00, 0x00, 0x19, 0x05] @ replicate 23 0xff @ [0xfe]"

definition bitfield_cap :: "bytes_api \<Rightarrow> bool" where
  "bitfield_cap A =
     (case messages_decode A bitfield_bytes of
        Ok (msg, _) \<Rightarrow> messages_encode A msg [] = Ok bitfield_bytes
      | _ \<Rightarrow> False)"

lemma protocol_tests_pass:
  assumes A: "bytes_laws A"
  shows "(\<And>b. length (digest b) = 20) \<Longrightarrow> round_trip_handshake A digest time" "handshake_cap A" "bitfield_cap A"
proof -
  note enc = bytes_laws.handshake_encode_eq [OF A] and dec = bytes_laws.handshake_decode_Ok_iff [OF A]
  note reads = bytes_laws.try_get_u8 [OF A] bytes_laws.try_copy_to_slice [OF A]
  show "round_trip_handshake A digest time" if "\<And>b. length (digest b) = 20"
  proof -
    let ?h = "\<lparr>peer_ctx = \<lparr>pc_info_hash = digest (ascii ''info:'' @ time), pc_peer_id = digest (ascii ''peer:'' @ time)\<rparr>\<rparr>"
    have "handshake_decode A (handshake_encode A ?h []) = Ok (?h, [])"
      unfolding dec enc
      by (rule exI [of _ 19], rule exI [of _ "ascii ''BitTorrent protocol''"], rule exI [of _ "be64 0"])
        (simp add: that ascii_def)
    then show ?thesis
      by (simp add: round_trip_handshake_def do_sha1_hash_def Let_def reads enc HANDSHAKE_PROTOCOL_ID_def ascii_def)
  qed
  let ?c = "\<lparr>pc_info_hash = take 20 (drop 28 handshake_bytes), pc_peer_id = drop 48 handshake_bytes\<rparr>"
  have "handshake_decode A handshake_bytes = Ok (\<lparr>peer_ctx = ?c\<rparr>, [])"
    unfolding dec
    by (rule exI [of _ 19], rule exI [of _ "ascii ''BitTorrent protocol''"], rule exI [of _ "be64 0"])
      (simp add: handshake_bytes_def ascii_def be64_def be32_def)
  then show "handshake_cap A" by (simp add: handshake_cap_def enc handshake_bytes_def ascii_def be64_def be32_def)
  let ?m = "BitField (replicate 23 0xff @ [0xfe])"
  have wire: "messages_wire ?m = bitfield_bytes" "messages_fits ?m"
    by (simp_all add: messages_wire_def bitfield_bytes_def messages_fits_def be32_def)
  have "messages_decode A bitfield_bytes = Ok (?m, [])"
    using bytes_laws.messages_decode_wire [OF A wire(2), of "[]"] by (simp add: wire(1))
  then show "bitfield_cap A"
    using bytes_laws.messages_encode_wire [OF A fits_payload [OF wire(2)], of "[]"] wire by (simp add: bitfield_cap_def)
qed

section \<open>Bencode\<close>

text \<open>
  \<open>str::as_bytes\<close> of a literal is \<open>ascii\<close>. \<open>n\<close> is the fuel of the parser of values inside a list or a dictionary.
\<close>

definition do_int_tests :: "nom_api \<Rightarrow> string \<Rightarrow> i64 \<Rightarrow> bool" where
  "do_int_tests N i v =
     (case parse_int N (ascii i) of Parsed rest zero \<Rightarrow> zero = Int_value v \<and> length rest = 0 | _ \<Rightarrow> False)"

definition do_bytestring_test :: "nom_api \<Rightarrow> string \<Rightarrow> string \<Rightarrow> bool" where
  "do_bytestring_test N i val =
     (case parse_bytestring N (ascii i) of
        Parsed rest v \<Rightarrow> v = ByteString (Byte_string (ascii val)) \<and> length rest = 0
      | _ \<Rightarrow> False)"

definition do_list_test :: "nom_api \<Rightarrow> nat \<Rightarrow> string \<Rightarrow> bencode list \<Rightarrow> bool" where
  "do_list_test N n i vals =
     (case parse_list N (parse_type N n) (ascii i) of
        Parsed rest (List extracted) \<Rightarrow> vals = extracted \<and> length rest = 0
      | _ \<Rightarrow> False)"

definition do_dict_test :: "nom_api \<Rightarrow> nat \<Rightarrow> string \<Rightarrow> (byte_string \<times> bencode) list \<Rightarrow> bool" where
  "do_dict_test N n i vals =
     (case parse_dictionary N (parse_type N n) (ascii i) of
        Parsed rest (Dictionary extracted) \<Rightarrow>
          length vals = length extracted \<and> (\<forall>(k, v) \<in> set vals. bt_get extracted k = Some v) \<and> length rest = 0
      | _ \<Rightarrow> False)"

definition test_parse_int_0 :: "nom_api \<Rightarrow> bool" where
  "test_parse_int_0 N = do_int_tests N ''i0e'' 0"

definition test_parse_int_42 :: "nom_api \<Rightarrow> bool" where
  "test_parse_int_42 N = do_int_tests N ''i42e'' 42"

definition test_parse_int_neg_42 :: "nom_api \<Rightarrow> bool" where
  "test_parse_int_neg_42 N = do_int_tests N ''i-42e'' (- 42)"

definition test_bs_empty :: "nom_api \<Rightarrow> bool" where
  "test_bs_empty N = do_bytestring_test N ''0:'' []"

definition test_bs_bencode :: "nom_api \<Rightarrow> bool" where
  "test_bs_bencode N = do_bytestring_test N ''7:bencode'' ''bencode''"

definition test_list_empty :: "nom_api \<Rightarrow> nat \<Rightarrow> bool" where
  "test_list_empty N n = do_list_test N n ''le'' []"

definition test_list :: "nom_api \<Rightarrow> nat \<Rightarrow> bool" where
  "test_list N n =
     do_list_test N n ''l7:bencodei-20ee'' [ByteString (Byte_string (ascii ''bencode'')), Int_value (- 20)]"

definition test_empty_dict :: "nom_api \<Rightarrow> nat \<Rightarrow> bool" where
  "test_empty_dict N n = do_dict_test N n ''de'' []"

definition test_dict :: "nom_api \<Rightarrow> nat \<Rightarrow> bool" where
  "test_dict N n =
     do_dict_test N n ''d7:meaningi42e4:wiki7:bencodee''
       [(Byte_string (ascii ''meaning''), Int_value 42),
        (Byte_string (ascii ''wiki''), ByteString (Byte_string (ascii ''bencode'')))]"

text \<open>
  Two tests read a whole document: the contents of a file of the repository, and a tracker's recorded answer, given as
  hexadecimal digits. Their bytes are an argument here.
\<close>

definition round_trip :: "nom_api \<Rightarrow> nat \<Rightarrow> bytes \<Rightarrow> bool" where
  "round_trip N n torrent = (case parse_bencode N n torrent of Ok bc \<Rightarrow> torrent = encode bc | _ \<Rightarrow> False)"

definition test_announce :: "nom_api \<Rightarrow> nat \<Rightarrow> bytes \<Rightarrow> bool" where
  "test_announce N n decoded =
     (case parse_bencode N n decoded of
        Ok (Dictionary dict) \<Rightarrow> bt_get (map_dict_keys dict) (ascii ''complete'') = Some (Int_value 1082)
      | _ \<Rightarrow> False)"

text \<open>The inputs of the tests are what the encoder writes, and \<open>alternatives\<close> says which parser reads them.\<close>

lemma test_inputs:
  "ascii ''i0e'' = encode_int 0" "ascii ''i42e'' = encode_int 42" "ascii ''i-42e'' = encode_int (- 42)"
  "ascii ''0:'' = encode_bs (Byte_string [])" "ascii ''7:bencode'' = encode_bs (Byte_string (ascii ''bencode''))"
  "ascii ''le'' = encode (List [])" "ascii ''de'' = encode (Dictionary [])"
  "ascii ''l7:bencodei-20ee'' = encode (List [ByteString (Byte_string (ascii ''bencode'')), Int_value (- 20)])"
  "ascii ''d7:meaningi42e4:wiki7:bencodee'' =
     encode (Dictionary [(Byte_string (ascii ''meaning''), Int_value 42),
       (Byte_string (ascii ''wiki''), ByteString (Byte_string (ascii ''bencode'')))])"
proof -
  have "nat_text 0 = [48]" "nat_text 4 = [52]" "nat_text 7 = [55]" "nat_text 20 = [50, 48]" "nat_text 42 = [52, 50]"
    by (simp_all add: nat_text.simps)
  moreover from this have "nat_text (Suc (Suc (Suc (Suc 0)))) = [52]"
    "nat_text (Suc (Suc (Suc (Suc (Suc (Suc (Suc 0))))))) = [55]" by (simp_all add: eval_nat_numeral)
  ultimately show
    "ascii ''i0e'' = encode_int 0" "ascii ''i42e'' = encode_int 42" "ascii ''i-42e'' = encode_int (- 42)"
    "ascii ''0:'' = encode_bs (Byte_string [])" "ascii ''7:bencode'' = encode_bs (Byte_string (ascii ''bencode''))"
    "ascii ''le'' = encode (List [])" "ascii ''de'' = encode (Dictionary [])"
    "ascii ''l7:bencodei-20ee'' = encode (List [ByteString (Byte_string (ascii ''bencode'')), Int_value (- 20)])"
    "ascii ''d7:meaningi42e4:wiki7:bencodee'' =
       encode (Dictionary [(Byte_string (ascii ''meaning''), Int_value 42),
         (Byte_string (ascii ''wiki''), ByteString (Byte_string (ascii ''bencode'')))])"
    by (simp_all add: encode_int_def encode_bs_def int_text_def ascii_def)
qed

context nom_laws
begin

lemma scalar_tests:
  "do_int_tests N i v" if "ascii i = encode_int v"
  using read_int [of v "[]"] by (simp add: do_int_tests_def that)

lemma bytestring_tests:
  "do_bytestring_test N i val" if "ascii i = encode_bs (Byte_string (ascii val))" "length val < 2 ^ 32"
  using read_bytestring [of "Byte_string (ascii val)" "[]"] that
  by (simp add: do_bytestring_test_def parse_bytestring_def short_def ascii_def)

text \<open>The list and the dictionary parser are what \<open>parse_type\<close> runs on their first byte.\<close>

lemma compound_tests:
  assumes "writable b" "depth b \<le> Suc n"
  shows "b = List l \<Longrightarrow> parse_list N (parse_type N n) (encode b) = Parsed [] b"
    "b = Dictionary d \<Longrightarrow> parse_dictionary N (parse_type N n) (encode b) = Parsed [] b"
proof -
  have r: "parse_type N (Suc n) (encode b) = Parsed [] b" using read_value [OF assms, of "[]"] by simp
  have bs: "parse_bytestring N i \<noteq> Parsed [] b" if "b = List l \<or> b = Dictionary d" for i l d
    using that by (auto simp: parse_bytestring_def and_then_Parsed)
  show "parse_list N (parse_type N n) (encode b) = Parsed [] b" if b: "b = List l"
    using r bs [of l] b unfolding alternatives by (auto simp: ascii_bytes split: if_splits)
  show "parse_dictionary N (parse_type N n) (encode b) = Parsed [] b" if b: "b = Dictionary d"
    using r bs [of _ d] b unfolding alternatives by (auto simp: ascii_bytes split: if_splits)
qed

end

lemma bencode_tests_pass:
  assumes N: "nom_laws N"
  shows "test_parse_int_0 N" "test_parse_int_42 N" "test_parse_int_neg_42 N" "test_bs_empty N" "test_bs_bencode N"
    "test_list_empty N n" "test_list N (Suc n)" "test_empty_dict N n" "test_dict N (Suc n)"
proof -
  note ints = nom_laws.scalar_tests [OF N] and strings = nom_laws.bytestring_tests [OF N]
  note compounds = nom_laws.compound_tests [OF N]
  show "test_parse_int_0 N" "test_parse_int_42 N" "test_parse_int_neg_42 N"
    unfolding test_parse_int_0_def test_parse_int_42_def test_parse_int_neg_42_def
    by (rule ints; rule test_inputs)+
  have "ascii [] = []" by (simp add: ascii_def)
  then show "test_bs_empty N" "test_bs_bencode N"
    unfolding test_bs_empty_def test_bs_bencode_def
    using strings [of "''0:''" "[]"] strings [OF test_inputs(5)] test_inputs(4) by simp_all
  let ?l = "[ByteString (Byte_string (ascii ''bencode'')), Int_value (- 20)]"
  let ?d = "[(Byte_string (ascii ''meaning''), Int_value 42), (Byte_string (ascii ''wiki''), ByteString (Byte_string (ascii ''bencode'')))]"
  have ok: "writable (List ?l)" "depth (List ?l) \<le> Suc (Suc n)" "writable (Dictionary ?d)" "depth (Dictionary ?d) \<le> Suc (Suc n)"
    by (simp_all add: short_def ascii_def less_byte_string_def)
  show "test_list N (Suc n)" "test_dict N (Suc n)"
    unfolding test_list_def test_dict_def do_list_test_def do_dict_test_def test_inputs
      compounds(1) [OF ok(1,2) refl] compounds(2) [OF ok(3,4) refl] by (simp_all add: ascii_def)
  show "test_list_empty N n" "test_empty_dict N n"
    unfolding test_list_empty_def test_empty_dict_def do_list_test_def do_dict_test_def test_inputs
    using compounds(1) [of "List []" n "[]"] compounds(2) [of "Dictionary []" n "[]"] by simp_all
qed

text \<open>
  \<open>round_trip\<close> passes exactly on the documents that the encoder writes; \<open>test_announce\<close> on those of a dictionary with the
  entry it looks for.
\<close>

lemma round_trip_iff:
  assumes N: "nom_laws N"
  shows "round_trip N n torrent \<longleftrightarrow> (\<exists>b. writable b \<and> depth b \<le> n \<and> torrent = encode b)"
proof
  assume "round_trip N n torrent"
  then obtain b where b: "parse_bencode N n torrent = Ok b" "torrent = encode b"
    by (auto simp: round_trip_def split: res.splits)
  then obtain r where "parse_type N n torrent = Parsed r b" by (auto simp: parse_bencode_def split: parsed.splits)
  then have "writable b" "depth b \<le> n" using nom_laws.value_parsed [OF N] by blast+
  then show "\<exists>b. writable b \<and> depth b \<le> n \<and> torrent = encode b" using b(2) by blast
next
  assume "\<exists>b. writable b \<and> depth b \<le> n \<and> torrent = encode b"
  then show "round_trip N n torrent"
    using nom_laws.read_value [OF N, of _ n "[]"] by (auto simp: round_trip_def parse_bencode_def)
qed

lemma test_announce_iff:
  assumes N: "nom_laws N" and "writable (Dictionary d)" "depth (Dictionary d) \<le> n"
  shows "test_announce N n (encode (Dictionary d)) \<longleftrightarrow> bt_get (map_dict_keys d) (ascii ''complete'') = Some (Int_value 1082)"
  using nom_laws.read_value [OF assms, of "[]"] by (simp add: test_announce_def parse_bencode_def)

end
