(* ===== verification/One_Peer.thy ===== *)
theory One_Peer
  imports Download Execution
begin

text \<open>
  A conversation with one peer: the loop has one connection and one handler. A schedule is a list of
  the loop's events; \<open>converse\<close> runs it if the peer says in it exactly the given messages and everything has come to rest at its
  end. While the peer answers the requests it was sent, in their order, the client tells it nothing but that a piece is complete, once
  for each piece and in the order in which they are completed (\<open>answering\<close>), whatever the schedule.
\<close>

section \<open>Schedules\<close>

fun said :: "event list \<Rightarrow> messages list" where
  "said [] = []"
| "said (ev # evs) = (case ev of PeerSends _ msg \<Rightarrow> msg # said evs | _ \<Rightarrow> said evs)"

text \<open>The peer stays and nothing expires.\<close>

fun steady :: "event \<Rightarrow> bool" where
  "steady (PeerSends _ _) = True"
| "steady (WriteAnswered _) = True"
| "steady (WakeSent _) = True"
| "steady (WakeReceived _) = True"
| "steady _ = False"

definition at_rest :: "'io processor \<Rightarrow> bool" where
  "at_rest pr \<longleftrightarrow> pr_wakeups pr = [] \<and> list_all (\<lambda>h. h_status h = Idle) (pr_handlers pr)"

definition converse ::
  "'io torrent_io_ops \<Rightarrow> bytes_api \<Rightarrow> (internal_peer_id set \<Rightarrow> internal_peer_id list) \<Rightarrow> messages list \<Rightarrow> event list \<Rightarrow>
     'io processor \<Rightarrow> 'io processor option"
where
  "converse ops A iter msgs evs pr =
     (if said evs = msgs \<and> list_all steady evs
      then Option.bind (exec_run ops A iter evs pr) (\<lambda>pr'. if at_rest pr' then Some pr' else None)
      else None)"

lemma converse_Some:
  "converse ops A iter msgs evs pr = Some pr' \<longleftrightarrow>
     said evs = msgs \<and> list_all steady evs \<and> exec_run ops A iter evs pr = Some pr' \<and> at_rest pr'"
  by (auto simp: converse_def bind_eq_Some_conv)

section \<open>One connection\<close>

definition told :: "'io processor \<Rightarrow> messages list" where
  "told pr = ch_messages (pr_channels pr ! 0)"

definition status :: "'io processor \<Rightarrow> handler_status" where
  "status pr = h_status (pr_handlers pr ! 0)"

definition one_peer :: "internal_peer_id \<Rightarrow> 'io processor \<Rightarrow> bool" where
  "one_peer p pr \<longleftrightarrow>
     pr_peer_to_tx pr = [(p, 0)] \<and> length (pr_channels pr) = 1 \<and> ch_open (pr_channels pr ! 0) \<and>
     pr_handlers pr = [\<lparr>h_peer = p, h_conn = 0, h_status = status pr\<rparr>] \<and> ts_outstanding (pr_state pr) = []"

fun completes :: "internal_state_message \<Rightarrow> u32 list" where
  "completes (PieceComplete k) = [k]"
| "completes _ = []"

fun plain :: "internal_state_message \<Rightarrow> bool" where
  "plain (PeerRequestedPiece _) = False"
| "plain _ = True"

lemma one_peer_facts:
  assumes "one_peer p pr"
  shows "deliverable (pr_channels pr) 0" "length (pr_handlers pr) = 1" "h_conn (pr_handlers pr ! 0) = 0" "h_peer (pr_handlers pr ! 0) = p"
    "prune_closed_tx (pr_channels pr) (pr_peer_to_tx pr) = [(p, 0)]"
    "writing (pr_handlers pr) = writes (status pr)" "finished_writes (pr_handlers pr) = finishes (status pr)"
    "(pr_handlers pr)[0 := (pr_handlers pr ! 0)\<lparr>h_status := st\<rparr>] = [\<lparr>h_peer = p, h_conn = 0, h_status = st\<rparr>]"
    "set_status 0 st pr = pr\<lparr>pr_handlers := [\<lparr>h_peer = p, h_conn = 0, h_status = st\<rparr>]\<rparr>"
    "at_rest pr \<longleftrightarrow> pr_wakeups pr = [] \<and> status pr = Idle"
proof -
  have h: "pr_handlers pr = [\<lparr>h_peer = p, h_conn = 0, h_status = status pr\<rparr>]" using assms by (simp add: one_peer_def)
  show "length (pr_handlers pr) = 1" "h_conn (pr_handlers pr ! 0) = 0" "h_peer (pr_handlers pr ! 0) = p" by (simp_all add: h)
  show "writing (pr_handlers pr) = writes (status pr)" "finished_writes (pr_handlers pr) = finishes (status pr)"
    by (simp_all add: writing_eq finished_writes_eq h)
  show "(pr_handlers pr)[0 := (pr_handlers pr ! 0)\<lparr>h_status := st\<rparr>] = [\<lparr>h_peer = p, h_conn = 0, h_status = st\<rparr>]" by (simp add: h)
  show "set_status 0 st pr = pr\<lparr>pr_handlers := [\<lparr>h_peer = p, h_conn = 0, h_status = st\<rparr>]\<rparr>" by (simp add: set_status_def h)
  show "at_rest pr \<longleftrightarrow> pr_wakeups pr = [] \<and> status pr = Idle" by (simp add: at_rest_def h)
qed (use assms in \<open>simp_all add: one_peer_def deliverable_def prune_closed_tx_def\<close>)

lemma told_send_all:
  assumes "one_peer p pr"
  shows "ch_messages (send_all (map (\<lambda>m. (0, m)) ms) (pr_channels pr) ! 0) = told pr @ ms"
    "ch_open (send_all (map (\<lambda>m. (0, m)) ms) (pr_channels pr) ! 0)"
  using assms one_peer_facts(1) [OF assms] send_all_facts(2) [of "map (\<lambda>m. (0, m)) ms" "pr_channels pr" 0]
  by (simp_all add: one_peer_def send_all_messages told_def comp_def deliverable_def del: send_all_facts(2))

text \<open>A wake-up announces the piece it is about and asks for what the round assigns.\<close>

lemma one_peer_wake:
  assumes one: "one_peer p pr"
    and gen: "generate_assignments iter now (pr_torrent pr) (piece_id_to_peers (pr_state pr)) (ts_tracking (pr_state pr)) = Some (reqs, t1)"
    and peers: "\<forall>r \<in> set reqs. req_peer_id r = p" and m: "plain m"
  shows "process_wakeup ops iter now m pr = pr\<lparr>pr_state := (pr_state pr)\<lparr>ts_tracking := t1\<rparr>,
    pr_channels := send_all (map (\<lambda>m. (0, m)) (map Have (completes m) @ map request_message reqs)) (pr_channels pr)\<rparr>"
proof -
  let ?txs = "[(p, 0)]" and ?s = "pr_state pr" and ?chs = "pr_channels pr"
  let ?ann = "map (\<lambda>m. (0, m)) (map Have (completes m))" and ?out = "map (\<lambda>m. (0, m)) (map request_message reqs)"
  have txs: "prune_closed_tx ?chs (pr_peer_to_tx pr) = ?txs" "deliverable ?chs 0" using one_peer_facts [OF one] by simp_all
  have act: "wakeup_action m ?txs (?s, ?chs) = (?s, send_all ?ann ?chs)"
    using m by (cases m) (simp_all add: wakeup_action_def announce_piece_def)
  have "sendable ?txs (send_all ?ann ?chs) r" if "r \<in> set reqs" for r
    using peers that txs(2) by (simp add: sendable_def)
  then have all: "filter (sendable ?txs (send_all ?ann ?chs)) reqs = reqs"
    "filter (\<lambda>r. \<not> sendable ?txs (send_all ?ann ?chs) r) reqs = []"
    by (simp_all add: filter_id_conv filter_empty_conv)
  have "map (request_send ?txs) reqs = ?out" using peers by (simp add: request_send_def)
  then have "compute_requests_for_download iter now (pr_torrent pr) ?txs ?s (send_all ?ann ?chs) =
      Some (?s\<lparr>ts_tracking := t1\<rparr>, send_all ?out (send_all ?ann ?chs))"
    by (simp add: compute_requests_for_download_def gen dispatch_requests_eq all drop_requests_def del: map_map)
  moreover have "dequeue_requests ops ?txs (?s\<lparr>ts_tracking := t1\<rparr>) (pr_io pr) chs = (?s\<lparr>ts_tracking := t1\<rparr>, pr_io pr, chs)" for chs
    using one by (simp add: dequeue_requests_def one_peer_def)
  moreover have "pr\<lparr>pr_peer_to_tx := ?txs, pr_state := s, pr_channels := chs, pr_io := pr_io pr\<rparr> =
      pr\<lparr>pr_state := s, pr_channels := chs\<rparr>" for s chs
    using one by (simp add: one_peer_def)
  ultimately show ?thesis
    unfolding process_wakeup_def txs(1) Let_def act by (simp del: map_map)
qed

lemma deliver_quiet:
  assumes one: "one_peer p pr" and h: "handle_msg ops p 0 msg (pr_state pr, pr_channels pr, pr_io pr) = (st, s, chs, pr_io pr)"
  shows "deliver ops 0 msg pr = pr\<lparr>pr_state := s, pr_channels := chs, pr_handlers := [\<lparr>h_peer = p, h_conn = 0, h_status = st\<rparr>]\<rparr>"
  using one_peer_facts(3,4,8) [OF one] h by (simp add: deliver_def Let_def set_status_def)

text \<open>At rest the only thing that can happen is that the peer speaks.\<close>

lemma rest_next:
  assumes one: "one_peer p pr" and rest: "at_rest pr" and ev: "steady ev" "exec_event ops A iter ev pr = Some pr'"
  shows "\<exists>msg. ev = PeerSends 0 msg \<and> pr' = deliver ops 0 msg pr"
proof -
  have st: "pr_wakeups pr = []" "status pr = Idle" using rest one_peer_facts(10) [OF one] by simp_all
  have i: "i = 0 \<and> h_status (pr_handlers pr ! i) = Idle" if "i < length (pr_handlers pr)" for i
    using one_peer_facts(2) [OF one] st(2) that by (simp add: status_def)
  show ?thesis
  proof (cases ev)
    case (PeerSends j msg)
    then show ?thesis using ev(2) i [of j] by (auto split: if_splits)
  next
    case (WriteAnswered j)
    then show ?thesis using ev(2) i [of j] by (auto split: if_splits)
  next
    case (WakeSent j)
    then show ?thesis using ev(2) i [of j] by (auto split: if_splits)
  qed (use ev st in simp_all)
qed

text \<open>A single message that only wakes the loop leaves the schedule no choice.\<close>

definition spoken :: "(u32 \<Rightarrow> instant) \<Rightarrow> messages \<Rightarrow> event list" where
  "spoken now msg = [PeerSends 0 msg, WakeSent 0, WakeReceived now]"

lemma only_schedule:
  assumes one: "one_peer p pr" and rest: "at_rest pr"
    and h: "handle_msg ops p 0 msg (pr_state pr, pr_channels pr, pr_io pr) = (Waking m, s, chs, pr_io pr)"
    and quiet: "\<And>now. one_peer p (process_wakeup ops iter now m (pr\<lparr>pr_state := s, pr_channels := chs\<rparr>)) \<and>
      at_rest (process_wakeup ops iter now m (pr\<lparr>pr_state := s, pr_channels := chs\<rparr>))"
  shows "pr_loop pr = Looping \<Longrightarrow> exec_run ops A iter (spoken now msg) pr =
      Some (process_wakeup ops iter now m (pr\<lparr>pr_state := s, pr_channels := chs\<rparr>))"
    and "converse ops A iter [msg] evs pr = Some pr' \<Longrightarrow>
      \<exists>now. pr' = process_wakeup ops iter now m (pr\<lparr>pr_state := s, pr_channels := chs\<rparr>)"
proof -
  have st: "pr_wakeups pr = []" "status pr = Idle" using rest one_peer_facts(10) [OF one] by simp_all
  let ?h = "\<lambda>st. [\<lparr>h_peer = p, h_conn = 0, h_status = st\<rparr>]"
  define pr1 where "pr1 = pr\<lparr>pr_state := s, pr_channels := chs, pr_handlers := ?h (Waking m)\<rparr>"
  define pr2 where "pr2 = pr\<lparr>pr_state := s, pr_channels := chs, pr_handlers := ?h Idle, pr_wakeups := [m]\<rparr>"
  have hs: "pr_handlers pr = ?h Idle" using one st(2) by (simp add: one_peer_def)
  have d: "deliver ops 0 msg pr = pr1" using deliver_quiet [OF one h] by (simp add: pr1_def)
  have idle2: "pr2\<lparr>pr_wakeups := []\<rparr> = pr\<lparr>pr_state := s, pr_channels := chs\<rparr>"
    using hs st(1) by (simp add: pr2_def)
  have sent: "exec_event ops A iter (WakeSent j) pr1 = (if j = 0 \<and> pr_loop pr = Looping then Some pr2 else None)" for j
    using st(1) by (simp add: pr1_def pr2_def set_status_def wakeup_capacity_def)
  have woken: "exec_event ops A iter (WakeReceived now) pr2 =
      (if pr_loop pr = Looping then Some (process_wakeup ops iter now m (pr\<lparr>pr_state := s, pr_channels := chs\<rparr>)) else None)" for now
    using idle2 by (simp add: pr2_def)
  show "exec_run ops A iter (spoken now msg) pr =
      Some (process_wakeup ops iter now m (pr\<lparr>pr_state := s, pr_channels := chs\<rparr>))" if "pr_loop pr = Looping"
    using that sent woken d hs by (simp add: spoken_def del: exec_event.simps(4,9))
  assume conv: "converse ops A iter [msg] evs pr = Some pr'"
  then obtain ev1 es1 where evs: "evs = ev1 # es1" by (cases evs) (auto simp: converse_Some)
  obtain x1 where x1: "exec_event ops A iter ev1 pr = Some x1" "exec_run ops A iter es1 x1 = Some pr'" "steady ev1" "list_all steady es1"
    using conv by (auto simp: converse_Some evs bind_eq_Some_conv)
  from rest_next [OF one rest x1(3,1)] obtain msg' where "ev1 = PeerSends 0 msg'" "x1 = deliver ops 0 msg' pr" by blast
  then have s1: "x1 = pr1" "said es1 = []" using conv d by (auto simp: converse_Some evs)
  have "at_rest pr'" using conv by (simp add: converse_Some)
  moreover have "\<not> at_rest pr1" "\<not> at_rest pr2" by (simp_all add: at_rest_def pr1_def pr2_def)
  ultimately have "es1 \<noteq> []" using x1(2) s1(1) by auto
  then obtain ev2 es2 x2 where es1: "es1 = ev2 # es2" "exec_event ops A iter ev2 pr1 = Some x2" "exec_run ops A iter es2 x2 = Some pr'"
    using x1(2) s1(1) by (cases es1) (auto simp: bind_eq_Some_conv)
  have "\<exists>j. ev2 = WakeSent j"
  proof (cases ev2)
    case (WriteAnswered j)
    then show ?thesis using es1(2) by (auto simp: pr1_def split: if_splits)
  next
    case (WakeReceived now)
    then show ?thesis using es1(2) st(1) by (simp add: pr1_def)
  qed (use s1(2) x1(4) es1(1) in auto)
  then have s2: "x2 = pr2" "said es2 = []" using es1(1,2) s1(2) sent by (auto split: if_splits)
  then have "es2 \<noteq> []" using es1(3) \<open>at_rest pr'\<close> \<open>\<not> at_rest pr2\<close> by auto
  then obtain ev3 es3 x3 where es2: "es2 = ev3 # es3" "exec_event ops A iter ev3 pr2 = Some x3" "exec_run ops A iter es3 x3 = Some pr'"
    using es1(3) s2(1) by (cases es2) (auto simp: bind_eq_Some_conv)
  have "\<exists>now. ev3 = WakeReceived now"
  proof (cases ev3)
    case (WriteAnswered j)
    then show ?thesis using es2(2) by (auto simp: pr2_def split: if_splits)
  next
    case (WakeSent j)
    then show ?thesis using es2(2) by (auto simp: pr2_def split: if_splits)
  qed (use s2(2) x1(4) es1(1) es2(1) in auto)
  then have "\<exists>now. x3 = process_wakeup ops iter now m (pr\<lparr>pr_state := s, pr_channels := chs\<rparr>)" "said es3 = []" "list_all steady es3"
    using es2(1,2) s2(2) x1(4) es1(1) woken by (auto split: if_splits)
  then obtain now where x3: "x3 = process_wakeup ops iter now m (pr\<lparr>pr_state := s, pr_channels := chs\<rparr>)" by blast
  have "es3 = []"
  proof (cases es3)
    case (Cons ev4 es4)
    then obtain x4 where "exec_event ops A iter ev4 x3 = Some x4" "steady ev4"
      using es2(3) \<open>list_all steady es3\<close> by (auto simp: bind_eq_Some_conv)
    then show ?thesis using rest_next [of p x3 ev4 ops A iter x4] quiet [of now] \<open>said es3 = []\<close> Cons x3 by auto
  qed simp
  then show "\<exists>now. pr' = process_wakeup ops iter now m (pr\<lparr>pr_state := s, pr_channels := chs\<rparr>)" using es2(3) x3 by auto
qed

section \<open>Answers\<close>

definition honest_answer :: "bytes list \<Rightarrow> peer_requested_piece \<Rightarrow> messages" where
  "honest_answer data r =
     Piece (req_index r) (req_begin r) (block_of (data ! unat (req_index r)) (req_begin r) (req_length r))"

text \<open>The completed pieces that are still to be announced.\<close>

definition pending :: "'io processor \<Rightarrow> u32 list" where
  "pending pr = concat (map completes (pr_wakeups pr)) @ (case status pr of Waking m \<Rightarrow> completes m | _ \<Rightarrow> [])"

text \<open>
  Everything was asked for, as told in \<open>base\<close>, and \<open>rest\<close> is what the peer has not answered yet.
\<close>

definition answering ::
  "('io \<Rightarrow> bool) \<Rightarrow> ('io \<Rightarrow> nat \<Rightarrow> nat set) \<Rightarrow> bytes list \<Rightarrow> v1_torrent \<Rightarrow> usize \<Rightarrow> internal_peer_id \<Rightarrow> messages list \<Rightarrow>
     peer_requested_piece list \<Rightarrow> 'io processor \<Rightarrow> bool"
where
  "answering good got data torrent max_out p base rest pr \<longleftrightarrow>
     (let t = ts_tracking (pr_state pr) in
      on_course good got data torrent max_out pr \<and> one_peer p pr \<and>
      blocks torrent \<subseteq> settled torrent t \<union> in_flight (started t) \<and> writes (status pr) \<subseteq> in_flight (started t) \<and>
      distinct (map req_key rest) \<and> req_key ` set rest = in_flight (started t) - writes (status pr) \<and>
      request_message ` set rest \<subseteq> set base \<and> (\<forall>m \<in> set (pr_wakeups pr). plain m) \<and> (\<forall>m. status pr = Waking m \<longrightarrow> plain m) \<and>
      (\<exists>ks. told pr = base @ map Have ks \<and> distinct (ks @ pending pr) \<and> set (ks @ pending pr) = pieces_completed t))"

text \<open>A schedule in which every answer is dealt with before the next is sent.\<close>

definition one_by_one :: "(u32 \<Rightarrow> instant) \<Rightarrow> messages \<Rightarrow> event list" where
  "one_by_one now msg = [PeerSends 0 msg, WriteAnswered 0, WakeSent 0, WakeReceived now]"

lemma exec_run_append: "exec_run ops A iter (xs @ ys) pr = Option.bind (exec_run ops A iter xs pr) (exec_run ops A iter ys)"
  by (induction xs arbitrary: pr) (auto split: Option.bind_splits)

lemma one_by_one_facts [simp]:
  "list_all steady (concat (map (\<lambda>r. one_by_one now (f r)) rs))"
  "said (concat (map (\<lambda>r. one_by_one now (f r)) rs)) = map f rs"
  by (induction rs) (simp_all add: one_by_one_def)

text \<open>What a round asks for.\<close>

lemma round_facts:
  assumes iter: "hash_iteration iter" and course: "on_course good got data torrent max_out pr"
  obtains reqs t1 where
    "generate_assignments iter now (pr_torrent pr) (piece_id_to_peers (pr_state pr)) (ts_tracking (pr_state pr)) = Some (reqs, t1)"
    "distinct (map req_key reqs)"
    "req_key ` set reqs \<inter> (in_flight (started (ts_tracking (pr_state pr))) \<union> finished_blocks (started (ts_tracking (pr_state pr)))) = {}"
    "in_flight (started t1) = req_key ` set reqs \<union> in_flight (started (ts_tracking (pr_state pr)))"
    "finished_blocks (started t1) = finished_blocks (started (ts_tracking (pr_state pr)))"
    "pieces_completed t1 = pieces_completed (ts_tracking (pr_state pr))"
    "downloading_requests_len t1 = downloading_requests_len (ts_tracking (pr_state pr)) + length reqs"
    "pbt_max_outstanding_requests t1 = max_out"
    "\<forall>r \<in> set reqs. req_key r \<in> blocks torrent \<and> req_index r \<notin> pieces_completed (ts_tracking (pr_state pr)) \<and>
       req_length r = block_len torrent (req_index r) (req_begin r) \<and> req_peer_id r \<in> ts_peers_not_choking (pr_state pr)"
proof -
  let ?t = "ts_tracking (pr_state pr)"
  note parts = course [unfolded on_course_def Let_def]
  have inv: "processor_inv torrent max_out pr" and tc: "tracker_course torrent ?t" using parts by simp_all
  then have good: "tracker_good torrent max_out ?t" and torrent: "pr_torrent pr = torrent" by (simp_all add: processor_inv_def)
  then have ok: "torrent_ok torrent" "tracker_inv (length (ti_pieces (t_info torrent))) ?t"
    "pbt_max_outstanding_requests ?t = max_out" by (simp_all add: tracker_good_def)
  obtain reqs t1 where g: "generate_assignments iter now torrent (piece_id_to_peers (pr_state pr)) ?t = Some (reqs, t1)"
    "distinct (map req_key reqs)" "req_key ` set reqs \<inter> (in_flight (started ?t) \<union> finished_blocks (started ?t)) = {}"
    "in_flight (started t1) = req_key ` set reqs \<union> in_flight (started ?t)"
    "finished_blocks (started t1) = finished_blocks (started ?t)" "pieces_completed t1 = pieces_completed ?t"
    "downloading_requests_len t1 = downloading_requests_len ?t + length reqs"
    "pbt_max_outstanding_requests t1 = pbt_max_outstanding_requests ?t"
    "\<forall>r \<in> set reqs. request_ok torrent iter (piece_id_to_peers (pr_state pr)) r"
    using generate_assignments_spec [OF ok(1,2), of iter now "piece_id_to_peers (pr_state pr)"] by blast
  have "finite (get_incomplete_pieces ?t)" by simp
  note avail = piece_id_to_peers_get [OF this]
  have fin: "\<forall>(x, ps) \<in> set (piece_id_to_peers (pr_state pr)). finite ps"
    using avail by (auto simp: bt_get_eq_iff [symmetric] peers_that_choke_def peer_set_def split: if_splits)
  have "req_key r \<in> blocks torrent \<and> req_index r \<notin> pieces_completed ?t \<and>
      req_length r = block_len torrent (req_index r) (req_begin r) \<and> req_peer_id r \<in> ts_peers_not_choking (pr_state pr)"
    if r: "r \<in> set reqs" for r
  proof -
    have rok: "request_ok torrent iter (piece_id_to_peers (pr_state pr)) r" using g(9) r by blast
    from hash_iteration.request_ok_peer [OF iter this avail(2) fin] obtain ps where
      ps: "bt_get (piece_id_to_peers (pr_state pr)) (req_index r) = Some ps" "req_peer_id r \<in> ps" by blast
    have "req_index r \<in> get_incomplete_pieces ?t" "req_peer_id r \<in> ts_peers_not_choking (pr_state pr)"
      using ps avail(1) [of "req_index r"] by (auto simp: peers_that_choke_def split: if_splits)
    moreover from this(1) have k: "unat (req_index r) < length (ti_pieces (t_info torrent))" "req_index r \<notin> pieces_completed ?t"
      using incomplete_iff [OF good tc] by auto
    moreover have "(req_begin r, req_length r) \<in> set (piece_blocks (assigned_size torrent (req_index r)))"
      using rok by (auto simp: request_ok_def)
    ultimately show ?thesis using piece_block_iff [OF ok(1) k(1)] by (simp add: req_key_def)
  qed
  then show ?thesis using that [of reqs t1] g ok(3) by (simp add: torrent)
qed

text \<open>When everything is in flight or settled, a round asks for nothing.\<close>

lemma covered_round:
  assumes iter: "hash_iteration iter" and course: "on_course good got data torrent max_out pr"
    and cover: "blocks torrent \<subseteq> settled torrent (ts_tracking (pr_state pr)) \<union> in_flight (started (ts_tracking (pr_state pr)))"
  obtains t1 where
    "generate_assignments iter now (pr_torrent pr) (piece_id_to_peers (pr_state pr)) (ts_tracking (pr_state pr)) = Some ([], t1)"
    "in_flight (started t1) = in_flight (started (ts_tracking (pr_state pr)))"
    "finished_blocks (started t1) = finished_blocks (started (ts_tracking (pr_state pr)))"
    "pieces_completed t1 = pieces_completed (ts_tracking (pr_state pr))"
proof (rule round_facts [OF iter course, of now])
  fix reqs t1
  let ?t = "ts_tracking (pr_state pr)"
  assume g: "generate_assignments iter now (pr_torrent pr) (piece_id_to_peers (pr_state pr)) ?t = Some (reqs, t1)"
    "req_key ` set reqs \<inter> (in_flight (started ?t) \<union> finished_blocks (started ?t)) = {}"
    "in_flight (started t1) = req_key ` set reqs \<union> in_flight (started ?t)"
    "finished_blocks (started t1) = finished_blocks (started ?t)" "pieces_completed t1 = pieces_completed ?t"
    "\<forall>r \<in> set reqs. req_key r \<in> blocks torrent \<and> req_index r \<notin> pieces_completed ?t \<and>
       req_length r = block_len torrent (req_index r) (req_begin r) \<and> req_peer_id r \<in> ts_peers_not_choking (pr_state pr)"
  have "r \<notin> set reqs" for r
  proof
    assume r: "r \<in> set reqs"
    then have "req_key r \<notin> in_flight (started ?t) \<union> finished_blocks (started ?t)" using g(2) by blast
    then show False using cover g(6) r by (auto simp: settled_def req_key_def)
  qed
  then have "reqs = []" by (cases reqs) auto
  then show ?thesis using that [of t1] g by simp
qed

text \<open>When a peer that unchokes us has every piece and the limit is not reached, everything is asked for.\<close>

lemma round_covers:
  assumes iter: "hash_iteration iter" and course: "on_course good got data torrent max_out pr"
    and p: "p \<in> ts_peers_not_choking (pr_state pr)"
      "\<forall>k. unat k < length (ti_pieces (t_info torrent)) \<longrightarrow> k \<in> has_piece (ts_block_peer_map (pr_state pr)) p"
    and gen: "generate_assignments iter now torrent (piece_id_to_peers (pr_state pr)) (ts_tracking (pr_state pr)) = Some (reqs, t1)"
    and limit: "downloading_requests_len t1 \<noteq> max_out"
  shows "blocks torrent \<subseteq> settled torrent (ts_tracking (pr_state pr)) \<union> in_flight (started t1)"
proof -
  let ?s = "pr_state pr" and ?t = "ts_tracking (pr_state pr)" and ?n = "length (ti_pieces (t_info torrent))"
  note parts = course [unfolded on_course_def Let_def]
  have tc: "tracker_course torrent ?t" and good: "tracker_good torrent max_out ?t" and si: "state_inv ?s"
    using parts by (simp_all add: processor_inv_def)
  then have ok: "torrent_ok torrent" "tracker_inv ?n ?t" by (simp_all add: tracker_good_def)
  have t1: "pbt_max_outstanding_requests t1 = max_out" "finished_blocks (started t1) = finished_blocks (started ?t)"
    using generate_assignments_spec [OF ok, of iter now "piece_id_to_peers ?s"] gen good by (auto simp: tracker_good_def)
  have "finite (get_incomplete_pieces ?t)" by simp
  note avail = piece_id_to_peers_get [OF this]
  have "(k, b) \<in> settled torrent ?t \<union> in_flight (started t1)" if kb: "(k, b) \<in> blocks torrent" for k b
  proof (cases "k \<in> pieces_completed ?t")
    case True
    then show ?thesis using kb by (simp add: settled_def)
  next
    case False
    have k: "unat k < ?n" using kb by (simp add: blocks_def)
    then have inc: "k \<in> get_incomplete_pieces ?t" using False incomplete_iff [OF good tc] by simp
    let ?peers = "peers_that_choke False ?s \<inter> get_peers_with_piece (ts_block_peer_map ?s) k"
    have "p \<in> ?peers" using p k si by (auto simp: state_inv_def peers_that_choke_def ppm_inv_def)
    moreover have "finite ?peers" by (simp add: peers_that_choke_def peer_set_def)
    ultimately have "iter ?peers \<noteq> []" using hash_iteration.iter_Nil_iff [OF iter] by blast
    moreover have "(k, ?peers) \<in> set (piece_id_to_peers ?s)" using avail inc by (simp add: bt_get_eq_iff [symmetric])
    ultimately have "piece_requested torrent t1 k"
      using round_exhausts [OF ok gen] t1(1) limit by auto
    moreover have "unat b \<in> set (block_begins (assigned_size torrent k))" by (rule block_bounds_torrent(4) [OF ok(1) kb])
    ultimately have "(k, as_u32 (unat b)) \<in> in_flight (started t1) \<union> finished_blocks (started t1)"
      unfolding piece_requested_def by blast
    then show ?thesis using t1(2) kb by (auto simp: settled_def)
  qed
  then show ?thesis by auto
qed

context reliable_store
begin

lemma answering_sends:
  assumes sized: "sized torrent data" and ans: "answering good got data torrent max_out p base (r # rest) pr"
    and idle: "status pr = Idle"
  shows "answering good got data torrent max_out p base rest (deliver ops 0 (honest_answer data r) pr)"
    "\<exists>k b f. status (deliver ops 0 (honest_answer data r) pr) = Writing k b f"
    "pr_wakeups (deliver ops 0 (honest_answer data r) pr) = pr_wakeups pr"
proof -
  let ?k = "req_index r" and ?b = "req_begin r" and ?t = "ts_tracking (pr_state pr)"
  let ?blk = "block_of (data ! unat ?k) ?b (req_length r)"
  have course: "on_course good got data torrent max_out pr" and one: "one_peer p pr"
    and keys: "req_key ` set (r # rest) = in_flight (started ?t)" "distinct (map req_key (r # rest))"
    and msgs: "request_message ` set (r # rest) \<subseteq> set base" "set base \<subseteq> set (told pr)"
    using ans idle by (auto simp: answering_def Let_def)
  note facts = one_peer_facts [OF one]
  have "(?k, ?b) \<in> in_flight (started ?t)" using keys(1) by (auto simp: req_key_def)
  moreover from this have "(?k, ?b) \<in> blocks torrent" using course by (auto simp: on_course_def Let_def tracker_course_def)
  then have "unat ?k < length data" using sized by (simp add: blocks_def sized_def)
  moreover have "Request ?k ?b (req_length r) \<in> set (ch_messages (pr_channels pr ! h_conn (pr_handlers pr ! 0)))"
    using msgs by (auto simp: request_message_def told_def facts(3))
  ultimately have honest: "honest_message data pr 0 (Piece ?k ?b ?blk)" using facts(6) idle by auto
  have i: "0 < length (pr_handlers pr)" "h_status (pr_handlers pr ! 0) = Idle" using facts(2) idle by (simp_all add: status_def)
  note block = course_block [OF sized course i honest, folded honest_answer_def]
  let ?pr = "deliver ops 0 (honest_answer data r) pr"
  obtain f where f: "status ?pr = Writing ?k ?b (Ok f)" using block(2) by (auto simp: status_def)
  have "pr_peer_to_tx ?pr = pr_peer_to_tx pr" "pr_channels ?pr = pr_channels pr"
    by (simp_all add: deliver_def honest_answer_def Let_def set_status_def split: prod.split)
  then have "one_peer p ?pr \<and> told ?pr = told pr"
    using one block(3,4) f by (auto simp: one_peer_def status_def told_def facts(8))
  moreover have "pending ?pr = pending pr" by (simp add: pending_def block(5) f idle)
  moreover have "req_key r \<notin> req_key ` set rest" using keys(2) by simp
  then have "req_key ` set rest = in_flight (started ?t) - {req_key r}" "req_key r \<in> in_flight (started ?t)"
    using keys(1) by auto
  then have "req_key ` set rest = in_flight (started ?t) - {(?k, ?b)}" "(?k, ?b) \<in> in_flight (started ?t)"
    by (simp_all add: req_key_def)
  ultimately show "answering good got data torrent max_out p base rest ?pr"
    using ans block(1,3,5) f by (auto simp: answering_def Let_def)
  show "\<exists>k b f. status ?pr = Writing k b f" "pr_wakeups ?pr = pr_wakeups pr" using f block(5) by auto
qed

lemma answering_answered:
  assumes sized: "sized torrent data" and ans: "answering good got data torrent max_out p base rest pr"
    and st: "status pr = Writing k b res"
  shows "answering good got data torrent max_out p base rest (write_answered 0 k b res pr)"
    "\<exists>m. status (write_answered 0 k b res pr) = Waking m" "pr_wakeups (write_answered 0 k b res pr) = pr_wakeups pr"
proof -
  let ?t = "ts_tracking (pr_state pr)" and ?hs = "pr_handlers pr"
  have course: "on_course good got data torrent max_out pr" and one: "one_peer p pr"
    and kb: "(k, b) \<in> in_flight (started ?t)" using ans st by (auto simp: answering_def Let_def)
  note facts = one_peer_facts [OF one] and parts = course [unfolded on_course_def Let_def]
  have i: "0 < length ?hs" "h_status (?hs ! 0) = Writing k b res" using facts(2) st by (simp_all add: status_def)
  note answered = course_answered [OF course i]
  have tg: "tracker_good torrent max_out ?t" and tc: "tracker_course torrent ?t" and hc: "handlers_course torrent data ?t ?hs"
    using parts by (simp_all add: processor_inv_def)
  have new: "k \<notin> pieces_completed ?t" by (rule in_flight_missing [OF tc kb])
  have "status_course torrent data ?t (h_status (?hs ! 0))" using hc i(1) unfolding handlers_course_def by (meson nth_mem)
  then obtain f where f: "res = Ok f" using i(2) by (cases res) auto
  define m where "m = (if f then PieceComplete k else Wakeup)"
  define t' where "t' = (if f then set_piece_finished k ?t else snd (set_request_finished k b ?t))"
  have eq: "write_answered 0 k b res pr =
      pr\<lparr>pr_state := (pr_state pr)\<lparr>ts_tracking := t'\<rparr>, pr_handlers := [\<lparr>h_peer = p, h_conn = 0, h_status = Waking m\<rparr>]\<rparr>"
    using one by (simp add: write_answered_def finish_write_def f set_status_def m_def t'_def one_peer_def)
  have last: "in_flight (started ?t) \<inter> {k} \<times> UNIV = {(k, b)}" if f
  proof -
    obtain io where "store_course got torrent ?t ?hs io" using parts by blast
    moreover have k: "unat k < length (ti_pieces (t_info torrent))" using tc kb by (auto simp: tracker_course_def blocks_def)
    moreover have "k \<in> finished_writes ?hs" using facts(7) st f that by simp
    ultimately have "spans torrent (finished_blocks (started ?t) \<union> {(k, b)}) k = {..<assigned_size torrent k}"
      using new facts(6) st by (auto simp: store_course_def)
    moreover have "finished_blocks (started ?t) \<union> {(k, b)} \<subseteq> blocks torrent" "torrent_ok torrent"
      using tc kb tg by (auto simp: tracker_course_def tracker_good_def)
    ultimately have "\<forall>c. (k, c) \<in> blocks torrent \<longrightarrow> (k, c) \<in> finished_blocks (started ?t) \<union> {(k, b)}"
      using spans_full_iff [of torrent k "finished_blocks (started ?t) \<union> {(k, b)}"] k by simp
    moreover have "in_flight (started ?t) \<inter> finished_blocks (started ?t) = {}" "in_flight (started ?t) \<subseteq> blocks torrent"
      using tg tc by (auto simp: tracker_good_def tracker_inv_def maps_ok_def tracker_course_def)
    ultimately show ?thesis using kb by blast
  qed
  have tr: "pieces_completed t' = pieces_completed ?t \<union> (if f then {k} else {})"
    "in_flight (started t') = in_flight (started ?t) - {(k, b)}"
    subgoal using piece_finished_course(2) [OF tg tc, of k b t'] request_finished_course(2) [OF tg tc, of t' k b] kb
      by (cases f) (simp_all add: t'_def)
    subgoal using piece_finished_course(3) [OF tg tc, of k b t'] request_finished_course(3) [OF tg tc, of t' k b] kb last
      by (cases f) (auto simp: t'_def)
    done
  have "settled torrent ?t \<union> {(k, b)} \<subseteq> settled torrent t'" using answered(2) by (simp add: eq)
  moreover have "one_peer p (write_answered 0 k b res pr)" using one by (simp add: one_peer_def eq status_def)
  moreover have "pending (write_answered 0 k b res pr) = pending pr @ completes m" by (simp add: pending_def eq status_def st [unfolded status_def])
  moreover have "completes m = (if f then [k] else [])" "plain m" by (simp_all add: m_def)
  moreover have "told (write_answered 0 k b res pr) = told pr" "status (write_answered 0 k b res pr) = Waking m"
    by (simp_all add: told_def eq status_def)
  ultimately show "answering good got data torrent max_out p base rest (write_answered 0 k b res pr)"
    using ans answered(1) new st tr by (auto simp: answering_def Let_def eq split: if_splits)
  show "\<exists>m. status (write_answered 0 k b res pr) = Waking m" "pr_wakeups (write_answered 0 k b res pr) = pr_wakeups pr"
    by (simp_all add: eq status_def)
qed

lemma answering_sent:
  assumes ans: "answering good got data torrent max_out p base rest pr" and st: "status pr = Waking m"
  defines "pr' \<equiv> set_status 0 Idle (pr\<lparr>pr_wakeups := pr_wakeups pr @ [m]\<rparr>)"
  shows "answering good got data torrent max_out p base rest pr'" "status pr' = Idle" "pr_wakeups pr' = pr_wakeups pr @ [m]"
proof -
  have course: "on_course good got data torrent max_out pr" and one: "one_peer p pr" using ans by (auto simp: answering_def Let_def)
  have i: "0 < length (pr_handlers pr)" "h_status (pr_handlers pr ! 0) = Waking m"
    using one_peer_facts(2) [OF one] st by (simp_all add: status_def)
  have eq: "pr' = pr\<lparr>pr_wakeups := pr_wakeups pr @ [m], pr_handlers := [\<lparr>h_peer = p, h_conn = 0, h_status = Idle\<rparr>]\<rparr>"
    using one_peer_facts(8) [OF one] by (simp add: pr'_def set_status_def)
  have "one_peer p pr'" "pending pr' = pending pr" "told pr' = told pr" "status pr' = Idle"
    using one by (simp_all add: one_peer_def eq status_def pending_def told_def st [unfolded status_def])
  then show "answering good got data torrent max_out p base rest pr'" "status pr' = Idle" "pr_wakeups pr' = pr_wakeups pr @ [m]"
    using ans course_sent [OF course i] st by (auto simp: answering_def Let_def eq pr'_def [symmetric])
qed

lemma answering_woken:
  fixes now :: "u32 \<Rightarrow> instant"
  assumes sized: "sized torrent data" and iter: "hash_iteration iter"
    and ans: "answering good got data torrent max_out p base rest pr" and wk: "pr_wakeups pr = m # ms"
  defines "pr' \<equiv> process_wakeup ops iter now m (pr\<lparr>pr_wakeups := ms\<rparr>)"
  shows "answering good got data torrent max_out p base rest pr'" "status pr' = status pr" "pr_wakeups pr' = ms"
proof -
  let ?t = "ts_tracking (pr_state pr)" and ?pr0 = "pr\<lparr>pr_wakeups := ms\<rparr>"
  have course: "on_course good got data torrent max_out pr" and one: "one_peer p pr"
    and cover: "blocks torrent \<subseteq> settled torrent ?t \<union> in_flight (started ?t)" and m: "plain m"
    using ans wk by (auto simp: answering_def Let_def)
  note wake = course_wake [OF sized iter course wk pr'_def [THEN meta_eq_to_obj_eq]]
  obtain t1 where t1: "generate_assignments iter now (pr_torrent pr) (piece_id_to_peers (pr_state pr)) ?t = Some ([], t1)"
    "in_flight (started t1) = in_flight (started ?t)" "finished_blocks (started t1) = finished_blocks (started ?t)"
    "pieces_completed t1 = pieces_completed ?t"
    by (rule covered_round [OF iter course cover])
  have one0: "one_peer p ?pr0" using one by (simp add: one_peer_def status_def)
  have eq: "pr' = pr\<lparr>pr_wakeups := ms, pr_state := (pr_state pr)\<lparr>ts_tracking := t1\<rparr>,
      pr_channels := send_all (map (\<lambda>m. (0, m)) (map Have (completes m))) (pr_channels pr)\<rparr>"
    using one_peer_wake [OF one0, of iter now "[]" t1 m ops] t1(1) m by (simp add: pr'_def)
  have st: "status pr' = status pr" by (simp add: eq status_def)
  have told: "told pr' = told pr @ map Have (completes m)" "ch_open (pr_channels pr' ! 0)"
    using told_send_all [OF one, of "map Have (completes m)"] by (simp_all add: told_def eq)
  have "one_peer p pr'" using one told(2) st by (simp add: one_peer_def eq)
  moreover have "pending pr = completes m @ pending pr'" using st by (simp add: pending_def wk eq)
  moreover obtain ks where ks: "told pr = base @ map Have ks" "distinct (ks @ pending pr)" "set (ks @ pending pr) = pieces_completed ?t"
    using ans by (auto simp: answering_def Let_def)
  ultimately have "told pr' = base @ map Have (ks @ completes m)" "distinct ((ks @ completes m) @ pending pr')"
    "set ((ks @ completes m) @ pending pr') = pieces_completed ?t"
    using told(1) by simp_all
  moreover have "settled torrent t1 = settled torrent ?t" by (simp add: settled_def t1)
  moreover have "ts_tracking (pr_state pr') = t1" "\<forall>m \<in> set (pr_wakeups pr'). plain m" using ans wk by (auto simp: eq answering_def Let_def)
  ultimately show "answering good got data torrent max_out p base rest pr'"
    using ans wake(1) \<open>one_peer p pr'\<close> unfolding answering_def Let_def st t1(2) by (metis t1(2,4))
  show "status pr' = status pr" "pr_wakeups pr' = ms" using st wake(4) by simp_all
qed

text \<open>Whatever the schedule, the client only gets on with the answers.\<close>

lemma answering_step:
  assumes sized: "sized torrent data" and iter: "hash_iteration iter"
    and ans: "answering good got data torrent max_out p base rest pr"
    and ev: "steady ev" "said (ev # evs) = map (honest_answer data) rest" "exec_event ops A iter ev pr = Some pr'"
  shows "\<exists>rest'. answering good got data torrent max_out p base rest' pr' \<and> said evs = map (honest_answer data) rest'"
proof -
  have i: "i = 0 \<and> h_status (pr_handlers pr ! i) = status pr" if "i < length (pr_handlers pr)" for i
    using ans one_peer_facts(2) [of p pr] that by (simp add: answering_def Let_def status_def)
  show ?thesis
  proof (cases ev)
    case (PeerSends j msg)
    then obtain r rest' where r: "rest = r # rest'" "msg = honest_answer data r" "said evs = map (honest_answer data) rest'"
      using ev(2) by auto
    have "j = 0" "status pr = Idle" "pr' = deliver ops 0 msg pr" using ev(3) i [of j] by (auto simp: PeerSends split: if_splits)
    then show ?thesis using answering_sends(1) [OF sized] ans r by blast
  next
    case (WriteAnswered j)
    then obtain k b res where "status pr = Writing k b res" "pr' = write_answered 0 k b res pr"
      using ev(3) i [of j] by (cases "status pr") (auto split: if_splits)
    then show ?thesis using answering_answered(1) [OF sized ans] ev(2) WriteAnswered by auto
  next
    case (WakeSent j)
    then obtain m where "status pr = Waking m" "pr' = set_status 0 Idle (pr\<lparr>pr_wakeups := pr_wakeups pr @ [m]\<rparr>)"
      using ev(3) i [of j] by (cases "status pr") (auto split: if_splits)
    then show ?thesis using answering_sent(1) [OF ans] ev(2) WakeSent by auto
  next
    case (WakeReceived now)
    then obtain m ms where "pr_wakeups pr = m # ms" "pr' = process_wakeup ops iter now m (pr\<lparr>pr_wakeups := ms\<rparr>)"
      using ev(3) by (auto split: list.splits if_splits)
    then show ?thesis using answering_woken(1) [OF sized iter ans] ev(2) WakeReceived by auto
  qed (use ev(1) in simp_all)
qed

lemma answering_run:
  assumes sized: "sized torrent data" and iter: "hash_iteration iter"
  shows "answering good got data torrent max_out p base rest pr \<Longrightarrow> list_all steady evs \<Longrightarrow>
    said evs = map (honest_answer data) rest \<Longrightarrow> exec_run ops A iter evs pr = Some pr' \<Longrightarrow>
    answering good got data torrent max_out p base [] pr'"
proof (induction evs arbitrary: rest pr)
  case (Cons ev evs)
  obtain pr1 where pr1: "exec_event ops A iter ev pr = Some pr1" "exec_run ops A iter evs pr1 = Some pr'"
    using Cons.prems(4) by (auto simp: bind_eq_Some_conv)
  obtain rest' where "answering good got data torrent max_out p base rest' pr1" "said evs = map (honest_answer data) rest'"
    using answering_step [OF sized iter Cons.prems(1) _ Cons.prems(3) pr1(1)] Cons.prems(2) by auto
  then show ?case using Cons.IH pr1(2) Cons.prems(2) by simp
qed simp

text \<open>When everything is answered and at rest, every piece was announced once.\<close>

lemma answering_end:
  assumes sized: "sized torrent data" and ans: "answering good got data torrent max_out p base [] pr" and rest: "at_rest pr"
  shows "\<exists>ks. told pr = base @ map Have ks \<and> distinct ks \<and> set ks = {k. unat k < length (ti_pieces (t_info torrent))}"
proof -
  let ?t = "ts_tracking (pr_state pr)"
  have course: "on_course good got data torrent max_out pr" and one: "one_peer p pr"
    and cover: "blocks torrent \<subseteq> settled torrent ?t \<union> in_flight (started ?t)"
    using ans by (auto simp: answering_def Let_def)
  have idle: "pr_wakeups pr = []" "status pr = Idle" using rest one_peer_facts(10) [OF one] by simp_all
  have none: "in_flight (started ?t) = {}" using ans idle by (simp add: answering_def Let_def)
  have "resting pr" using rest by (simp add: resting_def at_rest_def list_all_iff)
  have "pieces_completed ?t = {k. unat k < length (ti_pieces (t_info torrent))}"
  proof (intro set_eqI iffI; clarify)
    fix k assume "k \<in> pieces_completed ?t"
    then show "unat k < length (ti_pieces (t_info torrent))"
      using course by (auto simp: on_course_def Let_def tracker_course_def)
  next
    fix k :: u32 assume k: "unat k < length (ti_pieces (t_info torrent))"
    show "k \<in> pieces_completed ?t"
    proof (rule ccontr)
      assume "k \<notin> pieces_completed ?t"
      then obtain b where "(k, b) \<in> blocks torrent - settled torrent ?t"
        by (rule missing_block [OF sized course \<open>resting pr\<close> k])
      then show False using cover none by blast
    qed
  qed
  moreover have "pending pr = []" by (simp add: pending_def idle)
  ultimately show ?thesis using ans by (auto simp: answering_def Let_def)
qed

text \<open>And there is such a schedule.\<close>

lemma answering_possible:
  assumes sized: "sized torrent data" and iter: "hash_iteration iter"
  shows "answering good got data torrent max_out p base rest pr \<Longrightarrow> at_rest pr \<Longrightarrow>
    \<exists>pr'. converse ops A iter (map (honest_answer data) rest) (concat (map (one_by_one now \<circ> honest_answer data) rest)) pr = Some pr'"
proof (induction rest arbitrary: pr)
  case Nil
  then show ?case by (simp add: converse_def)
next
  case (Cons r rest)
  let ?pr1 = "deliver ops 0 (honest_answer data r) pr"
  have one: "one_peer p pr" and course: "on_course good got data torrent max_out pr" using Cons.prems(1) by (auto simp: answering_def Let_def)
  have start: "status pr = Idle" "pr_wakeups pr = []" using Cons.prems(2) one_peer_facts(10) [OF one] by simp_all
  note a1 = answering_sends [OF sized Cons.prems(1) start(1)]
  obtain k b res where w: "status ?pr1 = Writing k b res" using a1(2) by blast
  let ?pr2 = "write_answered 0 k b res ?pr1"
  note a2 = answering_answered [OF sized a1(1) w]
  obtain m where m: "status ?pr2 = Waking m" using a2(2) by blast
  let ?pr3 = "set_status 0 Idle (?pr2\<lparr>pr_wakeups := pr_wakeups ?pr2 @ [m]\<rparr>)"
  note a3 = answering_sent [OF a2(1) m]
  have wk: "pr_wakeups ?pr3 = m # []" using a3(3) a2(3) a1(3) start(2) by simp
  let ?pr4 = "process_wakeup ops iter now m (?pr3\<lparr>pr_wakeups := []\<rparr>)"
  note a4 = answering_woken [OF sized iter a3(1) wk, of now]
  have loops: "pr_loop x = Looping \<and> length (pr_handlers x) = 1" if "answering good got data torrent max_out p base rs x" for x rs
    using that one_peer_facts(2) [of p x] by (simp add: answering_def on_course_def Let_def)
  have e: "status x = h_status (pr_handlers x ! 0)" for x :: "'io processor" by (simp add: status_def)
  have "exec_run ops A iter (one_by_one now (honest_answer data r)) pr = Some ?pr4"
    using loops [OF Cons.prems(1)] loops [OF a1(1)] loops [OF a2(1)] loops [OF a3(1)] start w m wk a1(3) a2(3)
    by (simp add: one_by_one_def e wakeup_capacity_def)
  moreover have "one_peer p ?pr4" using a4(1) by (simp add: answering_def Let_def)
  then have "at_rest ?pr4" using a4(2,3) a3(2) one_peer_facts(10) [of p ?pr4] by simp
  then obtain pr' where "converse ops A iter (map (honest_answer data) rest) (concat (map (one_by_one now \<circ> honest_answer data) rest)) ?pr4 = Some pr'"
    using Cons.IH [OF a4(1)] by blast
  moreover have "said (one_by_one now (honest_answer data r) @ evs) = honest_answer data r # said evs"
    "list_all steady (one_by_one now (honest_answer data r))" for evs
    by (simp_all add: one_by_one_def)
  ultimately show ?case by (simp add: converse_Some exec_run_append comp_def)
qed

end

end
