(* ===== verification/Choke_Test.thy ===== *)
theory Choke_Test
  imports One_Peer Tracker_Tests
begin

text \<open>
  The integration test of \<open>src/peer/state/mod.rs\<close>: a processor with the in-memory store and one peer, which has both pieces
  of the torrent, chokes us, unchokes us, and answers all 626 requests. The test runs on the model as it runs on the program:
  what the peer says, what it waits for, and what it asserts. The events between are a parameter, a
  schedule for each of the three times the peer speaks; the result is \<open>None\<close> if a schedule is none of the conversation.
  The ticks of the timer, every five seconds, find nothing to give up in this test and are left out.
\<close>

section \<open>The test\<close>

definition peer_start_fixture :: event where
  "peer_start_fixture = PeerStarts (replicate 20 10) True"

definition setup_test ::
  "bytes_api \<Rightarrow> (internal_peer_id set \<Rightarrow> internal_peer_id list) \<Rightarrow> memory_torrent_io processor option"
where
  "setup_test A iter =
     (let config = default_config\<lparr>max_outstanding_requests := 1024\<rparr>; torrent = torrent_fixture [1, 20] in
      Option.bind (memory_new torrent) (\<lambda>io.
      exec_run memory_ops A iter [peer_start_fixture] (processor_new config torrent io)))"

text \<open>
  What waits in the peer's channel once the client is at rest, after the \<open>taken\<close> messages received before. Expecting
  none means that none arrives in time; a message that arrives is returned, and a timeout is a panic otherwise.
\<close>

definition wait_rx :: "'io processor \<Rightarrow> nat \<Rightarrow> nat \<Rightarrow> messages list option" where
  "wait_rx pr taken expect =
     (let waiting = drop taken (told pr) in
      if expect = 0 then Some (take 1 waiting)
      else if length waiting < expect then None
      else Some (take expect waiting))"

definition await_expected_initial_messages :: "'io processor \<Rightarrow> bool" where
  "await_expected_initial_messages pr \<longleftrightarrow>
     wait_rx pr 0 3 = Some [BitField [0], Flag Choke, Flag NotInterested]"

definition send_bitfield :: "bytes_api \<Rightarrow> u32 set \<Rightarrow> usize \<Rightarrow> messages option" where
  "send_bitfield A pieces set_len = map_option (\<lambda>w. BitField (bw_bytes w)) (put_bit_set A (writer_new []) pieces set_len)"

fun answer :: "messages \<Rightarrow> messages option" where
  "answer (Request index begin len) = Some (Piece index begin (replicate (unat len) 0))"
| "answer _ = None"

fun have_index :: "messages \<Rightarrow> u32 option" where
  "have_index (Have piece_index) = Some piece_index"
| "have_index _ = None"

definition connection_handles_choke_events ::
  "bytes_api \<Rightarrow> (internal_peer_id set \<Rightarrow> internal_peer_id list) \<Rightarrow> event list \<Rightarrow> event list \<Rightarrow> event list \<Rightarrow> bool option"
where
  "connection_handles_choke_events A iter first second third =
     (case setup_test A iter of
        None \<Rightarrow> Some False
      | Some pr \<Rightarrow>
          if \<not> await_expected_initial_messages pr then Some False else
          (case send_bitfield A {0, 1} 2 of
             None \<Rightarrow> Some False
           | Some bitfield \<Rightarrow>
               Option.bind (converse memory_ops A iter [bitfield, Flag Choke, Flag NotInterested] first pr) (\<lambda>pr.
               if wait_rx pr 3 1 \<noteq> Some [Flag Interested] \<or> wait_rx pr 4 0 \<noteq> Some [] then Some False else
               Option.bind (converse memory_ops A iter [Flag Unchoke] second pr) (\<lambda>pr.
               let expected = 10240000 div 16384 + 1 in
               case wait_rx pr 4 expected of
                 None \<Rightarrow> Some False
               | Some msgs \<Rightarrow>
                   let pieces = List.map_filter answer msgs in
                   if length msgs \<noteq> expected \<or> length pieces \<noteq> expected then Some False else
                   Option.bind (converse memory_ops A iter pieces third pr) (\<lambda>pr.
                   case wait_rx pr (4 + expected) 2 of
                     None \<Rightarrow> Some False
                   | Some msgs \<Rightarrow>
                       Some (list_all (\<lambda>m. have_index m \<noteq> None) msgs \<and>
                         sort_key (\<lambda>m. the (have_index m)) msgs = [Have 0, Have 1]))))))"

section \<open>The torrent and its blocks\<close>

abbreviation test_torrent :: v1_torrent where
  "test_torrent \<equiv> torrent_fixture [1, 20]"

abbreviation test_data :: "bytes list" where
  "test_data \<equiv> replicate 2 (replicate 5120000 0)"

abbreviation the_peer :: internal_peer_id where
  "the_peer \<equiv> replicate 20 10"

abbreviation test_course :: "memory_torrent_io processor \<Rightarrow> bool" where
  "test_course \<equiv> on_course (memory_good test_data) memory_got test_data test_torrent 1024"

lemma test_pieces: "length (ti_pieces (t_info (torrent_fixture h))) = 2"
  by (simp add: torrent_fixture_def torrent_fixture_impl_def Let_def)

lemma two_ids: "unat (k :: u32) < 2 \<longleftrightarrow> k = 0 \<or> k = 1"
proof -
  have "unat k < 2 \<longleftrightarrow> unat k = unat (0 :: u32) \<or> unat k = unat (1 :: u32)" by auto
  then show ?thesis by (simp only: word_unat_eq_iff)
qed

lemma test_sized: "sized test_torrent test_data"
proof -
  have "length (test_data ! unat k) = assigned_size test_torrent k" if "unat k < 2" for k :: u32
    using that fixture_size [of k "[1, 20]"] by (auto simp: two_ids)
  then show ?thesis by (simp add: sized_def fixture_ok test_pieces)
qed

lemma test_blocks: "card (blocks test_torrent) = 626"
proof -
  let ?B = "set (block_begins 5120000)"
  have len: "length (block_begins 5120000) = 313" by (simp add: block_begins_def PIECE_BLOCK_SIZE_def)
  then have card: "card ?B = 313" using distinct_card [OF distinct_block_begins, of 5120000] by simp
  have "inj_on as_u32 ?B"
  proof (rule inj_onI)
    fix x y assume "x \<in> ?B" "y \<in> ?B" and eq: "as_u32 x = as_u32 y"
    then have "x < 2 ^ 32" "y < 2 ^ 32" by (simp_all add: in_block_begins)
    then have "unat (as_u32 x) = x" "unat (as_u32 y) = y" by (simp_all add: unat_as_u32_small)
    then show "x = y" using eq by metis
  qed
  then have "card (as_u32 ` ?B) = 313" using card by (simp add: card_image)
  moreover have "blocks test_torrent = {0, 1} \<times> as_u32 ` ?B"
    using fixture_size [of _ "[1, 20]"] by (auto simp: blocks_def test_pieces two_ids)
  ultimately show ?thesis by (simp add: card_cartesian_product)
qed

section \<open>The start\<close>

text \<open>Nothing was asked for yet.\<close>

definition nothing_asked :: "'io processor \<Rightarrow> bool" where
  "nothing_asked pr \<longleftrightarrow>
     (let t = ts_tracking (pr_state pr) in
      in_flight (started t) = {} \<and> finished_blocks (started t) = {} \<and> pieces_completed t = {})"

lemma empty_bitfield:
  assumes "bytes_laws A"
  obtains w where "put_bit_set A (writer_new []) {} 2 = Some w" "bw_bytes w = [0]"
proof -
  obtain w where w: "put_bit_set A (writer_new []) {} 2 = Some w" "writer_rel w (map (\<lambda>i. False) [0..<2])"
    using put_bit_set_rel [OF assms, of 2 "{}"] by auto
  then have "length (bw_bytes w) = 1" and zero: "\<And>n. \<not> bf_bit (bw_bytes w) n"
    by (auto simp: writer_rel_def)
  then obtain x where x: "bw_bytes w = [x]" by (cases "bw_bytes w") auto
  have "x = 0"
  proof (rule bit_word_eqI)
    fix n assume "n < LENGTH(8)"
    then have "\<not> bit x (7 - (7 - n) mod 8)" using zero [of "7 - n"] by (simp add: bf_bit_def x)
    moreover have "7 - (7 - n) mod 8 = n" using \<open>n < LENGTH(8)\<close> by simp
    ultimately show "bit x n \<longleftrightarrow> bit (0 :: u8) n" by simp
  qed
  then show ?thesis using that w(1) x by simp
qed

lemma bitfield_of_both:
  assumes "bytes_laws A"
  obtains bf where "send_bitfield A {0, 1} 2 = Some (BitField bf)" "pieces_present bf = [0, 1]"
proof -
  obtain w pad where w: "put_bit_set A (writer_new []) {0, 1} 2 = Some w"
    "iter_drain (iter_from (bw_bytes w)) = map (\<lambda>i. as_u32 i \<in> {0, 1}) [0..<2] @ replicate pad False"
    using bitfield_roundtrip [OF assms, of 2 "{0, 1}"] by auto
  have "[0..<2] = [0, 1 :: nat]" by (simp add: upt_rec)
  moreover have "filter (\<lambda>(_, was_set). was_set) (enumerate n (replicate pad False)) = []" for n
    by (auto simp: filter_empty_conv in_set_enumerate_eq)
  ultimately have "pieces_present (bw_bytes w) = [0, 1]"
    by (simp add: pieces_present_def w(2) enumerate_append_eq)
  then show ?thesis using that w(1) by (simp add: send_bitfield_def)
qed

lemma test_memory: "memory_new test_torrent = Some [memory_from (replicate 5120000 0), memory_from (replicate 5120000 0)]"
proof -
  have "allocate_torrent test_torrent = Some \<lparr>total_pieces = 2, max_piece_size = 5120000, last_piece_size = 5120000\<rparr>"
    by (simp add: torrent_fixture_def torrent_fixture_impl_def allocate_torrent_def i64_as_usize_def usize_sub_def
        usize_mul_def usize_max_def Let_def)
  moreover have "[1..<2] = [1 :: nat]" by (simp add: upt_rec)
  ultimately show ?thesis by (simp add: memory_new_Some_iff fits_memory_def)
qed

lemma test_start:
  assumes A: "bytes_laws A"
  obtains pr where "setup_test A iter = Some pr" "test_course pr" "one_peer the_peer pr" "at_rest pr"
    "told pr = [BitField [0], Flag Choke, Flag NotInterested]" "nothing_asked pr" "ts_peers_not_choking (pr_state pr) = {}"
    "pieces_not_started (ts_tracking (pr_state pr)) = {0, 1}" "has_piece (ts_block_peer_map (pr_state pr)) the_peer = {}"
proof -
  let ?io = "[memory_from (replicate 5120000 0), memory_from (replicate 5120000 0)]"
  define cfg where "cfg = default_config\<lparr>max_outstanding_requests := 1024\<rparr>"
  define pr0 where "pr0 = processor_new cfg test_torrent ?io"
  obtain w where w: "put_bit_set A (writer_new []) {} 2 = Some w" "bw_bytes w = [0]" by (rule empty_bitfield [OF A])
  have init: "processor_init test_torrent 1024 (processor_new cfg test_torrent ?io)"
    unfolding processor_init_def using fixture_ok by (intro conjI exI [of _ cfg] exI) (simp_all add: cfg_def)
  have "holding (replicate 5120000 0) (replicate 5120000 0) (slices_new 5120000)"
    using holding_new [of "replicate 5120000 0" "replicate 5120000 0"] by simp
  then have "memory_good test_data ?io" "memory_got ?io i = {}" for i
    by (auto simp: memory_good_def memory_got_def memory_from_def nth_Cons less_Suc_eq numeral_2_eq_2 split: nat.split)
  then have course: "test_course pr0"
    using memory_store.course_start [OF test_sized init] by (simp add: pr0_def)
  let ?pr = "accept_peer A the_peer True pr0"
  have "test_course ?pr" by (rule course_accept [OF A course])
  moreover have eq: "?pr = pr0\<lparr>pr_channels := [\<lparr>ch_messages = [BitField [0], Flag Choke, Flag NotInterested], ch_open = True\<rparr>],
      pr_peer_to_tx := [(the_peer, 0)], pr_handlers := [\<lparr>h_peer = the_peer, h_conn = 0, h_status = Idle\<rparr>]\<rparr>"
    by (simp add: accept_peer_def init_connection_def pr0_def processor_new_def torrent_state_new_def tracker_new_def
        test_pieces w send_def Let_def bt_empty_def)
  moreover have "setup_test A iter = Some ?pr"
    by (simp add: setup_test_def Let_def test_memory peer_start_fixture_def pr0_def cfg_def processor_new_def)
  moreover have "{0..<2 :: nat} = {0, 1}" by auto
  ultimately show ?thesis
    using that [of ?pr]
    by (simp add: eq one_peer_def status_def at_rest_def told_def nothing_asked_def Let_def pr0_def processor_new_def
        torrent_state_new_def tracker_new_def test_pieces empty_block_map_def bt_empty_def has_piece_def in_flight_def finished_blocks_def
        visit_req_map_def)
qed

section \<open>Choked\<close>

text \<open>The peer has everything and chokes us: it was told that we are interested, and nothing is asked for.\<close>

definition choked :: "memory_torrent_io processor \<Rightarrow> bool" where
  "choked pr \<longleftrightarrow>
     test_course pr \<and> one_peer the_peer pr \<and> nothing_asked pr \<and> ts_peers_not_choking (pr_state pr) = {} \<and>
     has_piece (ts_block_peer_map (pr_state pr)) the_peer = {0, 1} \<and>
     (\<forall>m \<in> set (pr_wakeups pr). m = Wakeup) \<and> (status pr = Idle \<or> status pr = Waking Wakeup) \<and>
     told pr = [BitField [0], Flag Choke, Flag NotInterested, Flag Interested]"

lemma quiet_course:
  assumes course: "test_course pr" and one: "one_peer the_peer pr" and idle: "status pr = Idle"
    and msg: "\<And>k b blk. msg \<noteq> Piece k b blk" "\<And>k b n. msg \<noteq> Request k b n"
  shows "test_course (deliver memory_ops 0 msg pr)"
proof -
  have "0 < length (pr_handlers pr)" "h_status (pr_handlers pr ! 0) = Idle"
    using one_peer_facts(2) [OF one] idle by (simp_all add: status_def)
  moreover have "honest_message test_data pr 0 msg" using msg by (cases msg) auto
  ultimately show ?thesis using memory_store.course_quiet_message [OF course _ _ msg(1)] by blast
qed

lemma bitfield_heard:
  assumes course: "test_course pr" and one: "one_peer the_peer pr" and rest: "at_rest pr" and none: "nothing_asked pr"
    and told: "told pr = [BitField [0], Flag Choke, Flag NotInterested]" and choking: "ts_peers_not_choking (pr_state pr) = {}"
    and fresh: "pieces_not_started (ts_tracking (pr_state pr)) = {0, 1}" "has_piece (ts_block_peer_map (pr_state pr)) the_peer = {}"
    and bf: "pieces_present bf = [0, 1]"
  shows "choked (deliver memory_ops 0 (BitField bf) pr)" "status (deliver memory_ops 0 (BitField bf) pr) = Waking Wakeup"
proof -
  have start: "status pr = Idle" "pr_wakeups pr = []" using rest one_peer_facts(10) [OF one] by simp_all
  obtain change s where add: "add_pieces_for_peer the_peer [0, 1] (pr_state pr) = (change, s)" by fastforce
  note spec = add_pieces_spec [OF add]
  have "change = Some True"
    using spec(1,3,7) fresh by (simp add: our_interest_def peer_interest_eq)
  moreover obtain chs where chs: "send 0 (Flag Interested) (pr_channels pr) = (True, chs)"
    using send_True [OF one_peer_facts(1) [OF one]] by blast
  ultimately have "handle_msg memory_ops the_peer 0 (BitField bf) (pr_state pr, pr_channels pr, pr_io pr) =
      (Waking Wakeup, s, chs, pr_io pr)"
    by (simp add: bf add tell_interest_def interest_msg_def)
  note eq = deliver_quiet [OF one this]
  have "told (deliver memory_ops 0 (BitField bf) pr) = told pr @ [Flag Interested]"
    "one_peer the_peer (deliver memory_ops 0 (BitField bf) pr)"
    using one told_send_all [OF one, of "[Flag Interested]"] chs send_facts(2) [of 0 "Flag Interested" "pr_channels pr"] spec(2) by (simp_all add: eq one_peer_def told_def status_def)
  moreover have "test_course (deliver memory_ops 0 (BitField bf) pr)" by (rule quiet_course [OF course one start(1)]) simp_all
  ultimately show "choked (deliver memory_ops 0 (BitField bf) pr)" "status (deliver memory_ops 0 (BitField bf) pr) = Waking Wakeup"
    using none told choking spec(1,3,5) start by (simp_all add: choked_def eq nothing_asked_def status_def fresh)
qed

text \<open>It stays like that, whatever the schedule, while the peer only says that it chokes us and is not interested.\<close>

lemma choked_says:
  assumes ch: "choked pr" and idle: "status pr = Idle" and f: "f = Choke \<or> f = NotInterested"
  shows "choked (deliver memory_ops 0 (Flag f) pr)" "status (deliver memory_ops 0 (Flag f) pr) = Waking Wakeup"
    "pr_wakeups (deliver memory_ops 0 (Flag f) pr) = pr_wakeups pr"
proof -
  have one: "one_peer the_peer pr" and course: "test_course pr" using ch by (simp_all add: choked_def)
  have "handle_msg memory_ops the_peer 0 (Flag f) (pr_state pr, pr_channels pr, pr_io pr) =
      (Waking Wakeup, set_flag the_peer f (pr_state pr), pr_channels pr, pr_io pr)" by simp
  note eq = deliver_quiet [OF one this]
  have s: "ts_tracking (set_flag the_peer f (pr_state pr)) = ts_tracking (pr_state pr)"
    "ts_block_peer_map (set_flag the_peer f (pr_state pr)) = ts_block_peer_map (pr_state pr)"
    "ts_outstanding (set_flag the_peer f (pr_state pr)) = ts_outstanding (pr_state pr)"
    "ts_peers_not_choking (set_flag the_peer f (pr_state pr)) \<subseteq> ts_peers_not_choking (pr_state pr)"
    using f by (auto simp: set_peer_choked_us_facts set_peers_interested_facts)
  have "test_course (deliver memory_ops 0 (Flag f) pr)" by (rule quiet_course [OF course one idle]) simp_all
  then show "choked (deliver memory_ops 0 (Flag f) pr)" "status (deliver memory_ops 0 (Flag f) pr) = Waking Wakeup"
    "pr_wakeups (deliver memory_ops 0 (Flag f) pr) = pr_wakeups pr"
    using ch s unfolding choked_def eq by (auto simp: one_peer_def status_def told_def nothing_asked_def)
qed

lemma choked_sent:
  assumes ch: "choked pr" and st: "status pr = Waking m"
  defines "pr' \<equiv> set_status 0 Idle (pr\<lparr>pr_wakeups := pr_wakeups pr @ [m]\<rparr>)"
  shows "choked pr'" "status pr' = Idle" "pr_wakeups pr' = pr_wakeups pr @ [m]"
proof -
  have one: "one_peer the_peer pr" and course: "test_course pr" and m: "m = Wakeup" using ch st by (auto simp: choked_def)
  have "0 < length (pr_handlers pr)" "h_status (pr_handlers pr ! 0) = Waking m"
    using one_peer_facts(2) [OF one] st by (simp_all add: status_def)
  then have "test_course pr'" unfolding pr'_def by (rule memory_store.course_sent [OF course])
  moreover have eq: "pr' = pr\<lparr>pr_wakeups := pr_wakeups pr @ [m], pr_handlers := [\<lparr>h_peer = the_peer, h_conn = 0, h_status = Idle\<rparr>]\<rparr>"
    using one_peer_facts(8) [OF one] by (simp add: pr'_def set_status_def)
  ultimately show "choked pr'" "status pr' = Idle" "pr_wakeups pr' = pr_wakeups pr @ [m]"
    using ch m by (auto simp: choked_def one_peer_def status_def told_def nothing_asked_def)
qed

lemma choked_woken:
  fixes now :: "u32 \<Rightarrow> instant"
  assumes iter: "hash_iteration iter" and ch: "choked pr" and wk: "pr_wakeups pr = m # ms"
  defines "pr' \<equiv> process_wakeup memory_ops iter now m (pr\<lparr>pr_wakeups := ms\<rparr>)"
  shows "choked pr'" "status pr' = status pr" "pr_wakeups pr' = ms"
proof -
  let ?t = "ts_tracking (pr_state pr)" and ?pr0 = "pr\<lparr>pr_wakeups := ms\<rparr>"
  have one: "one_peer the_peer pr" and course: "test_course pr" and m: "m = Wakeup" using ch wk by (auto simp: choked_def)
  note wake = memory_store.course_wake [OF test_sized iter course wk pr'_def [THEN meta_eq_to_obj_eq]]
  obtain reqs t1 where t1: "generate_assignments iter now (pr_torrent pr) (piece_id_to_peers (pr_state pr)) ?t = Some (reqs, t1)"
    "in_flight (started t1) = req_key ` set reqs \<union> in_flight (started ?t)"
    "finished_blocks (started t1) = finished_blocks (started ?t)" "pieces_completed t1 = pieces_completed ?t"
    "\<forall>r \<in> set reqs. req_peer_id r \<in> ts_peers_not_choking (pr_state pr)"
    using round_facts [OF iter course, of now] by metis
  have none: "reqs = []" using t1(5) ch by (cases reqs) (auto simp: choked_def)
  have one0: "one_peer the_peer ?pr0" using one by (simp add: one_peer_def status_def)
  have eq: "pr' = pr\<lparr>pr_wakeups := ms, pr_state := (pr_state pr)\<lparr>ts_tracking := t1\<rparr>\<rparr>"
    using one_peer_wake [OF one0, of iter now "[]" t1 m memory_ops] t1(1) none m by (simp add: pr'_def)
  have "one_peer the_peer pr'" "told pr' = told pr" "status pr' = status pr"
    using one by (simp_all add: eq one_peer_def told_def status_def)
  then show "choked pr'" "status pr' = status pr" "pr_wakeups pr' = ms"
    using ch wake(1) t1 none wk by (auto simp: choked_def eq nothing_asked_def Let_def)
qed

lemma choked_run:
  assumes iter: "hash_iteration iter"
  shows "choked pr \<Longrightarrow> list_all steady evs \<Longrightarrow> set (said evs) \<subseteq> {Flag Choke, Flag NotInterested} \<Longrightarrow>
    exec_run memory_ops A iter evs pr = Some pr' \<Longrightarrow> choked pr'"
proof (induction evs arbitrary: pr)
  case (Cons ev evs)
  obtain pr1 where pr1: "exec_event memory_ops A iter ev pr = Some pr1" "exec_run memory_ops A iter evs pr1 = Some pr'"
    using Cons.prems(4) by (auto simp: bind_eq_Some_conv)
  have i: "i = 0 \<and> h_status (pr_handlers pr ! i) = status pr" if "i < length (pr_handlers pr)" for i
    using Cons.prems(1) one_peer_facts(2) [of the_peer pr] that by (simp add: choked_def status_def)
  have "choked pr1"
  proof (cases ev)
    case (PeerSends j msg)
    then have "j = 0" "status pr = Idle" "pr1 = deliver memory_ops 0 msg pr"
      using pr1(1) i [of j] by (auto split: if_splits)
    then show ?thesis using choked_says(1) [OF Cons.prems(1)] Cons.prems(3) PeerSends by auto
  next
    case (WriteAnswered j)
    then show ?thesis using pr1(1) i [of j] Cons.prems(1) by (cases "status pr") (auto simp: choked_def split: if_splits)
  next
    case (WakeSent j)
    then obtain m where "status pr = Waking m" "pr1 = set_status 0 Idle (pr\<lparr>pr_wakeups := pr_wakeups pr @ [m]\<rparr>)"
      using pr1(1) i [of j] by (cases "status pr") (auto split: if_splits)
    then show ?thesis using choked_sent(1) [OF Cons.prems(1)] by simp
  next
    case (WakeReceived now)
    then obtain m ms where "pr_wakeups pr = m # ms" "pr1 = process_wakeup memory_ops iter now m (pr\<lparr>pr_wakeups := ms\<rparr>)"
      using pr1(1) by (auto split: list.splits if_splits)
    then show ?thesis using choked_woken(1) [OF iter Cons.prems(1)] by simp
  qed (use Cons.prems(2) in simp_all)
  moreover have "list_all steady evs" "set (said evs) \<subseteq> {Flag Choke, Flag NotInterested}"
    using Cons.prems(2,3) by (cases ev; simp)+
  ultimately show ?case using Cons.IH pr1(2) by blast
qed simp

section \<open>Unchoked\<close>

text \<open>The peer unchokes us: the handler's wake-up waits in the queue.\<close>

lemma unchoked_course:
  assumes course: "test_course pr" and one: "one_peer the_peer pr" and rest: "at_rest pr"
  shows "test_course (pr\<lparr>pr_state := set_flag the_peer Unchoke (pr_state pr), pr_wakeups := [Wakeup]\<rparr>)"
proof -
  let ?s = "set_flag the_peer Unchoke (pr_state pr)" and ?h = "\<lambda>st. [\<lparr>h_peer = the_peer, h_conn = 0, h_status = st\<rparr>]"
  let ?pr1 = "pr\<lparr>pr_state := ?s, pr_handlers := ?h (Waking Wakeup)\<rparr>"
  have start: "status pr = Idle" "pr_wakeups pr = []" using rest one_peer_facts(10) [OF one] by simp_all
  have hs: "pr_handlers pr = ?h Idle" using one start by (simp add: one_peer_def)
  have "deliver memory_ops 0 (Flag Unchoke) pr = ?pr1"
    using deliver_quiet [OF one, of memory_ops "Flag Unchoke" "Waking Wakeup" ?s "pr_channels pr"] by simp
  then have c1: "test_course ?pr1" using quiet_course [OF course one start(1), of "Flag Unchoke"] by simp
  have "test_course (set_status 0 Idle (?pr1\<lparr>pr_wakeups := pr_wakeups ?pr1 @ [Wakeup]\<rparr>))"
    by (rule memory_store.course_sent [OF c1]) simp_all
  moreover have "pr\<lparr>pr_state := ?s, pr_wakeups := [Wakeup], pr_handlers := ?h Idle\<rparr> = pr\<lparr>pr_state := ?s, pr_wakeups := [Wakeup]\<rparr>"
    using hs by simp
  ultimately show ?thesis using start(2) by (simp add: set_status_def)
qed

text \<open>The answer to a request of a round is a block of zeros.\<close>

lemma zero_answer:
  assumes "req_key r \<in> blocks test_torrent" and "req_length r = block_len test_torrent (req_index r) (req_begin r)"
  shows "honest_answer test_data r = Piece (req_index r) (req_begin r) (replicate (unat (req_length r)) 0)"
proof -
  let ?k = "req_index r" and ?b = "req_begin r"
  have kb: "(?k, ?b) \<in> blocks test_torrent" using assms(1) by (simp add: req_key_def)
  then have "unat ?k < 2" by (simp add: blocks_def test_pieces)
  moreover from this have "unat ?b + unat (req_length r) \<le> 5120000"
    using block_bounds_torrent(2) [OF fixture_ok kb] assms(2) fixture_size [of ?k "[1, 20]"] by (simp add: two_ids)
  ultimately show ?thesis by (simp add: honest_answer_def block_of_def)
qed

text \<open>One wake-up asks for everything.\<close>

lemma unchoked_asks:
  fixes now :: "u32 \<Rightarrow> instant"
  assumes iter: "hash_iteration iter" and ch: "choked pr" and rest: "at_rest pr"
  defines "s \<equiv> set_flag the_peer Unchoke (pr_state pr)"
  defines "pr' \<equiv> process_wakeup memory_ops iter now Wakeup (pr\<lparr>pr_state := s\<rparr>)"
  shows "at_rest pr'" "\<exists>reqs. length reqs = 626 \<and> told pr' = told pr @ map request_message reqs \<and>
    answering (memory_good test_data) memory_got test_data test_torrent 1024 the_peer (told pr @ map request_message reqs) reqs pr' \<and>
    (\<forall>r \<in> set reqs. honest_answer test_data r = Piece (req_index r) (req_begin r) (replicate (unat (req_length r)) 0))"
proof -
  let ?t = "ts_tracking (pr_state pr)"
  have one: "one_peer the_peer pr" and course: "test_course pr" and none: "nothing_asked pr"
    and has: "has_piece (ts_block_peer_map (pr_state pr)) the_peer = {0, 1}" using ch by (simp_all add: choked_def)
  have start: "status pr = Idle" "pr_wakeups pr = []" using rest one_peer_facts(10) [OF one] by simp_all
  have s: "ts_tracking s = ?t" "ts_block_peer_map s = ts_block_peer_map (pr_state pr)" "ts_outstanding s = ts_outstanding (pr_state pr)"
    "the_peer \<in> ts_peers_not_choking s" "ts_peers_not_choking s \<subseteq> {the_peer}"
    using ch by (auto simp: s_def set_peer_choked_us_facts choked_def)
  have c2: "test_course (pr\<lparr>pr_state := s, pr_wakeups := [Wakeup]\<rparr>)" unfolding s_def by (rule unchoked_course [OF course one rest])
  have same: "pr\<lparr>pr_state := s, pr_wakeups := []\<rparr> = pr\<lparr>pr_state := s\<rparr>" using start(2) by simp
  have w2: "pr_wakeups (pr\<lparr>pr_state := s, pr_wakeups := [Wakeup]\<rparr>) = Wakeup # []"
    "pr' = process_wakeup memory_ops iter now Wakeup ((pr\<lparr>pr_state := s, pr_wakeups := [Wakeup]\<rparr>)\<lparr>pr_wakeups := []\<rparr>)"
    subgoal by simp
    subgoal using same by (simp add: pr'_def)
    done
  note wake = memory_store.course_wake [OF test_sized iter c2 w2]
  define pr2 where "pr2 = pr\<lparr>pr_state := s, pr_wakeups := [Wakeup]\<rparr>"
  have pr2: "pr_state pr2 = s" "pr_torrent pr2 = test_torrent" "pr_channels pr2 = pr_channels pr"
    using course by (simp_all add: pr2_def on_course_def Let_def processor_inv_def)
  obtain reqs t1 where round:
    "generate_assignments iter now (pr_torrent pr2) (piece_id_to_peers (pr_state pr2)) (ts_tracking (pr_state pr2)) = Some (reqs, t1)"
    "distinct (map req_key reqs)"
    "req_key ` set reqs \<inter> (in_flight (started (ts_tracking (pr_state pr2))) \<union> finished_blocks (started (ts_tracking (pr_state pr2)))) = {}"
    "in_flight (started t1) = req_key ` set reqs \<union> in_flight (started (ts_tracking (pr_state pr2)))"
    "finished_blocks (started t1) = finished_blocks (started (ts_tracking (pr_state pr2)))"
    "pieces_completed t1 = pieces_completed (ts_tracking (pr_state pr2))"
    "downloading_requests_len t1 = downloading_requests_len (ts_tracking (pr_state pr2)) + length reqs"
    "pbt_max_outstanding_requests t1 = 1024"
    "\<forall>r \<in> set reqs. req_key r \<in> blocks test_torrent \<and> req_index r \<notin> pieces_completed (ts_tracking (pr_state pr2)) \<and>
       req_length r = block_len test_torrent (req_index r) (req_begin r) \<and> req_peer_id r \<in> ts_peers_not_choking (pr_state pr2)"
    by (rule round_facts [OF iter c2 [folded pr2_def], of now])
  note round = round [unfolded pr2 s(1)]
  have empty: "in_flight (started ?t) = {}" "finished_blocks (started ?t) = {}" "pieces_completed ?t = {}"
    using none by (simp_all add: nothing_asked_def Let_def)
  have len: "downloading_requests_len ?t = 0"
  proof -
    have "nested_wf (downloading (started ?t))"
      using course by (simp add: on_course_def Let_def processor_inv_def tracker_good_def tracker_inv_def maps_ok_def)
    then show ?thesis using some_in_flight [of "started ?t"] empty(1) by (auto simp: downloading_requests_len_def)
  qed
  have sub: "req_key ` set reqs \<subseteq> blocks test_torrent" using round(9) by auto
  have card: "card (req_key ` set reqs) = length reqs" using distinct_card [OF round(2)] by simp
  have "length reqs \<le> 626" using card_mono [OF finite_blocks sub] card test_blocks by simp
  then have "downloading_requests_len t1 \<noteq> 1024" using round(7) len by simp
  then have "blocks test_torrent \<subseteq> settled test_torrent ?t \<union> in_flight (started t1)"
    using round_covers [OF iter c2, of the_peer now reqs t1] round(1) s has by (simp add: test_pieces two_ids)
  then have all: "req_key ` set reqs = blocks test_torrent"
    using sub empty round(4) by (auto simp: settled_def)
  then have count: "length reqs = 626" using card test_blocks by simp
  have peers: "\<forall>r \<in> set reqs. req_peer_id r = the_peer" using round(9) s(5) by blast
  define pr0 where "pr0 = pr\<lparr>pr_state := s\<rparr>"
  have one0: "one_peer the_peer pr0" using one s(3) by (simp add: pr0_def one_peer_def status_def)
  have eq: "pr' = pr\<lparr>pr_state := s\<lparr>ts_tracking := t1\<rparr>,
      pr_channels := send_all (map (\<lambda>m. (0, m)) (map request_message reqs)) (pr_channels pr)\<rparr>"
    using one_peer_wake [OF one0, of iter now reqs t1 Wakeup memory_ops] round(1) s(1) peers pr2(2)
    by (simp add: pr'_def pr0_def pr2_def)
  have told: "told pr' = told pr @ map request_message reqs" "ch_open (pr_channels pr' ! 0)"
    using told_send_all [OF one, of "map request_message reqs"] by (simp_all add: told_def eq)
  have st: "status pr' = Idle" "pr_wakeups pr' = []" using start by (simp_all add: eq status_def)
  have one': "one_peer the_peer pr'" using one s(3) told(2) st by (simp add: one_peer_def eq status_def)
  then show "at_rest pr'" using st one_peer_facts(10) by blast
  have "test_course pr'" using wake(1) .
  then have "answering (memory_good test_data) memory_got test_data test_torrent 1024 the_peer (told pr @ map request_message reqs) reqs pr'"
    using one' st told(1) all round(2,4-6) empty by (auto simp: answering_def Let_def eq pending_def)
  moreover have "honest_answer test_data r = Piece (req_index r) (req_begin r) (replicate (unat (req_length r)) 0)" if "r \<in> set reqs" for r
    by (rule zero_answer) (use round(9) that in blast)+
  ultimately show "\<exists>reqs. length reqs = 626 \<and> told pr' = told pr @ map request_message reqs \<and>
      answering (memory_good test_data) memory_got test_data test_torrent 1024 the_peer (told pr @ map request_message reqs) reqs pr' \<and>
      (\<forall>r \<in> set reqs. honest_answer test_data r = Piece (req_index r) (req_begin r) (replicate (unat (req_length r)) 0))"
    using count told(1) by blast
qed

section \<open>The three times the peer speaks\<close>

lemma choked_settles:
  assumes iter: "hash_iteration iter" and ch: "choked pr" and st: "status pr = Waking m" "pr_wakeups pr = []"
  shows "\<exists>pr'. exec_run memory_ops A iter [WakeSent 0, WakeReceived now] pr = Some pr' \<and> choked pr' \<and> at_rest pr'"
proof -
  let ?pr1 = "set_status 0 Idle (pr\<lparr>pr_wakeups := pr_wakeups pr @ [m]\<rparr>)"
  note sent = choked_sent [OF ch st(1)]
  have wk: "pr_wakeups ?pr1 = m # []" using sent(3) st(2) by simp
  note woken = choked_woken [OF iter sent(1) wk, of now]
  have loops: "pr_loop x = Looping \<and> length (pr_handlers x) = 1" if "choked x" for x
    using that one_peer_facts(2) [of the_peer x] by (simp add: choked_def on_course_def Let_def)
  have "exec_run memory_ops A iter [WakeSent 0, WakeReceived now] pr =
      Some (process_wakeup memory_ops iter now m (?pr1\<lparr>pr_wakeups := []\<rparr>))"
    using loops [OF ch] loops [OF sent(1)] st wk by (simp add: status_def wakeup_capacity_def)
  moreover have "at_rest (process_wakeup memory_ops iter now m (?pr1\<lparr>pr_wakeups := []\<rparr>))"
    using woken sent(2) one_peer_facts(10) by (auto simp: choked_def)
  ultimately show ?thesis using woken(1) by blast
qed

lemma choked_speaks:
  assumes iter: "hash_iteration iter" and ch: "choked pr" "at_rest pr" and f: "f = Choke \<or> f = NotInterested"
  shows "\<exists>pr'. exec_run memory_ops A iter (spoken now (Flag f)) pr = Some pr' \<and> choked pr' \<and> at_rest pr'"
proof -
  have one: "one_peer the_peer pr" and loop: "pr_loop pr = Looping" using ch by (simp_all add: choked_def on_course_def Let_def)
  have st: "status pr = Idle" "pr_wakeups pr = []" using ch(2) one_peer_facts(10) [OF one] by simp_all
  note says = choked_says [OF ch(1) st(1) f]
  have "exec_event memory_ops A iter (PeerSends 0 (Flag f)) pr = Some (deliver memory_ops 0 (Flag f) pr)"
    using loop one_peer_facts(2) [OF one] st(1) by (simp add: status_def)
  then show ?thesis
    using choked_settles [OF iter says(1,2), of A now] says(3) st(2) by (simp add: spoken_def del: exec_event.simps)
qed

lemma first_time:
  assumes A: "bytes_laws A" and iter: "hash_iteration iter" and pr: "setup_test A iter = Some pr"
  obtains bf where "await_expected_initial_messages pr" "send_bitfield A {0, 1} 2 = Some (BitField bf)"
    "\<And>evs pr'. converse memory_ops A iter [BitField bf, Flag Choke, Flag NotInterested] evs pr = Some pr' \<Longrightarrow>
       choked pr' \<and> at_rest pr'"
    "\<exists>evs pr'. converse memory_ops A iter [BitField bf, Flag Choke, Flag NotInterested] evs pr = Some pr'"
proof -
  obtain bf where bf: "send_bitfield A {0, 1} 2 = Some (BitField bf)" "pieces_present bf = [0, 1]" by (rule bitfield_of_both [OF A])
  obtain pr0 where "setup_test A iter = Some pr0" and start: "test_course pr0" "one_peer the_peer pr0" "at_rest pr0"
    "told pr0 = [BitField [0], Flag Choke, Flag NotInterested]" "nothing_asked pr0" "ts_peers_not_choking (pr_state pr0) = {}"
    "pieces_not_started (ts_tracking (pr_state pr0)) = {0, 1}" "has_piece (ts_block_peer_map (pr_state pr0)) the_peer = {}"
    by (rule test_start [OF A])
  then have pr0: "pr0 = pr" using pr by simp
  note start = start [unfolded pr0]
  note heard = bitfield_heard [OF start(1,2,3,5,4,6,7,8) bf(2)]
  have "choked pr' \<and> at_rest pr'"
    if conv: "converse memory_ops A iter [BitField bf, Flag Choke, Flag NotInterested] evs pr = Some pr'" for evs pr'
  proof -
    obtain ev es where evs: "evs = ev # es" using conv by (cases evs) (auto simp: converse_Some)
    obtain x where x: "exec_event memory_ops A iter ev pr = Some x" "exec_run memory_ops A iter es x = Some pr'" "steady ev" "list_all steady es"
      using conv by (auto simp: converse_Some evs bind_eq_Some_conv)
    from rest_next [OF start(2,3) x(3,1)] obtain msg where "ev = PeerSends 0 msg" "x = deliver memory_ops 0 msg pr" by blast
    then have "x = deliver memory_ops 0 (BitField bf) pr" "said es = [Flag Choke, Flag NotInterested]"
      using conv by (auto simp: converse_Some evs)
    then show ?thesis using choked_run [OF iter heard(1) x(4), of A pr'] x(2) conv by (simp add: converse_Some)
  qed
  moreover have "\<exists>evs pr'. converse memory_ops A iter [BitField bf, Flag Choke, Flag NotInterested] evs pr = Some pr'"
  proof -
    let ?now = "\<lambda>_. 0" and ?pr1 = "deliver memory_ops 0 (BitField bf) pr"
    have st: "status pr = Idle" "pr_wakeups pr = []" using start(3) one_peer_facts(10) [OF start(2)] by simp_all
    have "exec_event memory_ops A iter (PeerSends 0 (BitField bf)) pr = Some ?pr1"
      using start(1) one_peer_facts(2) [OF start(2)] st(1) by (simp add: status_def on_course_def Let_def)
    moreover have "pr_wakeups ?pr1 = []" using st(2) by (simp add: deliver_def Let_def set_status_def split: prod.split)
    ultimately obtain pr1 where pr1: "exec_run memory_ops A iter (spoken ?now (BitField bf)) pr = Some pr1" "choked pr1" "at_rest pr1"
      using choked_settles [OF iter heard, of A ?now] by (auto simp: spoken_def simp del: exec_event.simps)
    obtain pr2 where pr2: "exec_run memory_ops A iter (spoken ?now (Flag Choke)) pr1 = Some pr2" "choked pr2" "at_rest pr2"
      using choked_speaks [OF iter pr1(2,3)] by blast
    obtain pr3 where pr3: "exec_run memory_ops A iter (spoken ?now (Flag NotInterested)) pr2 = Some pr3" "choked pr3" "at_rest pr3"
      using choked_speaks [OF iter pr2(2,3)] by blast
    have "converse memory_ops A iter [BitField bf, Flag Choke, Flag NotInterested]
        (spoken ?now (BitField bf) @ spoken ?now (Flag Choke) @ spoken ?now (Flag NotInterested)) pr = Some pr3"
      using pr1(1) pr2(1) pr3(1,3) unfolding converse_Some exec_run_append by (simp add: spoken_def del: exec_run.simps)
    then show ?thesis by blast
  qed
  moreover have "await_expected_initial_messages pr" by (simp add: await_expected_initial_messages_def wait_rx_def start(4))
  ultimately show ?thesis using that bf(1) by blast
qed

text \<open>What the test has received once everything was asked for, and what it answers.\<close>

definition all_asked :: "memory_torrent_io processor \<Rightarrow> peer_requested_piece list \<Rightarrow> bool" where
  "all_asked pr reqs \<longleftrightarrow>
     length reqs = 626 \<and> at_rest pr \<and>
     told pr = [BitField [0], Flag Choke, Flag NotInterested, Flag Interested] @ map request_message reqs \<and>
     answering (memory_good test_data) memory_got test_data test_torrent 1024 the_peer (told pr) reqs pr \<and>
     List.map_filter answer (map request_message reqs) = map (honest_answer test_data) reqs"

lemma second_time:
  assumes iter: "hash_iteration iter" and ch: "choked pr" "at_rest pr"
  shows "converse memory_ops A iter [Flag Unchoke] evs pr = Some pr' \<Longrightarrow> \<exists>reqs. all_asked pr' reqs"
    and "\<exists>evs pr'. converse memory_ops A iter [Flag Unchoke] evs pr = Some pr'"
proof -
  have one: "one_peer the_peer pr" and loop: "pr_loop pr = Looping"
    and told: "told pr = [BitField [0], Flag Choke, Flag NotInterested, Flag Interested]"
    using ch by (simp_all add: choked_def on_course_def Let_def)
  let ?s = "set_flag the_peer Unchoke (pr_state pr)"
  let ?pr' = "\<lambda>now. process_wakeup memory_ops iter now Wakeup (pr\<lparr>pr_state := ?s\<rparr>)"
  have asked: "\<exists>reqs. all_asked (?pr' now) reqs" for now
  proof -
    obtain reqs where reqs: "length reqs = 626" "told (?pr' now) = told pr @ map request_message reqs"
      "answering (memory_good test_data) memory_got test_data test_torrent 1024 the_peer (told pr @ map request_message reqs) reqs (?pr' now)"
      "\<forall>r \<in> set reqs. honest_answer test_data r = Piece (req_index r) (req_begin r) (replicate (unat (req_length r)) 0)"
      using unchoked_asks(2) [OF iter ch, of now] by blast
    from reqs(4) have "List.map_filter answer (map request_message reqs) = map (honest_answer test_data) reqs"
      by (induction reqs) (simp_all add: request_message_def)
    then show ?thesis using reqs unchoked_asks(1) [OF iter ch, of now] told by (auto simp: all_asked_def)
  qed
  have one': "one_peer the_peer x" if "all_asked x reqs" for x reqs using that by (simp add: all_asked_def answering_def Let_def)
  have h: "handle_msg memory_ops the_peer 0 (Flag Unchoke) (pr_state pr, pr_channels pr, pr_io pr) =
      (Waking Wakeup, ?s, pr_channels pr, pr_io pr)" by simp
  have same: "pr\<lparr>pr_state := ?s, pr_channels := pr_channels pr\<rparr> = pr\<lparr>pr_state := ?s\<rparr>" by simp
  have quiet: "one_peer the_peer (?pr' now) \<and> at_rest (?pr' now)" for now
    using asked [of now] one' by (auto simp: all_asked_def)
  note only = only_schedule [OF one ch(2) h, unfolded same, OF quiet]
  show "\<exists>reqs. all_asked pr' reqs" if "converse memory_ops A iter [Flag Unchoke] evs pr = Some pr'"
    using only(2) [OF that] asked by blast
  have "converse memory_ops A iter [Flag Unchoke] (spoken (\<lambda>_. 0) (Flag Unchoke)) pr = Some (?pr' (\<lambda>_. 0))"
    using only(1) [OF loop] quiet by (simp add: converse_Some spoken_def)
  then show "\<exists>evs pr'. converse memory_ops A iter [Flag Unchoke] evs pr = Some pr'" by blast
qed

lemma third_time:
  assumes iter: "hash_iteration iter" and asked: "all_asked pr reqs"
  shows "converse memory_ops A iter (map (honest_answer test_data) reqs) evs pr = Some pr' \<Longrightarrow>
      told pr' = told pr @ [Have 0, Have 1] \<or> told pr' = told pr @ [Have 1, Have 0]"
    and "\<exists>evs pr'. converse memory_ops A iter (map (honest_answer test_data) reqs) evs pr = Some pr'"
proof -
  have ans: "answering (memory_good test_data) memory_got test_data test_torrent 1024 the_peer (told pr) reqs pr" and rest: "at_rest pr"
    using asked unfolding all_asked_def by blast+
  show "told pr' = told pr @ [Have 0, Have 1] \<or> told pr' = told pr @ [Have 1, Have 0]"
    if conv: "converse memory_ops A iter (map (honest_answer test_data) reqs) evs pr = Some pr'"
  proof -
    have "answering (memory_good test_data) memory_got test_data test_torrent 1024 the_peer (told pr) [] pr'" "at_rest pr'"
      using memory_store.answering_run [OF test_sized iter ans] conv by (auto simp: converse_Some)
    from memory_store.answering_end [OF test_sized this] obtain ks where
      ks: "told pr' = told pr @ map Have ks" "distinct ks" "set ks = {0, 1 :: u32}"
      by (auto simp: test_pieces two_ids)
    have "length ks = 2" using distinct_card [OF ks(2)] ks(3) by simp
    then obtain x y where "ks = [x, y]" by (auto simp: length_Suc_conv numeral_2_eq_2)
    then have "ks = [0, 1] \<or> ks = [1, 0]" using ks(2,3) by (auto simp: doubleton_eq_iff)
    then show ?thesis using ks(1) by auto
  qed
  show "\<exists>evs pr'. converse memory_ops A iter (map (honest_answer test_data) reqs) evs pr = Some pr'"
    using memory_store.answering_possible [OF test_sized iter ans rest, of A "\<lambda>_. 0"] by blast
qed

text \<open>What the test receives each time.\<close>

lemma received_choked: "choked pr \<Longrightarrow> wait_rx pr 3 1 = Some [Flag Interested] \<and> wait_rx pr 4 0 = Some []"
  by (simp add: choked_def wait_rx_def)

lemma received_requests:
  assumes "all_asked pr reqs"
  shows "wait_rx pr 4 626 = Some (map request_message reqs)" "length (List.map_filter answer (map request_message reqs)) = 626"
    "List.map_filter answer (map request_message reqs) = map (honest_answer test_data) reqs" "length reqs = 626"
  using assms by (simp_all add: all_asked_def wait_rx_def)

lemma received_haves:
  assumes "all_asked pr reqs" and "told pr' = told pr @ [Have 0, Have 1] \<or> told pr' = told pr @ [Have 1, Have 0]"
  shows "\<exists>msgs. wait_rx pr' 630 2 = Some msgs \<and> list_all (\<lambda>m. have_index m \<noteq> None) msgs \<and>
    sort_key (\<lambda>m. the (have_index m)) msgs = [Have 0, Have 1]"
proof -
  have "length (told pr) = 630" using assms(1) by (simp add: all_asked_def)
  then show ?thesis using assms(2) by (auto simp: wait_rx_def)
qed

section \<open>Properties\<close>

text \<open>
  C6. The integration test passes. Whatever the schedules of the loop and the handler, the order in which hash sets are
  iterated, and the implementation of the byte buffer, no assertion of the test fails and nothing in it panics or
  times out, and there are schedules with which it passes: while it is choked the client asks for nothing,
  once unchoked it asks for all 626 blocks, and after they are answered it announces each piece once.
\<close>

theorem choke_test_passes:
  assumes "bytes_laws A" and "hash_iteration iter"
  shows "(\<forall>first second third. connection_handles_choke_events A iter first second third \<noteq> Some False) \<and>
    (\<exists>first second third. connection_handles_choke_events A iter first second third = Some True)"
proof -
  obtain pr where pr: "setup_test A iter = Some pr" by (rule test_start [OF assms(1)])
  obtain bf where first: "await_expected_initial_messages pr" "send_bitfield A {0, 1} 2 = Some (BitField bf)"
    "\<And>evs pr'. converse memory_ops A iter [BitField bf, Flag Choke, Flag NotInterested] evs pr = Some pr' \<Longrightarrow> choked pr' \<and> at_rest pr'"
    "\<exists>evs pr'. converse memory_ops A iter [BitField bf, Flag Choke, Flag NotInterested] evs pr = Some pr'"
    by (rule first_time [OF assms pr]) metis
  let ?first = "\<lambda>evs. converse memory_ops A iter [BitField bf, Flag Choke, Flag NotInterested] evs pr"
    and ?second = "\<lambda>evs pr1. converse memory_ops A iter [Flag Unchoke] evs pr1"
    and ?third = "\<lambda>evs reqs pr2. converse memory_ops A iter (map (honest_answer test_data) reqs) evs pr2"
  note eval = connection_handles_choke_events_def pr first(1,2) Let_def
  have passes: "connection_handles_choke_events A iter e1 e2 e3 = Some True"
    if e: "?first e1 = Some pr1" "?second e2 pr1 = Some pr2" "all_asked pr2 reqs" "?third e3 reqs pr2 = Some pr3" for e1 e2 e3 pr1 pr2 pr3 reqs
  proof -
    have "choked pr1" using first(3) [OF e(1)] by simp
    note facts = received_choked [OF this] received_haves [OF e(3) third_time(1) [OF assms(2) e(3,4)]]
    show ?thesis using facts by (auto simp: eval e(1,2,4) received_requests [OF e(3)])
  qed
  have "connection_handles_choke_events A iter e1 e2 e3 \<noteq> Some False" for e1 e2 e3
  proof (cases "?first e1")
    case None
    then show ?thesis by (simp add: eval)
  next
    case e1: (Some pr1)
    then have ch: "choked pr1" "at_rest pr1" using first(3) by blast+
    show ?thesis
    proof (cases "?second e2 pr1")
      case None
      then show ?thesis using received_choked [OF ch(1)] by (simp add: eval e1)
    next
      case e2: (Some pr2)
      obtain reqs where reqs: "all_asked pr2 reqs" using second_time(1) [OF assms(2) ch e2] by blast
      show ?thesis
      proof (cases "?third e3 reqs pr2")
        case None
        then show ?thesis using received_choked [OF ch(1)] by (simp add: eval e1 e2 received_requests [OF reqs])
      next
        case (Some pr3)
        then show ?thesis using passes [OF e1 e2 reqs] by simp
      qed
    qed
  qed
  moreover have "\<exists>e1 e2 e3. connection_handles_choke_events A iter e1 e2 e3 = Some True"
  proof -
    obtain e1 pr1 where e1: "?first e1 = Some pr1" using first(4) by blast
    then have ch: "choked pr1" "at_rest pr1" using first(3) by blast+
    obtain e2 pr2 where e2: "?second e2 pr1 = Some pr2" using second_time(2) [OF assms(2) ch] by blast
    obtain reqs where reqs: "all_asked pr2 reqs" using second_time(1) [OF assms(2) ch e2] by blast
    obtain e3 pr3 where "?third e3 reqs pr2 = Some pr3" using third_time(2) [OF assms(2) reqs] by blast
    then show ?thesis using passes [OF e1 e2 reqs] by blast
  qed
  ultimately show ?thesis by blast
qed

text \<open>With the byte buffer as a list and hash sets iterated in order.\<close>

lemma choke_test_passes_witness:
  "(\<forall>first second third. connection_handles_choke_events list_bytes sorted_iter first second third \<noteq> Some False) \<and>
    (\<exists>first second third. connection_handles_choke_events list_bytes sorted_iter first second third = Some True)"
  by (rule choke_test_passes [OF list_bytes.bytes_laws_axioms sorted_iter.hash_iteration_axioms])

end
