(* ===== verification/Spec2Isabelle.thy ===== *)
theory Spec2Isabelle
  imports Bitfield Startup System Slice_Merging Poisoning Download Late_Answers Interest Unit_Tests Choke_Test
begin

text \<open>
  A model of the BitTorrent client \<open>bentorrent\<close> (Rust, \<open>src/src/\<close>) and the theorems about it.

  \<^bold>\<open>The program.\<close> \<open>main\<close> reads a metainfo file, parses it (\<open>file/bencode.rs\<close>) and converts it to a torrent
  (\<open>model/torrent.rs\<close>). \<open>start_processing\<close> (\<open>peer/mod.rs\<close>) builds one of two stores behind the trait
  \<open>TorrentIO\<close> (\<open>peer/io/\<close>), a task that owns it, and the processor (\<open>peer/state/mod.rs\<close>). It announces
  to the tracker (\<open>peer/tracker.rs\<close>, \<open>model/tracker.rs\<close>), connects to the peers of the answer and shakes
  hands (\<open>peer/net.rs\<close>). For each connection a task relays messages between the stream
  (\<open>peer/protocol.rs\<close>) and the processor. The processor's loop accepts peers, polls one handler
  per peer, is woken by the handlers, keeps which blocks of which pieces are in flight
  (\<open>peer/state/piece.rs\<close>), sends requests to peers and answers theirs.

  \<^bold>\<open>How Rust is represented.\<close> (\<open>Prelude\<close>, \<open>Model_Types\<close>, \<open>Ordered_Map\<close>) A struct is a record, an enum a
  datatype, \<open>u8\<close>, \<open>u32\<close>, \<open>i64\<close> are words. \<open>usize\<close> is a natural number whose operations are checked
  against 64 bits. A fallible call returns \<open>res\<close>: \<open>Ok\<close>, \<open>Err\<close>, or \<open>Panic\<close> for an unwinding panic, which
  includes arithmetic overflow as in the development profile; where a call cannot fail
  otherwise, a panic is \<open>None\<close>. \<open>as\<close> casts truncate. A \<open>String\<close> is the list of its UTF-8 bytes. A
  \<open>BTreeMap\<close> is a list sorted by its keys, and a \<open>HashMap\<close> too, except that where the code takes
  the first element of a hash set, the order is a parameter (\<open>hash_iteration\<close>).

  \<^bold>\<open>Code that is not under src.\<close> Crates and system calls are records of functions that the definitions
  take as an argument; what the code relies on is a locale, interpreted on an implementation
  that evaluates: \<open>bytes_laws\<close> (\<open>bytes\<close>), \<open>nom_laws\<close> (\<open>nom\<close>), \<open>url_laws\<close> (\<open>url\<close>), \<open>file_laws\<close>
  (\<open>tokio::fs\<close>). SHA-1, hexadecimal printing and the HTTP client are functions without any law.

  \<^bold>\<open>The theories, and what their lemmas show.\<close>

  \<^item> \<open>Std_Text\<close>, \<open>Bencode\<close>, \<open>Bencode_Parse\<close>, \<open>Bencode_Properties\<close>: the standard library's lossy UTF-8 and IP
  address parsers; \<open>Bencode\<close> with \<open>encode\<close>, the parser \<open>parse_type\<close>. The parser reads back every
  encoded value; what it returns is canonical. Its fuel is the depth of its stack: one more than
  the input's length is enough, and running out of it is a crash of the program, not an error.

  \<^item> \<open>Metainfo\<close>, \<open>Announce\<close>, \<open>Startup\<close>: \<open>V1Torrent::try_from\<close> and \<open>main\<close>; \<open>TrackerResponse::try_from\<close>,
  \<open>tracker_url\<close>, \<open>get_announce\<close>; \<open>make_peer_id\<close>, \<open>inner_start_processing\<close>. A metainfo file is loaded as
  the torrent it was written for; every field of a loaded torrent is the entry of its key, and the info hash that of the
  re-encoded dictionary under \<open>info\<close>; which accepted files panic at the start; the client connects to the first
  reachable peers of the answer (\<open>understood\<close> are the entries of its list that are read as an address and a port).

  \<^item> \<open>Bytes_Api\<close>, \<open>Protocol\<close>, \<open>Connection\<close>, \<open>Run_Connection\<close>, \<open>Bitfield\<close>: \<open>Handshake\<close> and \<open>Messages\<close> with
  their encoders and decoders; \<open>read_msg\<close>, \<open>write_msg\<close>, \<open>do_handshake\<close>, \<open>connect_torrent_peers\<close>; the
  relay \<open>run_connection\<close> as the step relation \<open>conn_step\<close>; the bit fields. The locale \<open>framed_codec\<close> is
  what a codec owes the reader; from it follows that messages survive any cut of the stream.

  \<^item> \<open>Slices\<close>, \<open>Slice_Merging\<close>, \<open>Allocation\<close>, \<open>Torrent_Io\<close>, \<open>Memory_Io\<close>, \<open>File_Io\<close>: which ranges of a piece arrived, the pieces'
  lengths, the trait as a record of operations with the task that owns it (\<open>torrent_io\<close> is the trait's
  contract), and the two stores, which both interpret the contract. A store returns what was written, reports
  a piece finished only when it is covered, and with the file store only with the right hash. Blocks that do not overlap
  leave the same slices as sorting them and fusing neighbours (\<open>merged\<close>). What the file store guarantees of a piece's
  bytes needs a last piece as long as the others: a shorter one is stored over an earlier piece.

  \<^item> \<open>Piece_Tracker\<close>, \<open>Tracker_Invariant\<close>, \<open>Assignment_Progress\<close>: \<open>PieceBlockTracker\<close> and its parts, and the
  invariant over every sequence of its operations: the limit of requests in flight, no piece
  lost, no block both in flight and done, requests only for new blocks, expiry; and that a
  round of assignments leaves capacity over only when nothing on offer is left to ask for.

  \<^item> \<open>Torrent_State\<close>, \<open>Processor\<close>, \<open>Event_Loop\<close>, \<open>Loop_Properties\<close>, \<open>Loop_Outcomes\<close>, \<open>Serving\<close>: \<open>TorrentState\<close>, the
  handlers and branches of \<open>TorrentProcessor\<close>, and the loop as the step relation \<open>processor_step\<close>. A step is
  one branch of the \<open>select!\<close>, or what a handler does between two waits; its label says what the
  environment contributed. Over all interleavings: no panic, requests only where the protocol
  allows them, what a channel carries; what is served, announced and forgotten; how the loop
  can block itself.

  \<^item> \<open>Client\<close>, \<open>Outgoing_Messages\<close>, \<open>Poisoning\<close>: the processor with the store it is started with. Every
  piece counted as completed has the torrent's hash in the file; every message for a peer fits
  its frame (a store owes \<open>block_source\<close> for that, and both keep it); a piece completed with wrong bytes is never
  counted again.

  \<^item> \<open>Reliable_Store\<close>, \<open>Honest_Peers\<close>, \<open>Download_Course\<close>, \<open>Download\<close>: a whole download. The locale \<open>reliable_store\<close> is what a store owes the
  download when nothing fails below it (a block is written, and the piece is reported finished exactly when its last byte arrived); the
  in-memory store interprets it, and so does the file store over a file system that satisfies \<open>reliable_file\<close>. A step is \<open>honest_step\<close>
  if peers stay, send a block only while its request is in flight and with the torrent's bytes, and no request expires. Over
  all such runs the tracker and the store agree (\<open>on_course\<close>). A \<open>finishing_step\<close> is an answer, a step of the client or a
  tick; from every state the measure \<open>steps_left\<close> bounds the steps that are no ticks, and a state without such a step
  has every piece: whatever the order of these steps, the client ends up with the whole torrent.

  \<^item> \<open>Execution\<close>, \<open>Late_Answers\<close>, \<open>Interest\<close>: what happens without those assumptions. \<open>exec_event\<close> is \<open>processor_step\<close> as a function of its
  label, so that concrete runs evaluate. With answers that come after their request expired, a
  piece can stall: \<open>stalled\<close> is preserved by every fair continuation, and \<open>late_events\<close> is a run that
  reaches it. Interest is announced only for pieces that were never started.

  \<^item> \<open>Unit_Tests\<close>, \<open>Tracker_Tests\<close>, \<open>One_Peer\<close>, \<open>Choke_Test\<close>: the repository's own tests as functions of the model, and that
  they pass. The asynchronous test of the processor takes the schedules of its events as an argument and passes
  with all of them: \<open>One_Peer\<close> shows what a conversation with a single peer comes to (\<open>answering\<close>), on top of \<open>Download\<close>.

  \<^item> \<open>System\<close>: the running client, that is the processor composed with all connection tasks, as the
  step relation \<open>system_step\<close>. A step of the system is one of the processor or leaves it alone (the
  interpretation \<open>system\<close> of the locale \<open>simulation\<close>), so what the theories above show of the processor holds in the
  client. Its invariant \<open>system_inv\<close> links the two ends: messages are handled and written in order, no connection
  panics on messages of the protocol, and a malformed frame ends the program.

  \<^item> \<open>Transition\<close>: reachable states and runs; the locale \<open>invariant_system\<close>, which the tracker and the
  processor interpret, and the locale \<open>simulation\<close>, which the system interprets.

  \<^bold>\<open>Bounds.\<close> The only fuel is the parser's stack. Loops of the code are structural recursions, or recursions
  on the length of their input with a termination proof. The wake-up channel has its capacity of
  10 in \<open>Event_Loop\<close>; the other channels are unbounded.

  \<^bold>\<open>Not modelled.\<close> Argument parsing (\<open>clap\<close>) and logging. Time passes as the environment decides: a timeout
  is an outcome of the call it guards, and the timer's tick is a label. TCP is the list of results of the reads
  and writes. A send to a peer or to the I/O task does not wait, and a lock of the state is held for a whole
  step, which is how the single-threaded runtime schedules everything that does not wait; what happens when a bounded
  channel is full is modelled for the wake-up channel only, where the loop's own send blocks it for good (it is the one
  receiver). A panic of the I/O task, a task of its own, leaves \<open>None\<close> in place of the store: calls that
  need it fail from then on.
\<close>

end
